(* ===== verification/Prelude.thy ===== *)
theory Prelude
  imports Main "HOL-Library.Word"
begin

text \<open>
  What every component of the NyauxKC model shares: the machine integer types,
  the result type that stands for Rust's \<^verbatim>\<open>panic!\<close> and \<^verbatim>\<open>Result\<close>, the loop
  \<^verbatim>\<open>for i in (lo..hi).step_by(n)\<close>, the 64-bit wide memory the kernel reaches
  through its higher-half direct map, and the rounding functions
  \<^verbatim>\<open>align_up\<close> and \<^verbatim>\<open>align_down\<close> of \<^verbatim>\<open>kernel/src/main.rs\<close>, with the word
  lemmas the component proofs rest on.

  The kernel is built with the release profile (\<^verbatim>\<open>kernel/GNUmakefile\<close>), where
  integer arithmetic wraps around: the arithmetic of \<^typ>\<open>64 word\<close> and its kin
  is the arithmetic of the code.
\<close>

unbundle bit_operations_syntax

named_theorems res_simps \<open>the result monad\<close>
named_theorems addr_simps \<open>page arithmetic on addresses\<close>

section \<open>Types\<close>

type_synonym u8 = "8 word"
type_synonym u16 = "16 word"
type_synonym u32 = "32 word"
type_synonym u64 = "64 word"

text \<open>\<^verbatim>\<open>usize\<close> is 64 bits wide on both targets (x86_64 and riscv64).\<close>

type_synonym usize = "64 word"

text \<open>
  A panic of the code, with what raised it. A Rust panic ends in
  \<^verbatim>\<open>rust_panic\<close> (\<^verbatim>\<open>kernel/src/main.rs\<close>), which halts the CPU: no state is
  left to speak of.
\<close>

datatype panic =
    PanicMsg string          \<comment> \<open>\<^verbatim>\<open>panic!("...")\<close> and \<^verbatim>\<open>expect("...")\<close>\<close>
  | UnwrapNone               \<comment> \<open>\<^verbatim>\<open>unwrap\<close> on \<^verbatim>\<open>None\<close>\<close>
  | UnwrapErr                \<comment> \<open>\<^verbatim>\<open>unwrap\<close> on \<^verbatim>\<open>Err\<close>\<close>
  | OutOfBounds              \<comment> \<open>slice or array index out of range\<close>
  | AssertFailed             \<comment> \<open>\<^verbatim>\<open>assert!\<close> and \<^verbatim>\<open>assert_eq!\<close>\<close>
  | Todo                     \<comment> \<open>\<^verbatim>\<open>todo!()\<close>\<close>
  | Unreachable              \<comment> \<open>\<^verbatim>\<open>unreachable!()\<close>\<close>
  | DivByZero                \<comment> \<open>division by zero, checked in every profile\<close>
  | BadPointer               \<comment> \<open>not a panic of the code: a pointer to no live object was followed\<close>
  | OutOfFuel                \<comment> \<open>not a panic of the code: the model's loop bound ran out\<close>

type_synonym 'a res = "panic + 'a"

definition and_then :: "'e + 'a \<Rightarrow> ('a \<Rightarrow> 'e + 'b) \<Rightarrow> 'e + 'b" where
  "and_then r f = (case r of Inl e \<Rightarrow> Inl e | Inr x \<Rightarrow> f x)"

definition unwrap_opt :: "'a option \<Rightarrow> 'a res" where
  "unwrap_opt v = (case v of None \<Rightarrow> Inl UnwrapNone | Some x \<Rightarrow> Inr x)"

text \<open>\<^verbatim>\<open>unwrap\<close> on a \<^verbatim>\<open>Result\<close>, and a \<^verbatim>\<open>for\<close> loop whose body may panic.\<close>

definition unwrap_res :: "'e + 'a \<Rightarrow> 'a res" where
  "unwrap_res v = (case v of Inl _ \<Rightarrow> Inl UnwrapErr | Inr x \<Rightarrow> Inr x)"

primrec for_each :: "('a \<Rightarrow> 's \<Rightarrow> 'e + 's) \<Rightarrow> 'a list \<Rightarrow> 's \<Rightarrow> 'e + 's" where
  "for_each f [] s = Inr s"
| "for_each f (x # xs) s = and_then (f x s) (for_each f xs)"

text \<open>The \<^verbatim>\<open>contains\<close> and \<^verbatim>\<open>intersects\<close> of the \<^verbatim>\<open>bitflags\<close> types.\<close>

definition contains :: "'a::len word \<Rightarrow> 'a word \<Rightarrow> bool" where
  "contains fs f \<longleftrightarrow> fs AND f = f"

definition intersects :: "'a::len word \<Rightarrow> 'a word \<Rightarrow> bool" where
  "intersects fs f \<longleftrightarrow> fs AND f \<noteq> 0"

section \<open>Memory\<close>

text \<open>
  Memory as the kernel sees it through 8-byte accesses: one 64-bit cell per
  (8-byte aligned) virtual address.
\<close>

type_synonym memory = "u64 \<Rightarrow> u64"

definition PAGE_SIZE :: usize where
  "PAGE_SIZE = 4096"

text \<open>\<open>ptr.write_bytes(0, n)\<close>\<close>

definition zero_bytes :: "u64 \<Rightarrow> nat \<Rightarrow> memory \<Rightarrow> memory" where
  "zero_bytes p n m = (\<lambda>a. if unat p \<le> unat a \<and> unat a < unat p + n then 0 else m a)"

text \<open>The page an address lies in (\<open>a & !0xFFF\<close>).\<close>

definition page_of :: "u64 \<Rightarrow> u64" where
  "page_of a = a AND NOT 0xFFF"

definition page_aligned :: "u64 \<Rightarrow> bool" where
  "page_aligned a \<longleftrightarrow> a AND 0xFFF = 0"

text \<open>Two memories agree on every cell of the pages in \<open>P\<close>.\<close>

definition agree_on :: "u64 set \<Rightarrow> memory \<Rightarrow> memory \<Rightarrow> bool" where
  "agree_on P m m' \<longleftrightarrow> (\<forall>a. page_of a \<in> P \<longrightarrow> m' a = m a)"

section \<open>Alignment and ranges\<close>

definition align_up :: "u64 \<Rightarrow> u64 \<Rightarrow> u64" where
  "align_up value alignment = (value + alignment - 1) AND NOT (alignment - 1)"

definition align_down :: "u64 \<Rightarrow> u64 \<Rightarrow> u64" where
  "align_down value alignment = value AND NOT (alignment - 1)"

text \<open>The values \<open>(lo..hi).step_by(n)\<close> yields, in order.\<close>

definition range_step :: "u64 \<Rightarrow> u64 \<Rightarrow> nat \<Rightarrow> u64 list" where
  "range_step lo hi n =
     map (\<lambda>k. lo + of_nat (k * n)) [0..<(unat hi - unat lo + n - 1) div n]"

section \<open>The result type\<close>

lemma and_then_simps [simp]:
  "and_then (Inl e) f = Inl e"
  "and_then (Inr x) f = f x"
  by (simp_all add: and_then_def)

lemma and_then_Inr_iff [res_simps]:
  "and_then r f = Inr y \<longleftrightarrow> (\<exists>x. r = Inr x \<and> f x = Inr y)"
  by (cases r) auto

lemma and_then_Inl_iff:
  "and_then r f = Inl e \<longleftrightarrow> r = Inl e \<or> (\<exists>x. r = Inr x \<and> f x = Inl e)"
  by (cases r) auto

lemma and_then_cong [fundef_cong]:
  "r = r' \<Longrightarrow> (\<And>x. r' = Inr x \<Longrightarrow> f x = g x) \<Longrightarrow> and_then r f = and_then r' g"
  by (cases r') auto

lemma and_then_assoc: "and_then (and_then r f) g = and_then r (\<lambda>x. and_then (f x) g)"
  by (cases r) auto

lemma unwrap_opt_simps [simp]:
  "unwrap_opt None = Inl UnwrapNone"
  "unwrap_opt (Some x) = Inr x"
  by (simp_all add: unwrap_opt_def)

lemma unwrap_opt_Inr_iff [res_simps]: "unwrap_opt v = Inr x \<longleftrightarrow> v = Some x"
  by (cases v) auto

lemma unwrap_res_simps [simp]:
  "unwrap_res (Inl e) = Inl UnwrapErr"
  "unwrap_res (Inr x) = Inr x"
  by (simp_all add: unwrap_res_def)

lemma for_each_append: "for_each f (xs @ ys) s = and_then (for_each f xs s) (for_each f ys)"
  by (induction xs arbitrary: s) (auto simp: and_then_def split: sum.split)

lemma for_each_map: "for_each f (map g xs) s = for_each (\<lambda>x. f (g x)) xs s"
  by (induction xs arbitrary: s) (auto simp: and_then_def split: sum.split)

lemma for_each_cong:
  "xs = ys \<Longrightarrow> (\<And>x s. x \<in> set ys \<Longrightarrow> f x s = g x s) \<Longrightarrow> for_each f xs s = for_each g ys s"
  by (induction ys arbitrary: xs s) (auto simp: and_then_def split: sum.split)

text \<open>A loop keeps an invariant over the elements still to come.\<close>

lemma for_each_inv:
  assumes "I xs s" "\<And>x ys t. I (x # ys) t \<Longrightarrow> \<exists>t'. f x t = Inr t' \<and> I ys t'"
  shows "\<exists>t. for_each f xs s = Inr t \<and> I [] t"
  using assms(1)
proof (induction xs arbitrary: s)
  case (Cons x xs)
  from assms(2) [OF Cons.prems] Cons.IH show ?case by auto
qed simp

section \<open>Words\<close>

lemma and_not_mask_eq: "(a :: 'a::len word) AND NOT (mask n) = a - (a AND mask n)"
proof -
  have "(a AND NOT (mask n)) + (a AND mask n) = (a AND NOT (mask n)) OR (a AND mask n)"
    by (rule disjunctive_add) (auto simp: bit_simps)
  also have "\<dots> = a"
    by (rule bit_word_eqI) (auto simp: bit_simps)
  finally show ?thesis
    by (simp add: eq_diff_eq)
qed

lemma unat_and_mask: "unat ((a :: 'a::len word) AND mask n) = unat a mod 2 ^ n"
  by (metis take_bit_eq_mask take_bit_eq_mod unsigned_take_bit_eq)

lemma unat_and_not_mask:
  "unat ((a :: 'a::len word) AND NOT (mask n)) = unat a - unat a mod 2 ^ n"
proof -
  have "unat (a AND mask n) \<le> unat a"
    by (simp add: unat_and_mask)
  then have "a AND mask n \<le> a"
    by (simp add: word_le_nat_alt)
  then show ?thesis
    by (simp add: and_not_mask_eq unat_sub unat_and_mask)
qed

lemma mask_12_eq: "(0xFFF :: u64) = mask 12"
  by (simp add: mask_eq_exp_minus_1)

lemma unat_lt_64: "unat (a :: u64) < 2 ^ 64"
  using unsigned_less [of a] by simp

lemma unat_add_no_wrap:
  "unat (a :: 'a::len word) + unat b < 2 ^ LENGTH('a) \<Longrightarrow> unat (a + b) = unat a + unat b"
  by (simp add: unat_word_ariths)

lemma unat_of_nat_small: "n < 2 ^ LENGTH('a) \<Longrightarrow> unat (of_nat n :: 'a::len word) = n"
  by (simp add: unat_of_nat)

section \<open>Pages\<close>

lemma unat_page_of [addr_simps]: "unat (page_of a) = unat a - unat a mod 4096"
  by (simp only: page_of_def mask_12_eq unat_and_not_mask) simp

lemma page_aligned_iff [addr_simps]: "page_aligned a \<longleftrightarrow> unat a mod 4096 = 0"
proof -
  have "page_aligned a \<longleftrightarrow> unat (a AND mask 12) = 0"
    by (simp add: page_aligned_def mask_12_eq unat_eq_0)
  then show ?thesis
    by (simp add: unat_and_mask)
qed

lemma page_of_eq_iff [addr_simps]: "page_of a = page_of b \<longleftrightarrow> unat a div 4096 = unat b div 4096"
proof -
  have "page_of a = page_of b \<longleftrightarrow> unat (page_of a) = unat (page_of b)"
    by (simp add: word_unat_eq_iff)
  also have "\<dots> \<longleftrightarrow> 4096 * (unat a div 4096) = 4096 * (unat b div 4096)"
    by (simp add: unat_page_of minus_mod_eq_mult_div)
  finally show ?thesis
    by simp
qed

lemma page_of_aligned [simp]: "page_aligned a \<Longrightarrow> page_of a = a"
  by (simp add: word_unat_eq_iff unat_page_of page_aligned_iff)

lemma page_aligned_page_of [simp]: "page_aligned (page_of a)"
  by (simp add: page_aligned_iff unat_page_of minus_mod_eq_mult_div)

lemma page_of_eq_aligned_iff:
  "page_aligned p \<Longrightarrow> page_of a = p \<longleftrightarrow> unat p \<le> unat a \<and> unat a < unat p + 4096"
proof -
  assume p: "page_aligned p"
  have "page_of a = p \<longleftrightarrow> page_of a = page_of p"
    using p by simp
  also have "\<dots> \<longleftrightarrow> unat a div 4096 = unat p div 4096"
    by (rule page_of_eq_iff)
  also have "\<dots> \<longleftrightarrow> unat p \<le> unat a \<and> unat a < unat p + 4096"
  proof -
    from p obtain q where "unat p = 4096 * q"
      unfolding page_aligned_iff by (auto simp: mod_eq_0_iff_dvd)
    then show ?thesis
      by auto
  qed
  finally show ?thesis .
qed

lemma page_aligned_end: "page_aligned p \<Longrightarrow> unat p + 4096 \<le> 2 ^ 64"
proof -
  assume "page_aligned p"
  then obtain q where q: "unat p = 4096 * q"
    unfolding page_aligned_iff by (auto simp: mod_eq_0_iff_dvd)
  with unat_lt_64 [of p] have "q < 2 ^ 52"
    by simp
  with q show ?thesis
    by simp
qed

lemma page_of_add:
  "page_aligned p \<Longrightarrow> unat x < 4096 \<Longrightarrow> page_of (p + x) = p"
  using page_aligned_end [of p]
  by (simp add: page_of_eq_aligned_iff unat_add_no_wrap)

lemma page_aligned_add [intro]:
  "page_aligned p \<Longrightarrow> page_aligned q \<Longrightarrow> page_aligned (p + q)"
proof -
  assume "page_aligned p" "page_aligned q"
  then have "(unat p + unat q) mod 4096 = 0"
    by (simp add: page_aligned_iff mod_eq_0_iff_dvd)
  then show ?thesis
    by (simp add: page_aligned_iff unat_word_ariths mod_mod_cancel)
qed

lemma zero_bytes_page:
  "page_aligned p \<Longrightarrow> zero_bytes p 4096 m = (\<lambda>a. if page_of a = p then 0 else m a)"
  by (rule ext) (simp add: zero_bytes_def page_of_eq_aligned_iff)

lemma agree_on_refl [simp]: "agree_on P m m"
  by (simp add: agree_on_def)

lemma agree_on_trans: "agree_on P m m' \<Longrightarrow> agree_on P m' m'' \<Longrightarrow> agree_on P m m''"
  by (simp add: agree_on_def)

lemma agree_on_mono: "agree_on Q m m' \<Longrightarrow> P \<subseteq> Q \<Longrightarrow> agree_on P m m'"
  by (auto simp: agree_on_def)

lemma agree_on_upd: "page_of a \<notin> P \<Longrightarrow> agree_on P m (m(a := v))"
  by (auto simp: agree_on_def)

lemma agree_on_zero_bytes:
  "page_aligned p \<Longrightarrow> p \<notin> P \<Longrightarrow> agree_on P m (zero_bytes p 4096 m)"
  by (auto simp: agree_on_def zero_bytes_page)

section \<open>Rounding\<close>

lemma unat_align_down: "unat (align_down v (2 ^ k)) = unat v - unat v mod 2 ^ k"
proof -
  have "align_down v (2 ^ k) = v AND NOT (mask k)"
    by (simp add: align_down_def mask_eq_exp_minus_1)
  then show ?thesis
    by (simp add: unat_and_not_mask)
qed

lemma unat_exp: "k < 64 \<Longrightarrow> unat ((2 :: u64) ^ k) = 2 ^ k"
proof -
  assume "k < 64"
  then have "(2 :: nat) ^ k < 2 ^ LENGTH(64)"
    by (intro power_strict_increasing) auto
  from unat_of_nat_small [OF this] show ?thesis
    by simp
qed

lemma unat_exp_minus_1: "k < 64 \<Longrightarrow> unat ((2 :: u64) ^ k - 1) = 2 ^ k - 1"
proof -
  assume k: "k < 64"
  then have "(2 :: u64) ^ k \<noteq> 0"
    using unat_exp [OF k] by (metis power_not_zero unat_0 zero_neq_numeral)
  then show ?thesis
    by (simp add: unat_minus_one unat_exp [OF k])
qed

lemma unat_align_up:
  assumes k: "k < 64" and no_wrap: "unat v + 2 ^ k \<le> 2 ^ 64"
  shows "unat (align_up v (2 ^ k)) = (unat v + 2 ^ k - 1) div 2 ^ k * 2 ^ k"
proof -
  let ?w = "v + (2 ^ k - 1)"
  have "align_up v (2 ^ k) = ?w AND NOT (mask k)"
    by (simp add: align_up_def mask_eq_exp_minus_1 algebra_simps)
  moreover have "unat ?w = unat v + 2 ^ k - 1"
  proof -
    have "1 \<le> (2 :: nat) ^ k"
      by simp
    with no_wrap have "unat v + (2 ^ k - 1) < 2 ^ 64"
      by linarith
    then have "unat v + unat ((2 :: u64) ^ k - 1) < 2 ^ LENGTH(64)"
      by (simp add: unat_exp_minus_1 [OF k])
    then show ?thesis
      using unat_add_no_wrap [of v "2 ^ k - 1"] by (simp add: unat_exp_minus_1 [OF k])
  qed
  ultimately show ?thesis
    by (simp add: unat_and_not_mask minus_mod_eq_div_mult)
qed

section \<open>Stepped ranges\<close>

lemma length_range_step: "length (range_step lo hi n) = (unat hi - unat lo + n - 1) div n"
  by (simp add: range_step_def)

lemma range_step_nth:
  "k < length (range_step lo hi n) \<Longrightarrow> range_step lo hi n ! k = lo + of_nat (k * n)"
  by (simp add: range_step_def)

lemma range_step_shift:
  assumes "unat base + unat len < 2 ^ 64"
  shows "range_step base (base + len) n = map (\<lambda>i. base + i) (range_step 0 len n)"
proof -
  have "unat (base + len) = unat base + unat len"
    by (rule unat_add_no_wrap) (use assms in simp)
  then show ?thesis
    by (simp add: range_step_def)
qed

section \<open>Flag sets\<close>

lemma bit_flag: "c = 2 ^ k \<Longrightarrow> k < LENGTH('a) \<Longrightarrow> bit (c :: 'a::len word) i \<longleftrightarrow> i = k"
  by (auto simp: bit_exp_iff)

lemma and_flag: "c = 2 ^ k \<Longrightarrow> (e :: 'a::len word) AND c \<noteq> 0 \<longleftrightarrow> bit e k"
  by (simp add: and_exp_eq_0_iff_not_bit)

lemma contains_flag:
  assumes "c = 2 ^ k" "k < LENGTH('a)"
  shows "contains (f :: 'a::len word) c \<longleftrightarrow> bit f k"
proof -
  have "f AND 2 ^ k = (if bit f k then 2 ^ k else 0)"
    by (rule bit_eqI) (auto simp: bit_simps)
  with assms show ?thesis
    by (auto simp: contains_def)
qed

lemma bit_if_or: "bit (if b then x OR c else x) i \<longleftrightarrow> bit x i \<or> b \<and> bit (c :: 'a::len word) i"
  by (simp add: bit_or_iff)

lemma bit_flag_16:
  "bit (1 :: u16) i \<longleftrightarrow> i = 0" "bit (2 :: u16) i \<longleftrightarrow> i = 1" "bit (4 :: u16) i \<longleftrightarrow> i = 2"
  "bit (8 :: u16) i \<longleftrightarrow> i = 3" "bit (16 :: u16) i \<longleftrightarrow> i = 4" "bit (32 :: u16) i \<longleftrightarrow> i = 5"
  "bit (64 :: u16) i \<longleftrightarrow> i = 6" "bit (128 :: u16) i \<longleftrightarrow> i = 7" "bit (256 :: u16) i \<longleftrightarrow> i = 8"
  "bit (512 :: u16) i \<longleftrightarrow> i = 9"
  by (rule bit_flag; simp)+

lemma bit_flag_64:
  "bit (1 :: u64) i \<longleftrightarrow> i = 0" "bit (2 :: u64) i \<longleftrightarrow> i = 1" "bit (4 :: u64) i \<longleftrightarrow> i = 2"
  "bit (8 :: u64) i \<longleftrightarrow> i = 3" "bit (16 :: u64) i \<longleftrightarrow> i = 4" "bit (32 :: u64) i \<longleftrightarrow> i = 5"
  "bit (0x80 :: u64) i \<longleftrightarrow> i = 7" "bit (0x100 :: u64) i \<longleftrightarrow> i = 8" "bit (0x1000 :: u64) i \<longleftrightarrow> i = 12"
  "bit (0x8000000000000000 :: u64) i \<longleftrightarrow> i = 63"
  by (rule bit_flag; simp)+

lemma and_flag_64:
  "(e :: u64) AND 1 \<noteq> 0 \<longleftrightarrow> bit e 0" "e AND 2 \<noteq> 0 \<longleftrightarrow> bit e 1" "e AND 4 \<noteq> 0 \<longleftrightarrow> bit e 2"
  "e AND 8 \<noteq> 0 \<longleftrightarrow> bit e 3" "e AND 16 \<noteq> 0 \<longleftrightarrow> bit e 4" "e AND 32 \<noteq> 0 \<longleftrightarrow> bit e 5"
  "e AND 0x80 \<noteq> 0 \<longleftrightarrow> bit e 7" "e AND 0x100 \<noteq> 0 \<longleftrightarrow> bit e 8" "e AND 0x1000 \<noteq> 0 \<longleftrightarrow> bit e 12"
  "e AND 0x8000000000000000 \<noteq> 0 \<longleftrightarrow> bit e 63"
  by (rule and_flag; simp)+

lemma contains_16:
  "contains (f :: u16) 1 \<longleftrightarrow> bit f 0" "contains f 2 \<longleftrightarrow> bit f 1" "contains f 4 \<longleftrightarrow> bit f 2"
  "contains f 8 \<longleftrightarrow> bit f 3" "contains f 16 \<longleftrightarrow> bit f 4" "contains f 32 \<longleftrightarrow> bit f 5"
  "contains f 64 \<longleftrightarrow> bit f 6" "contains f 128 \<longleftrightarrow> bit f 7" "contains f 256 \<longleftrightarrow> bit f 8"
  "contains f 512 \<longleftrightarrow> bit f 9"
  by (rule contains_flag; simp)+

end
