(* ===== verification/Interfaces.thy ===== *)
theory Interfaces
  imports Prelude
begin

text \<open>
  The contracts between components, as locales: what a client may rely on, and
  what follows from it for every client. Each is interpreted on the model's own
  definitions in the theory of the component that provides it.
\<close>

section \<open>Page frames\<close>

text \<open>
  \<open>free s ps\<close> says that the allocator in state \<open>s\<close> holds exactly the pages
  \<open>ps\<close>, in the order it will hand them out. \<open>rd\<close> and \<open>wr\<close> read and replace
  the memory the allocator shares with everybody else.
\<close>

primrec alloc_seq :: "('s \<Rightarrow> 'e + (u64 \<times> 's)) \<Rightarrow> nat \<Rightarrow> 's \<Rightarrow> 'e + (u64 list \<times> 's)" where
  "alloc_seq al 0 s = Inr ([], s)"
| "alloc_seq al (Suc n) s =
     and_then (al s) (\<lambda>(p, s1). and_then (alloc_seq al n s1) (\<lambda>(ps, s2). Inr (p # ps, s2)))"

locale page_allocator =
  fixes al :: "'s \<Rightarrow> panic + (u64 \<times> 's)"
    and dl :: "u64 \<Rightarrow> 's \<Rightarrow> panic + 's"
    and rd :: "'s \<Rightarrow> memory"
    and wr :: "memory \<Rightarrow> 's \<Rightarrow> 's"
    and free :: "'s \<Rightarrow> u64 list \<Rightarrow> bool"
    and valid :: "u64 \<Rightarrow> bool"
  assumes free_distinct: "free s ps \<Longrightarrow> distinct ps"
    and free_valid: "free s ps \<Longrightarrow> p \<in> set ps \<Longrightarrow> valid p"
    and valid_aligned: "valid p \<Longrightarrow> page_aligned p"
    and free_unique: "free s ps \<Longrightarrow> free s qs \<Longrightarrow> ps = qs"
    and al_ok: "free s (p # ps) \<Longrightarrow>
       \<exists>s'. al s = Inr (p, s') \<and> free s' ps \<and> rd s' = zero_bytes p 4096 (rd s)"
    and dl_ok: "free s ps \<Longrightarrow> valid p \<Longrightarrow> p \<notin> set ps \<Longrightarrow>
       \<exists>s'. dl p s = Inr s' \<and> free s' (p # ps) \<and> agree_on (- {p}) (rd s) (rd s')"
    and rd_wr: "rd (wr m s) = m"
    and free_wr: "free s ps \<Longrightarrow> agree_on (set ps) (rd s) m \<Longrightarrow> free (wr m s) ps"
begin

lemma al_seq_ok:
  "free s (ps @ qs) \<Longrightarrow>
     \<exists>s'. alloc_seq al (length ps) s = Inr (ps, s') \<and> free s' qs
        \<and> agree_on (- set ps) (rd s) (rd s')
        \<and> (\<forall>a. page_of a \<in> set ps \<longrightarrow> rd s' a = 0)"
proof (induction ps arbitrary: s)
  case Nil
  then show ?case by auto
next
  case (Cons p ps)
  have p: "page_aligned p"
    using free_valid [OF Cons.prems, of p] by (simp add: valid_aligned)
  from Cons.prems al_ok [of s p "ps @ qs"] obtain s1 where s1: "al s = Inr (p, s1)"
    "free s1 (ps @ qs)" "rd s1 = zero_bytes p 4096 (rd s)"
    by auto
  from Cons.IH [OF s1(2)] obtain s2 where s2: "alloc_seq al (length ps) s1 = Inr (ps, s2)"
    "free s2 qs" "agree_on (- set ps) (rd s1) (rd s2)"
    "\<forall>a. page_of a \<in> set ps \<longrightarrow> rd s2 a = 0"
    by blast
  have "p \<notin> set ps"
    using free_distinct [OF Cons.prems] by simp
  then show ?case
    using s1 s2 p by (auto simp: agree_on_def zero_bytes_page)
qed

lemma al_dl_roundtrip:
  assumes "free s (p # ps)"
  shows "\<exists>s1 s2. al s = Inr (p, s1) \<and> dl p s1 = Inr s2 \<and> free s2 (p # ps)
     \<and> agree_on (- {p}) (rd s) (rd s2)"
proof -
  have p: "valid p" "p \<notin> set ps"
    using free_valid [OF assms, of p] free_distinct [OF assms] by auto
  from al_ok [OF assms] obtain s1 where s1: "al s = Inr (p, s1)" "free s1 ps"
    "rd s1 = zero_bytes p 4096 (rd s)"
    by blast
  from dl_ok [OF s1(2) p] obtain s2 where s2: "dl p s1 = Inr s2" "free s2 (p # ps)"
    "agree_on (- {p}) (rd s1) (rd s2)"
    by blast
  have "agree_on (- {p}) (rd s) (rd s1)"
    using s1(3) p(1) by (simp add: agree_on_zero_bytes valid_aligned)
  with s1 s2 show ?thesis
    by (blast intro: agree_on_trans)
qed

end

section \<open>Objects\<close>

text \<open>
  \<open>ok s g\<close>: the allocator is well formed in state \<open>s\<close>, with bookkeeping \<open>g\<close>;
  \<open>live s g\<close>: the objects it has handed out, with their sizes; \<open>room g\<close>: how many
  more requests are sure to be met; \<open>cells z x\<close>: the memory of an object of size
  \<open>z\<close> at \<open>x\<close>; \<open>wr\<close> replaces the memory.
\<close>

primrec obj_seq :: "('z \<Rightarrow> 's \<Rightarrow> 'e + ((unit + u64) \<times> 's)) \<Rightarrow> 'z list \<Rightarrow> 's \<Rightarrow> 'e + (u64 list \<times> 's)" where
  "obj_seq oal [] s = Inr ([], s)"
| "obj_seq oal (n # ns) s =
     and_then (oal n s) (\<lambda>(r, s1).
       case r of
         Inl _ \<Rightarrow> Inr ([], s1)
       | Inr x \<Rightarrow> and_then (obj_seq oal ns s1) (\<lambda>(xs, s2). Inr (x # xs, s2)))"

locale object_allocator =
  fixes oal :: "usize \<Rightarrow> 's \<Rightarrow> panic + ((unit + u64) \<times> 's)"
    and odl :: "u64 \<Rightarrow> 's \<Rightarrow> 's"
    and rd :: "'s \<Rightarrow> memory"
    and wr :: "memory \<Rightarrow> 's \<Rightarrow> 's"
    and ok :: "'s \<Rightarrow> 'g \<Rightarrow> bool"
    and live :: "'s \<Rightarrow> 'g \<Rightarrow> (u64 \<times> usize) set"
    and room :: "'g \<Rightarrow> nat"
    and cells :: "usize \<Rightarrow> u64 \<Rightarrow> u64 set"
    and limit :: usize
  assumes live_disjoint: "ok s g \<Longrightarrow> (x, z) \<in> live s g \<Longrightarrow> (y, w) \<in> live s g \<Longrightarrow> (x, z) \<noteq> (y, w) \<Longrightarrow>
       cells z x \<inter> cells w y = {}"
    and live_own: "ok s g \<Longrightarrow> (x, z) \<in> live s g \<Longrightarrow> x \<in> cells z x"
    and oal_ok: "ok s g \<Longrightarrow> 0 < room g \<Longrightarrow> n \<le> limit \<Longrightarrow>
       \<exists>x z s' g'. oal n s = Inr (Inr x, s') \<and> ok s' g' \<and> (x, z) \<notin> live s g
         \<and> live s' g' = insert (x, z) (live s g) \<and> n \<le> z \<and> room g \<le> room g' + 1
         \<and> (\<forall>a\<in>cells z x. rd s' a = 0)
         \<and> (\<forall>(q, w)\<in>live s g. \<forall>a\<in>cells w q. rd s' a = rd s a)"
    and odl_ok: "ok s g \<Longrightarrow> (x, z) \<in> live s g \<Longrightarrow>
       \<exists>g'. ok (odl x s) g' \<and> live (odl x s) g' = live s g - {(x, z)} \<and> room g' = room g
         \<and> (\<forall>(q, w)\<in>live s g - {(x, z)}. \<forall>a\<in>cells w q. rd (odl x s) a = rd s a)"
    and wr_ok: "ok s g \<Longrightarrow> (x, z) \<in> live s g \<Longrightarrow> a \<in> cells z x \<Longrightarrow>
       ok (wr ((rd s)(a := v)) s) g \<and> live (wr ((rd s)(a := v)) s) g = live s g"
    and rd_wr: "rd (wr m s) = m"
begin

lemma live_inj: "ok s g \<Longrightarrow> (x, z) \<in> live s g \<Longrightarrow> (x, w) \<in> live s g \<Longrightarrow> z = w"
  using live_disjoint [of s g x z x w] live_own [of s g x] by blast

lemma fresh_address:
  assumes "ok s' g'" "live s' g' = insert (x, z) (live s g)" "(x, z) \<notin> live s g"
  shows "x \<notin> fst ` live s g"
  using live_inj [OF assms(1)] assms(2,3) by fastforce

text \<open>Enough room: every request of a sequence is met, with distinct objects.\<close>

lemma obj_seq_ok:
  "ok s g \<Longrightarrow> length ns \<le> room g \<Longrightarrow> \<forall>n\<in>set ns. n \<le> limit \<Longrightarrow>
     \<exists>xs zs s' g'. obj_seq oal ns s = Inr (xs, s') \<and> ok s' g' \<and> distinct xs
       \<and> set xs \<inter> fst ` live s g = {} \<and> list_all2 (\<le>) ns zs
       \<and> live s' g' = set (zip xs zs) \<union> live s g \<and> length xs = length ns
       \<and> (\<forall>(q, w)\<in>live s g. \<forall>a\<in>cells w q. rd s' a = rd s a)"
proof (induction ns arbitrary: s g)
  case Nil
  then show ?case
    by (intro exI [of _ "[]"] exI [of _ s] exI [of _ g]) auto
next
  case (Cons n ns)
  have "0 < room g" "n \<le> limit"
    using Cons.prems by auto
  from oal_ok [OF Cons.prems(1) this] obtain x z s1 g1 where
    1: "oal n s = Inr (Inr x, s1)" "ok s1 g1" "(x, z) \<notin> live s g"
      "live s1 g1 = insert (x, z) (live s g)" "n \<le> z" "room g \<le> room g1 + 1"
      "\<forall>(q, w)\<in>live s g. \<forall>a\<in>cells w q. rd s1 a = rd s a"
    by blast
  have "length ns \<le> room g1"
    using 1(6) Cons.prems(2) by simp
  with Cons.IH [OF 1(2)] Cons.prems(3) obtain xs zs s' g' where
    2: "obj_seq oal ns s1 = Inr (xs, s')" "ok s' g'" "distinct xs" "set xs \<inter> fst ` live s1 g1 = {}"
      "list_all2 (\<le>) ns zs" "live s' g' = set (zip xs zs) \<union> live s1 g1" "length xs = length ns"
      "\<forall>(q, w)\<in>live s1 g1. \<forall>a\<in>cells w q. rd s' a = rd s1 a"
    by auto
  have x: "x \<notin> fst ` live s g"
    by (rule fresh_address [OF 1(2,4,3)])
  have keep: "rd s' a = rd s a" if "(q, w) \<in> live s g" "a \<in> cells w q" for q w a
    using 1(4,7) 2(8) that by fastforce
  have sep: "x \<notin> set xs" "set xs \<inter> fst ` live s g = {}"
    using 1(4) 2(4) by auto
  have "obj_seq oal (n # ns) s = Inr (x # xs, s') \<and> ok s' g' \<and> distinct (x # xs)
      \<and> set (x # xs) \<inter> fst ` live s g = {} \<and> list_all2 (\<le>) (n # ns) (z # zs)
      \<and> live s' g' = set (zip (x # xs) (z # zs)) \<union> live s g \<and> length (x # xs) = length (n # ns)
      \<and> (\<forall>(q, w)\<in>live s g. \<forall>a\<in>cells w q. rd s' a = rd s a)"
    using 1(1,4,5) 2(1,2,3,5,6,7) x sep keep by auto
  then show ?case
    by (intro exI)
qed

text \<open>A write inside one object does not show in another.\<close>

lemma write_other:
  assumes "ok s g" "(x, z) \<in> live s g" "a \<in> cells z x" "(y, w) \<in> live s g" "(x, z) \<noteq> (y, w)" "b \<in> cells w y"
  shows "rd (wr ((rd s)(a := v)) s) b = rd s b"
  using live_disjoint [OF assms(1,2,4,5)] assms(3,6) by (auto simp: rd_wr)

end

end
