(* ===== verification/Pmm.thy ===== *)
theory Pmm
  imports Interfaces
begin

text \<open>
  The physical memory manager, \<^verbatim>\<open>kernel/src/memory/pmm/mod.rs\<close>: a free list of
  4 KiB frames threaded through the frames themselves. \<^verbatim>\<open>FREELIST\<close> and the
  \<^verbatim>\<open>next\<close> fields hold physical addresses; the node of frame \<open>p\<close> is reached at
  virtual address \<open>p + hh\<close>, where \<open>hh\<close> is the offset of the higher-half direct
  map that the boot loader reports (\<^verbatim>\<open>HHDM_REQUEST\<close>).
\<close>

section \<open>State and operations\<close>

record pmm_state =
  mem :: memory
  FREELIST :: "u64 option"

datatype memmap_type =
    MEMMAP_USABLE | MEMMAP_RESERVED | MEMMAP_ACPI_RECLAIMABLE | MEMMAP_ACPI_NVS
  | MEMMAP_BAD_MEMORY | MEMMAP_BOOTLOADER_RECLAIMABLE | MEMMAP_EXECUTABLE_AND_MODULES
  | MEMMAP_FRAMEBUFFER | MEMMAP_MAPPED_RESERVED

record memmap_entry =
  me_base :: u64
  me_length :: u64
  me_type :: memmap_type

text \<open>The body of the loop over the frames of one usable entry.\<close>

definition pmm_add_frame :: "u64 \<Rightarrow> u64 \<Rightarrow> 'z pmm_state_scheme \<Rightarrow> 'z pmm_state_scheme" where
  "pmm_add_frame hh i s =
     (if i = 0 then s
      else
        let prev = (case FREELIST s of None \<Rightarrow> 0 | Some f \<Rightarrow> f)
        in s\<lparr>mem := (mem s)(i + hh := prev), FREELIST := Some i\<rparr>)"

definition pmm_add_entry :: "u64 \<Rightarrow> memmap_entry \<Rightarrow> 'z pmm_state_scheme \<Rightarrow> 'z pmm_state_scheme" where
  "pmm_add_entry hh e s =
     (case me_type e of
        MEMMAP_USABLE \<Rightarrow>
          fold (pmm_add_frame hh)
            (range_step (me_base e) (me_base e + me_length e) (unat PAGE_SIZE)) s
      | _ \<Rightarrow> s)"

text \<open>
  The part of \<^verbatim>\<open>pmm::init\<close> before it calls \<^verbatim>\<open>init_slab\<close>; \<open>None\<close> is a boot
  loader that did not answer \<^verbatim>\<open>MEMMAP_REQUEST\<close>.
\<close>

definition pmm_init_memmap ::
    "u64 \<Rightarrow> memmap_entry list option \<Rightarrow> 'z pmm_state_scheme \<Rightarrow> 'z pmm_state_scheme" where
  "pmm_init_memmap hh resp s =
     (case resp of None \<Rightarrow> s | Some entries \<Rightarrow> fold (pmm_add_entry hh) entries s)"

definition allocate_page ::
    "u64 \<Rightarrow> 'z pmm_state_scheme \<Rightarrow> panic + (u64 \<times> 'z pmm_state_scheme)" where
  "allocate_page hh s =
     (case FREELIST s of
        None \<Rightarrow> Inl (PanicMsg ''gbr'')
      | Some phy \<Rightarrow>
          let bro = phy + hh;
              s1 = s\<lparr>FREELIST := Some (mem s bro)\<rparr>
          in Inr (bro, s1\<lparr>mem := zero_bytes bro (unat PAGE_SIZE) (mem s1)\<rparr>))"

definition deallocate_page ::
    "u64 \<Rightarrow> u64 \<Rightarrow> 'z pmm_state_scheme \<Rightarrow> panic + 'z pmm_state_scheme" where
  "deallocate_page hh ptr s =
     and_then (unwrap_opt (FREELIST s)) (\<lambda>old.
       let m1 = zero_bytes ptr (unat PAGE_SIZE) (mem s);
           m2 = m1(ptr := old)
       in Inr (s\<lparr>mem := m2, FREELIST := Some (ptr - hh)\<rparr>))"

section \<open>The free list\<close>

text \<open>
  \<open>frame_chain hh m f vs\<close>: following the \<^verbatim>\<open>next\<close> fields from physical address \<open>f\<close>
  visits the frames at virtual addresses \<open>vs\<close> and ends at null.
\<close>

primrec frame_chain :: "u64 \<Rightarrow> memory \<Rightarrow> u64 \<Rightarrow> u64 list \<Rightarrow> bool" where
  "frame_chain hh m f [] \<longleftrightarrow> f = 0"
| "frame_chain hh m f (v # vs) \<longleftrightarrow> f \<noteq> 0 \<and> v = f + hh \<and> frame_chain hh m (m v) vs"

definition valid_frame :: "u64 \<Rightarrow> u64 \<Rightarrow> bool" where
  "valid_frame hh v \<longleftrightarrow> page_aligned v \<and> v \<noteq> hh \<and> v \<noteq> 0"

definition pmm_free :: "u64 \<Rightarrow> 'z pmm_state_scheme \<Rightarrow> u64 list \<Rightarrow> bool" where
  "pmm_free hh s vs \<longleftrightarrow>
     (\<exists>f. FREELIST s = Some f \<and> frame_chain hh (mem s) f vs)
     \<and> distinct vs \<and> (\<forall>v\<in>set vs. valid_frame hh v)"

text \<open>Replacing the whole memory: what a client that writes to its own pages does.\<close>

definition set_mem :: "memory \<Rightarrow> 'z pmm_state_scheme \<Rightarrow> 'z pmm_state_scheme" where
  "set_mem m s = s\<lparr>mem := m\<rparr>"

text \<open>The frames \<^verbatim>\<open>pmm::init\<close> is to find in one entry and in a memory map.\<close>

definition usable_frames :: "memmap_entry \<Rightarrow> u64 list" where
  "usable_frames e =
     (if me_type e = MEMMAP_USABLE
      then filter (\<lambda>i. i \<noteq> 0) (range_step (me_base e) (me_base e + me_length e) 4096)
      else [])"

section \<open>Allocation and deallocation\<close>

lemma unat_PAGE_SIZE [simp]: "unat PAGE_SIZE = 4096"
  by (simp add: PAGE_SIZE_def)

lemma frame_chain_cong:
  "(\<And>v. v \<in> set vs \<Longrightarrow> m' v = m v) \<Longrightarrow> frame_chain hh m' f vs = frame_chain hh m f vs"
  by (induction vs arbitrary: f) auto

lemma frame_chain_mono:
  "frame_chain hh m f vs \<Longrightarrow> (\<And>v. v \<in> set vs \<Longrightarrow> m' v = m v) \<Longrightarrow> frame_chain hh m' f vs"
  using frame_chain_cong by blast

lemma frame_chain_unique:
  "frame_chain hh m f vs \<Longrightarrow> frame_chain hh m f ws \<Longrightarrow> vs = ws"
proof (induction vs arbitrary: f ws)
  case Nil
  then show ?case by (cases ws) auto
next
  case (Cons v vs)
  then show ?case by (cases ws) auto
qed

lemma valid_frame_aligned [dest]: "valid_frame hh v \<Longrightarrow> page_aligned v"
  by (simp add: valid_frame_def)

lemma pmm_free_frame:
  assumes free: "pmm_free hh s vs" and agree: "agree_on (set vs) (mem s) m"
  shows "pmm_free hh (set_mem m s) vs"
proof -
  have "m v = mem s v" if "v \<in> set vs" for v
  proof -
    have "page_of v = v"
      using free that by (auto simp: pmm_free_def valid_frame_def)
    with agree that show ?thesis
      by (auto simp: agree_on_def)
  qed
  then have "frame_chain hh m f vs = frame_chain hh (mem s) f vs" for f
    by (rule frame_chain_cong)
  with free show ?thesis
    by (simp add: pmm_free_def set_mem_def)
qed

lemma allocate_page_ok:
  assumes "pmm_free hh s (v # vs)"
  shows "\<exists>s'. allocate_page hh s = Inr (v, s') \<and> pmm_free hh s' vs
     \<and> mem s' = zero_bytes v 4096 (mem s)"
proof -
  from assms obtain f where f: "FREELIST s = Some f" "f \<noteq> 0" "v = f + hh"
    "frame_chain hh (mem s) (mem s v) vs"
    and d: "v \<notin> set vs" "distinct vs" and ok: "valid_frame hh v" "\<forall>w\<in>set vs. valid_frame hh w"
    by (auto simp: pmm_free_def)
  have "zero_bytes v 4096 (mem s) w = mem s w" if "w \<in> set vs" for w
    using that ok d by (auto simp: zero_bytes_page valid_frame_def)
  then have "frame_chain hh (zero_bytes v 4096 (mem s)) (mem s v) vs"
    by (rule frame_chain_mono [OF f(4)])
  then show ?thesis
    using f d ok by (simp add: allocate_page_def pmm_free_def Let_def)
qed

lemma allocate_page_more:
  "allocate_page hh s = Inr (p, s') \<Longrightarrow> pmm_state.more s' = pmm_state.more s"
  by (auto simp: allocate_page_def Let_def split: option.splits)

lemma deallocate_page_more:
  "deallocate_page hh p s = Inr s' \<Longrightarrow> pmm_state.more s' = pmm_state.more s"
  by (auto simp: deallocate_page_def Let_def res_simps)

lemma deallocate_page_ok:
  assumes free: "pmm_free hh s vs" and v: "valid_frame hh v" "v \<notin> set vs"
  shows "\<exists>s'. deallocate_page hh v s = Inr s' \<and> pmm_free hh s' (v # vs)
     \<and> agree_on (- {v}) (mem s) (mem s')"
proof -
  from free obtain f where f: "FREELIST s = Some f" "frame_chain hh (mem s) f vs"
    by (auto simp: pmm_free_def)
  let ?m = "(zero_bytes v 4096 (mem s))(v := f)"
  have al: "page_aligned w" if "w \<in> set (v # vs)" for w
    using that v free by (auto simp: pmm_free_def)
  have "?m w = mem s w" if "w \<in> set vs" for w
    using that al v by (auto simp: zero_bytes_page)
  then have chain: "frame_chain hh ?m f vs"
    by (rule frame_chain_mono [OF f(2)])
  have agree: "agree_on (- {v}) (mem s) ?m"
    using al by (auto simp: agree_on_def zero_bytes_page)
  let ?s = "s\<lparr>mem := ?m, FREELIST := Some (v - hh)\<rparr>"
  have "deallocate_page hh v s = Inr ?s"
    by (simp add: deallocate_page_def f(1) Let_def)
  moreover have "pmm_free hh ?s (v # vs)"
    using chain free v by (simp add: pmm_free_def valid_frame_def)
  moreover have "agree_on (- {v}) (mem s) (mem ?s)"
    using agree by simp
  ultimately show ?thesis
    by blast
qed

lemma pmm_free_distinct: "pmm_free hh s vs \<Longrightarrow> distinct vs"
  by (simp add: pmm_free_def)

lemma pmm_free_valid: "pmm_free hh s vs \<Longrightarrow> v \<in> set vs \<Longrightarrow> valid_frame hh v"
  by (simp add: pmm_free_def)

lemma pmm_free_unique: "pmm_free hh s vs \<Longrightarrow> pmm_free hh s ws \<Longrightarrow> vs = ws"
  by (auto simp: pmm_free_def intro: frame_chain_unique)

lemma mem_set_mem [simp]: "mem (set_mem m s) = m"
  by (simp add: set_mem_def)

interpretation pmm: page_allocator "allocate_page hh" "deallocate_page hh" mem set_mem
  "pmm_free hh" "valid_frame hh" for hh :: u64
proof (unfold_locales, goal_cases)
  case 1 then show ?case by (rule pmm_free_distinct)
next
  case 2 then show ?case by (rule pmm_free_valid)
next
  case 3 then show ?case by (rule valid_frame_aligned)
next
  case 4 then show ?case by (rule pmm_free_unique)
next
  case 5 then show ?case by (rule allocate_page_ok)
next
  case 6 then show ?case by (rule deallocate_page_ok)
next
  case 7 show ?case by (rule mem_set_mem)
next
  case 8 then show ?case by (rule pmm_free_frame)
qed

text \<open>
  Page table entries can only name frames below the physical address limit of
  the architecture (52 bits on x86_64, 56 on riscv64): the same allocator, over
  such frames.
\<close>

definition phys_frame :: "u64 \<Rightarrow> u64 \<Rightarrow> bool" where
  "phys_frame hh v \<longleftrightarrow> valid_frame hh v \<and> page_aligned (v - hh) \<and> unat (v - hh) < 2 ^ 52"

definition pmm_phys :: "u64 \<Rightarrow> 'z pmm_state_scheme \<Rightarrow> u64 list \<Rightarrow> bool" where
  "pmm_phys hh s vs \<longleftrightarrow> pmm_free hh s vs \<and> (\<forall>v\<in>set vs. phys_frame hh v)"

interpretation pmm_ph: page_allocator "allocate_page hh" "deallocate_page hh" mem set_mem
  "pmm_phys hh" "phys_frame hh" for hh :: u64
proof (unfold_locales, goal_cases)
  case (5 s p ps)
  with pmm.al_ok [of hh s p ps] show ?case
    by (auto simp: pmm_phys_def)
next
  case (6 s ps p)
  with pmm.dl_ok [of hh s ps p] show ?case
    by (auto simp: pmm_phys_def phys_frame_def)
next
  case (8 s ps m)
  with pmm.free_wr [of hh s ps m] show ?case
    by (simp add: pmm_phys_def)
qed (auto simp: pmm_phys_def phys_frame_def dest: pmm_free_distinct pmm_free_unique)

section \<open>Initialisation\<close>

text \<open>Before the first frame is added \<^verbatim>\<open>FREELIST\<close> is \<open>None\<close>.\<close>

definition pmm_list :: "u64 \<Rightarrow> 'z pmm_state_scheme \<Rightarrow> u64 list \<Rightarrow> bool" where
  "pmm_list hh s vs \<longleftrightarrow> (if FREELIST s = None then vs = [] else pmm_free hh s vs)"

lemma pmm_add_frame_zero [simp]: "pmm_add_frame hh 0 s = s"
  by (simp add: pmm_add_frame_def)

lemma pmm_add_frame_ok:
  assumes "pmm_list hh s vs" and i: "i \<noteq> 0" "page_aligned (i + hh)" "i + hh \<noteq> 0" "i + hh \<notin> set vs"
  shows "pmm_list hh (pmm_add_frame hh i s) ((i + hh) # vs)"
proof -
  define f where "f = (case FREELIST s of None \<Rightarrow> 0 | Some f \<Rightarrow> f)"
  have chain: "frame_chain hh (mem s) f vs" and vs: "distinct vs" "\<forall>v\<in>set vs. valid_frame hh v"
    using assms(1) by (auto simp: pmm_list_def pmm_free_def f_def split: if_splits)
  have "frame_chain hh ((mem s)(i + hh := f)) f vs"
    by (rule frame_chain_mono [OF chain]) (use i in auto)
  then have "pmm_free hh (s\<lparr>mem := (mem s)(i + hh := f), FREELIST := Some i\<rparr>) ((i + hh) # vs)"
    using i vs by (simp add: pmm_free_def valid_frame_def)
  then show ?thesis
    using i by (simp add: pmm_list_def pmm_add_frame_def f_def Let_def)
qed

lemma pmm_add_frames_ok:
  assumes "pmm_list hh s vs" "page_aligned hh" "\<forall>i\<in>set fs. page_aligned i"
    and "distinct (filter (\<lambda>i. i \<noteq> 0) fs)"
    and "\<forall>i\<in>set fs. i \<noteq> 0 \<longrightarrow> i + hh \<notin> set vs \<and> i + hh \<noteq> 0"
  shows "pmm_list hh (fold (pmm_add_frame hh) fs s)
           (rev (map (\<lambda>i. i + hh) (filter (\<lambda>i. i \<noteq> 0) fs)) @ vs)"
  using assms
proof (induction fs arbitrary: s vs)
  case Nil
  then show ?case by simp
next
  case (Cons i fs)
  show ?case
  proof (cases "i = 0")
    case True
    with Cons show ?thesis by simp
  next
    case False
    have "pmm_list hh (pmm_add_frame hh i s) ((i + hh) # vs)"
      using Cons.prems False by (intro pmm_add_frame_ok) auto
    then have "pmm_list hh (fold (pmm_add_frame hh) fs (pmm_add_frame hh i s))
                 (rev (map (\<lambda>i. i + hh) (filter (\<lambda>i. i \<noteq> 0) fs)) @ ((i + hh) # vs))"
      using Cons.prems False by (intro Cons.IH) auto
    with False show ?thesis by simp
  qed
qed

lemma range_step_aligned:
  assumes "page_aligned lo" "i \<in> set (range_step lo hi 4096)"
  shows "page_aligned i"
proof -
  from assms(2) obtain k where i: "i = lo + of_nat (k * 4096)"
    by (auto simp: range_step_def)
  have "(unat lo + k * 4096) mod 4096 = 0"
    using assms(1) by (simp add: page_aligned_iff)
  then have "(unat lo + k * 4096) mod 2 ^ 64 mod 4096 = 0"
    by (simp add: mod_mod_cancel)
  moreover have "unat i = (unat lo + k * 4096) mod 2 ^ 64"
    by (simp add: i unat_word_ariths unat_of_nat mod_simps)
  ultimately show ?thesis
    by (simp add: page_aligned_iff)
qed

lemma pmm_add_entry_ok:
  assumes "pmm_list hh s vs" "page_aligned hh"
    and "me_type e = MEMMAP_USABLE \<longrightarrow> page_aligned (me_base e)"
    and "distinct (usable_frames e)" "\<forall>i\<in>set (usable_frames e). i + hh \<notin> set vs \<and> i + hh \<noteq> 0"
  shows "pmm_list hh (pmm_add_entry hh e s) (rev (map (\<lambda>i. i + hh) (usable_frames e)) @ vs)"
proof (cases "me_type e = MEMMAP_USABLE")
  case True
  let ?fs = "range_step (me_base e) (me_base e + me_length e) 4096"
  have "pmm_list hh (fold (pmm_add_frame hh) ?fs s)
          (rev (map (\<lambda>i. i + hh) (filter (\<lambda>i. i \<noteq> 0) ?fs)) @ vs)"
    using assms True range_step_aligned [of "me_base e"]
    by (intro pmm_add_frames_ok) (auto simp: usable_frames_def)
  with True show ?thesis
    by (simp add: pmm_add_entry_def usable_frames_def)
next
  case False
  with assms(1) show ?thesis
    by (simp add: pmm_add_entry_def usable_frames_def split: memmap_type.splits)
qed

lemma pmm_add_entries_ok:
  assumes "pmm_list hh s vs" "page_aligned hh"
    and "\<forall>e\<in>set es. me_type e = MEMMAP_USABLE \<longrightarrow> page_aligned (me_base e)"
    and "distinct (concat (map usable_frames es))"
    and "\<forall>i\<in>set (concat (map usable_frames es)). i + hh \<notin> set vs \<and> i + hh \<noteq> 0"
  shows "pmm_list hh (fold (pmm_add_entry hh) es s)
           (rev (map (\<lambda>i. i + hh) (concat (map usable_frames es))) @ vs)"
  using assms
proof (induction es arbitrary: s vs)
  case Nil
  then show ?case by simp
next
  case (Cons e es)
  let ?vs = "rev (map (\<lambda>i. i + hh) (usable_frames e)) @ vs"
  have "pmm_list hh (pmm_add_entry hh e s) ?vs"
    using Cons.prems by (intro pmm_add_entry_ok) auto
  then have "pmm_list hh (fold (pmm_add_entry hh) es (pmm_add_entry hh e s))
               (rev (map (\<lambda>i. i + hh) (concat (map usable_frames es))) @ ?vs)"
    using Cons.prems by (intro Cons.IH) auto
  then show ?case by simp
qed

section \<open>Any sequence of allocations, frees and uses of held pages\<close>

text \<open>
  \<open>H\<close> is the set of pages handed out and not yet returned. A holder may write
  any value to any cell of its pages. An allocation is made only while the list
  is not exhausted.
\<close>

inductive pmm_run :: "u64 \<Rightarrow> pmm_state \<Rightarrow> pmm_state \<Rightarrow> u64 set \<Rightarrow> bool" for hh s0 where
  start: "pmm_run hh s0 s0 {}"
| alloc: "pmm_run hh s0 s H \<Longrightarrow> FREELIST s \<noteq> Some 0 \<Longrightarrow> allocate_page hh s = Inr (p, s') \<Longrightarrow>
    pmm_run hh s0 s' (insert p H)"
| dealloc: "pmm_run hh s0 s H \<Longrightarrow> p \<in> H \<Longrightarrow> deallocate_page hh p s = Inr s' \<Longrightarrow>
    pmm_run hh s0 s' (H - {p})"
| use: "pmm_run hh s0 s H \<Longrightarrow> page_of a \<in> H \<Longrightarrow> pmm_run hh s0 (set_mem ((mem s)(a := v)) s) H"

lemma pmm_free_exhausted_iff: "pmm_free hh s vs \<Longrightarrow> vs = [] \<longleftrightarrow> FREELIST s = Some 0"
  by (cases vs) (auto simp: pmm_free_def)

lemma pmm_run_inv:
  assumes "pmm_free hh s0 vs0" "pmm_run hh s0 s H"
  shows "\<exists>vs. pmm_free hh s vs \<and> set vs \<inter> H = {} \<and> set vs \<union> H = set vs0"
  using assms(2)
proof (induction rule: pmm_run.induct)
  case start
  with assms(1) show ?case by auto
next
  case (alloc s H p s')
  then obtain vs where vs: "pmm_free hh s vs" "set vs \<inter> H = {}" "set vs \<union> H = set vs0"
    by blast
  with alloc.hyps(2) pmm_free_exhausted_iff obtain v ws where ws: "vs = v # ws"
    by (metis list.exhaust)
  with vs(1) allocate_page_ok alloc.hyps(3) have "p = v" "pmm_free hh s' ws"
    by fastforce+
  moreover have "v \<notin> set ws"
    using vs(1) ws pmm_free_distinct by fastforce
  ultimately show ?case
    using vs ws by auto
next
  case (dealloc s H p s')
  then obtain vs where vs: "pmm_free hh s vs" "set vs \<inter> H = {}" "set vs \<union> H = set vs0"
    by blast
  have "valid_frame hh p" "p \<notin> set vs"
    using vs dealloc.hyps(2) assms(1) by (auto simp: pmm_free_def)
  with vs(1) deallocate_page_ok dealloc.hyps(3) have "pmm_free hh s' (p # vs)"
    by fastforce
  then show ?case
    using vs dealloc.hyps(2) by (intro exI [of _ "p # vs"]) auto
next
  case (use s H a v)
  then obtain vs where vs: "pmm_free hh s vs" "set vs \<inter> H = {}" "set vs \<union> H = set vs0"
    by blast
  have "agree_on (set vs) (mem s) ((mem s)(a := v))"
    using vs(2) use.hyps(2) by (intro agree_on_upd) auto
  with vs show ?case
    using pmm_free_frame by blast
qed

section \<open>Properties\<close>

text \<open>
  C16: \<^verbatim>\<open>pmm::init\<close> on a memory map whose usable entries start at page boundaries
  and do not overlap (the direct map of none of them being the null page) leaves a well-formed free list that holds exactly the
  usable frames other than frame 0, last one first.
\<close>

theorem pmm_init_builds_freelist:
  assumes "FREELIST s = None" "page_aligned hh"
    and "\<forall>e\<in>set es. me_type e = MEMMAP_USABLE \<longrightarrow> page_aligned (me_base e)"
    and "distinct (concat (map usable_frames es))" "concat (map usable_frames es) \<noteq> []"
    and "\<forall>i\<in>set (concat (map usable_frames es)). i + hh \<noteq> 0"
  shows "pmm_free hh (pmm_init_memmap hh (Some es) s)
           (rev (map (\<lambda>i. i + hh) (concat (map usable_frames es))))"
proof -
  let ?vs = "rev (map (\<lambda>i. i + hh) (concat (map usable_frames es)))"
  have "pmm_list hh (fold (pmm_add_entry hh) es s) ?vs"
    using pmm_add_entries_ok [of hh s "[]" es] assms by (simp add: pmm_list_def)
  with assms(5) show ?thesis
    by (auto simp: pmm_list_def pmm_init_memmap_def split: if_splits)
qed

definition example_memmap :: "memmap_entry list" where
  "example_memmap =
     [\<lparr>me_base = 0, me_length = 0x2000, me_type = MEMMAP_USABLE\<rparr>,
      \<lparr>me_base = 0x2000, me_length = 0x1000, me_type = MEMMAP_RESERVED\<rparr>,
      \<lparr>me_base = 0x3000, me_length = 0x2000, me_type = MEMMAP_USABLE\<rparr>]"

definition example_boot :: pmm_state where
  "example_boot = \<lparr>mem = (\<lambda>_. 0), FREELIST = None\<rparr>"

lemma example_frames: "concat (map usable_frames example_memmap) = [0x1000, 0x3000, 0x4000]"
  by (simp add: example_memmap_def usable_frames_def range_step_def upt_rec)

theorem pmm_init_builds_freelist_witness:
  "pmm_free 0x100000 (pmm_init_memmap 0x100000 (Some example_memmap) example_boot)
     [0x104000, 0x103000, 0x101000]"
proof -
  have "\<forall>e\<in>set example_memmap. me_type e = MEMMAP_USABLE \<longrightarrow> page_aligned (me_base e)"
    by (simp add: example_memmap_def page_aligned_def)
  then show ?thesis
    using pmm_init_builds_freelist [of example_boot "0x100000" example_memmap]
    by (simp add: example_frames example_boot_def page_aligned_def)
qed

text \<open>
  C15: as long as no page is asked for when the free list has run out, whatever
  sequence of allocations and frees is run, and whatever the holders of pages write
  to them, no page is ever handed out while it is held: the pages held and the
  pages on the free list always partition the frames the manager started with, and
  the next page it returns, if one is left, is cleared and one nobody holds.
\<close>

theorem pmm_pages_partition:
  assumes "pmm_free hh s0 vs0" "pmm_run hh s0 s H"
  shows "\<exists>vs. pmm_free hh s vs \<and> set vs \<inter> H = {} \<and> set vs \<union> H = set vs0
     \<and> (FREELIST s \<noteq> Some 0 \<longrightarrow>
          (\<exists>p s'. allocate_page hh s = Inr (p, s') \<and> p \<in> set vs0 - H
             \<and> (\<forall>a. page_of a = p \<longrightarrow> mem s' a = 0)))"
proof -
  from pmm_run_inv [OF assms] obtain vs where
    vs: "pmm_free hh s vs" "set vs \<inter> H = {}" "set vs \<union> H = set vs0"
    by blast
  have "\<exists>p s'. allocate_page hh s = Inr (p, s') \<and> p \<in> set vs0 - H
          \<and> (\<forall>a. page_of a = p \<longrightarrow> mem s' a = 0)" if "FREELIST s \<noteq> Some 0"
  proof -
    from that vs(1) obtain v ws where ws: "vs = v # ws"
      using pmm_free_exhausted_iff by (metis list.exhaust)
    with vs(1) have al: "page_aligned v"
      using pmm_free_valid by fastforce
    from ws vs(1) allocate_page_ok obtain s' where
      "allocate_page hh s = Inr (v, s')" "mem s' = zero_bytes v 4096 (mem s)"
      by blast
    then show ?thesis
      using vs ws al by (auto simp: zero_bytes_page)
  qed
  with vs show ?thesis by blast
qed

definition example_pmm :: pmm_state where
  "example_pmm = \<lparr>mem = (\<lambda>_. 0)(0x104000 := 0x3000, 0x103000 := 0x1000), FREELIST = Some 0x4000\<rparr>"

lemma example_pmm_free: "pmm_free 0x100000 example_pmm [0x104000, 0x103000, 0x101000]"
  by (simp add: pmm_free_def example_pmm_def valid_frame_def page_aligned_def)

theorem pmm_pages_partition_witness:
  "\<exists>s vs. allocate_page 0x100000 example_pmm = Inr (0x104000, s)
     \<and> pmm_free 0x100000 s vs \<and> set vs \<inter> {0x104000} = {}
     \<and> set vs \<union> {0x104000} = {0x104000, 0x103000, 0x101000}"
proof -
  obtain s where s: "allocate_page 0x100000 example_pmm = Inr (0x104000, s)"
    using allocate_page_ok [OF example_pmm_free] by blast
  have "pmm_run 0x100000 example_pmm s {0x104000}"
    using pmm_run.alloc [OF pmm_run.start _ s] by (simp add: example_pmm_def)
  from pmm_pages_partition [OF example_pmm_free this] obtain vs where
    "pmm_free 0x100000 s vs" "set vs \<inter> {0x104000} = {}"
    "set vs \<union> {0x104000} = set [0x104000, 0x103000, 0x101000]"
    by (elim exE conjE)
  then show ?thesis
    using s by (intro exI [of _ s] exI [of _ vs] conjI) simp_all
qed

lemma zero_bytes_keeps_zero: "m a = 0 \<Longrightarrow> zero_bytes p n m a = 0"
  by (simp add: zero_bytes_def)

lemma alloc_seq_exhausted:
  "FREELIST s = Some 0 \<Longrightarrow> mem s hh = 0 \<Longrightarrow> \<exists>s'. alloc_seq (allocate_page hh) n s = Inr (replicate n hh, s')"
proof (induction n arbitrary: s)
  case (Suc n)
  obtain s1 where s1: "allocate_page hh s = Inr (hh, s1)" "FREELIST s1 = Some 0" "mem s1 hh = 0"
    using Suc.prems by (simp add: allocate_page_def Let_def zero_bytes_keeps_zero)
  from Suc.IH [OF s1(2,3)] s1(1) show ?case
    by auto
qed simp

text \<open>
  C39: the manager does not notice that it has run out. With \<open>vs\<close> on the free list it
  hands out exactly these frames, in order and each once; every later allocation
  succeeds too and returns the same page, physical page 0 (the virtual address \<open>hh\<close>,
  which is not one of the frames), so from the second on a page that is held is
  handed out again. The first word of page 0 is 0 here; any other word would be taken
  for the next free frame.
\<close>

theorem allocate_page_exhausted:
  assumes "pmm_free hh s vs" and "mem s hh = 0"
  shows "\<exists>s'. alloc_seq (allocate_page hh) (length vs + n) s = Inr (vs @ replicate n hh, s') \<and> distinct vs \<and> hh \<notin> set vs"
proof -
  have hh: "distinct vs" "hh \<notin> set vs"
    using assms(1) by (auto simp: pmm_free_def valid_frame_def)
  have "\<exists>s'. alloc_seq (allocate_page hh) (length vs + n) s = Inr (vs @ replicate n hh, s')"
    using assms
  proof (induction vs arbitrary: s)
    case Nil
    then show ?case
      using alloc_seq_exhausted pmm_free_exhausted_iff [of hh s "[]"] by simp
  next
    case (Cons v vs)
    from allocate_page_ok [OF Cons.prems(1)] obtain s1 where
      s1: "allocate_page hh s = Inr (v, s1)" "pmm_free hh s1 vs" "mem s1 = zero_bytes v 4096 (mem s)"
      by blast
    then have "mem s1 hh = 0"
      using Cons.prems(2) by (simp add: zero_bytes_keeps_zero)
    from Cons.IH [OF s1(2) this] s1(1) show ?case
      by auto
  qed
  with hh show ?thesis
    by blast
qed

theorem allocate_page_exhausted_witness:
  "\<exists>s'. alloc_seq (allocate_page 0x100000) 5 example_pmm = Inr ([0x104000, 0x103000, 0x101000, 0x100000, 0x100000], s')"
proof -
  have "mem example_pmm 0x100000 = 0"
    by (simp add: example_pmm_def)
  from allocate_page_exhausted [OF example_pmm_free this, of 2] obtain s' where
    "alloc_seq (allocate_page 0x100000) (length [0x104000 :: u64, 0x103000, 0x101000] + 2) example_pmm
      = Inr ([0x104000, 0x103000, 0x101000] @ replicate 2 0x100000, s')"
    by blast
  moreover have "length [0x104000 :: u64, 0x103000, 0x101000] + 2 = 5"
    "[0x104000, 0x103000, 0x101000] @ replicate 2 0x100000 = [0x104000 :: u64, 0x103000, 0x101000, 0x100000, 0x100000]"
    by (simp_all add: numeral_eq_Suc)
  ultimately show ?thesis
    by (simp only:) blast
qed

end
