(* ===== verification/Slab.thy ===== *)
theory Slab
  imports Pmm
begin

text \<open>
  The slab allocator, \<^verbatim>\<open>kernel/src/memory/slab.rs\<close>: seven caches of objects of
  16 to 1024 bytes. A slab is one page: a \<^verbatim>\<open>slab_header\<close> of four 8-byte fields
  (kept here at the offsets of their declaration order) and, after it, the
  objects. Free objects are linked through their first cell, slabs of one cache
  through \<^verbatim>\<open>other_slabs\<close>.
\<close>

section \<open>State and operations\<close>

record slabcache =
  sc_size :: usize
  sc_slabs :: u64

record slab_state = pmm_state +
  slab_caches :: "slabcache list"

definition slab_header_bytes :: usize where
  "slab_header_bytes = 32"

definition obj_am_at :: "u64 \<Rightarrow> u64" where "obj_am_at h = h"
definition obj_size_at :: "u64 \<Rightarrow> u64" where "obj_size_at h = h + 8"
definition obj_at :: "u64 \<Rightarrow> u64" where "obj_at h = h + 16"
definition other_slabs_at :: "u64 \<Rightarrow> u64" where "other_slabs_at h = h + 24"

text \<open>The loop that threads the objects of a new slab: newest object first.\<close>

definition slab_link_objs :: "u64 \<Rightarrow> usize \<Rightarrow> nat \<Rightarrow> memory \<Rightarrow> u64 \<times> memory" where
  "slab_link_objs page sz n m =
     fold (\<lambda>i (obj, m).
             let new_obj = page + slab_header_bytes + of_nat i * sz
             in (new_obj, m(new_obj := obj)))
       [1..<n] (page + slab_header_bytes, m)"

definition slab_header_init ::
    "u64 \<Rightarrow> usize \<Rightarrow> 'z pmm_state_scheme \<Rightarrow> panic + (u64 \<times> 'z pmm_state_scheme)" where
  "slab_header_init hh sz s =
     and_then (allocate_page hh s) (\<lambda>(page, s1).
       if sz = 0 then Inl DivByZero
       else
         let obj_am = (PAGE_SIZE - slab_header_bytes) div sz;
             (obj, m1) = slab_link_objs page sz (unat obj_am) (mem s1);
             m2 = m1(obj_am_at page := obj_am, obj_size_at page := sz,
                     obj_at page := obj, other_slabs_at page := 0)
         in Inr (page, s1\<lparr>mem := m2\<rparr>))"

text \<open>
  \<^verbatim>\<open>slab_header::alloc\<close> on a slab with a free object: the second object of the
  list is taken, the first one only when it is alone.
\<close>

definition slab_take :: "u64 \<Rightarrow> memory \<Rightarrow> u64 \<times> memory" where
  "slab_take cur m =
     (let obj = m (obj_at cur); bro = m obj
      in if bro \<noteq> 0 then
           let m1 = m(obj := m bro);
               m2 = zero_bytes bro (unat (m1 (obj_size_at cur))) m1;
               m3 = m2(obj_am_at cur := m2 (obj_am_at cur) - 1)
           in (bro, m3)
         else
           let m1 = zero_bytes obj (unat (m (obj_size_at cur))) m;
               m2 = m1(obj_am_at cur := m1 (obj_am_at cur) - 1);
               m3 = m2(obj_at cur := 0)
           in (obj, m3))"

text \<open>
  The loop of \<^verbatim>\<open>slab_header::alloc\<close> over the slabs of a cache. A chain of slabs
  that ends visits distinct addresses, of which there are \<open>2 ^ 64\<close>: \<open>slab_fuel\<close>
  rounds are enough for it (lemma \<open>slab_chain_fuel\<close>).
\<close>

definition slab_fuel :: nat where
  "slab_fuel = 2 ^ 65"

function slab_header_alloc ::
    "u64 \<Rightarrow> nat \<Rightarrow> u64 \<Rightarrow> 'z pmm_state_scheme \<Rightarrow> panic + (u64 \<times> 'z pmm_state_scheme)" where
  "slab_header_alloc hh fuel cur s =
     (if fuel = 0 then Inl OutOfFuel
      else if mem s (obj_at cur) \<noteq> 0 then
        let (x, m) = slab_take cur (mem s) in Inr (x, s\<lparr>mem := m\<rparr>)
      else if mem s (other_slabs_at cur) \<noteq> 0 then
        slab_header_alloc hh (fuel - 1) (mem s (other_slabs_at cur)) s
      else
        and_then (slab_header_init hh (mem s (obj_size_at cur)) s) (\<lambda>(new, s1).
          if new = 0 then Inl UnwrapNone
          else slab_header_alloc hh (fuel - 1) new
                 (s1\<lparr>mem := (mem s1)(other_slabs_at cur := new)\<rparr>)))"
  by pat_completeness auto
termination
  by (relation "measure (\<lambda>(hh, fuel, cur, s). fuel)") auto

declare slab_header_alloc.simps [simp del]

definition slabcache_init ::
    "u64 \<Rightarrow> usize \<Rightarrow> 'z pmm_state_scheme \<Rightarrow> panic + ((unit + slabcache) \<times> 'z pmm_state_scheme)" where
  "slabcache_init hh sz s =
     (if slab_header_bytes + sz > PAGE_SIZE then Inr (Inl (), s)
      else
        and_then (slab_header_init hh sz s) (\<lambda>(h, s1).
          Inr (Inr \<lparr>sc_size = sz, sc_slabs = h\<rparr>, s1)))"

definition slabcache_alloc ::
    "u64 \<Rightarrow> slabcache \<Rightarrow> 'z pmm_state_scheme \<Rightarrow> panic + (u64 \<times> 'z pmm_state_scheme)" where
  "slabcache_alloc hh c s =
     (if sc_slabs c \<noteq> 0 then slab_header_alloc hh slab_fuel (sc_slabs c) s
      else Inl (PanicMsg ''slab cache not inited yet''))"

definition slab_sizes :: "usize list" where
  "slab_sizes = [16, 32, 64, 128, 256, 512, 1024]"

text \<open>\<open>slab_caches[i] = slabcache::init(size).unwrap()\<close> for each size in turn.\<close>

fun init_slab_caches ::
    "u64 \<Rightarrow> usize list \<Rightarrow> nat \<Rightarrow> 'z slab_state_scheme \<Rightarrow> panic + 'z slab_state_scheme" where
  "init_slab_caches hh [] i s = Inr s"
| "init_slab_caches hh (sz # szs) i s =
     and_then (slabcache_init hh sz s) (\<lambda>(r, s1).
       case r of
         Inl _ \<Rightarrow> Inl UnwrapErr
       | Inr c \<Rightarrow> init_slab_caches hh szs (Suc i) (s1\<lparr>slab_caches := (slab_caches s1)[i := c]\<rparr>))"

definition init_slab :: "u64 \<Rightarrow> 'z slab_state_scheme \<Rightarrow> panic + 'z slab_state_scheme" where
  "init_slab hh s = init_slab_caches hh slab_sizes 0 s"

text \<open>\<^verbatim>\<open>pmm::init\<close>: the memory map, then the slab caches.\<close>

definition pmm_init ::
    "u64 \<Rightarrow> memmap_entry list option \<Rightarrow> 'z slab_state_scheme \<Rightarrow> panic + 'z slab_state_scheme" where
  "pmm_init hh resp s = init_slab hh (pmm_init_memmap hh resp s)"

text \<open>
  \<^verbatim>\<open>slab_alloc\<close>: \<open>Inl ()\<close> is the \<^verbatim>\<open>Err(())\<close> of a request no cache is large
  enough for. Its first line asserts \<^verbatim>\<open>size <= size.next_power_of_two()\<close>, which
  fails exactly when the next power of two does not fit in 64 bits.
\<close>

fun slab_alloc_from ::
    "u64 \<Rightarrow> slabcache list \<Rightarrow> usize \<Rightarrow> 'z slab_state_scheme \<Rightarrow> panic + ((unit + u64) \<times> 'z slab_state_scheme)" where
  "slab_alloc_from hh [] sz s = Inr (Inl (), s)"
| "slab_alloc_from hh (c # cs) sz s =
     (if sc_size c < sz then slab_alloc_from hh cs sz s
      else and_then (slabcache_alloc hh c s) (\<lambda>(x, s1). Inr (Inr x, s1)))"

definition slab_alloc ::
    "u64 \<Rightarrow> usize \<Rightarrow> 'z slab_state_scheme \<Rightarrow> panic + ((unit + u64) \<times> 'z slab_state_scheme)" where
  "slab_alloc hh sz s =
     (if sz > 0x8000000000000000 then Inl AssertFailed
      else slab_alloc_from hh (take 7 (slab_caches s)) sz s)"

definition slab_dealloc :: "u64 \<Rightarrow> 'z pmm_state_scheme \<Rightarrow> 'z pmm_state_scheme" where
  "slab_dealloc addr s =
     (if addr = 0 then s
      else
        let hehe = page_of addr;
            sizeofobj = mem s (obj_size_at hehe);
            m1 = zero_bytes addr (unat sizeofobj) (mem s);
            old = m1 (obj_at hehe)
        in if old = 0 then
             s\<lparr>mem := m1(obj_at hehe := addr, obj_am_at hehe := m1 (obj_am_at hehe) + 1)\<rparr>
           else
             let m2 = m1(addr := old)
             in s\<lparr>mem := m2(obj_at hehe := addr, obj_am_at hehe := m2 (obj_am_at hehe) + 1)\<rparr>)"

section \<open>The shape of a slab\<close>

definition slab_count :: "usize \<Rightarrow> nat" where
  "slab_count sz = 4064 div unat sz"

definition slab_obj :: "u64 \<Rightarrow> usize \<Rightarrow> nat \<Rightarrow> u64" where
  "slab_obj h sz i = h + 32 + of_nat (i * unat sz)"

definition slab_objs :: "usize \<Rightarrow> u64 \<Rightarrow> u64 list" where
  "slab_objs sz h = map (slab_obj h sz) [0..<slab_count sz]"

definition obj_cells :: "usize \<Rightarrow> u64 \<Rightarrow> u64 set" where
  "obj_cells sz x = {a. unat x \<le> unat a \<and> unat a < unat x + unat sz}"

definition hdr_cells :: "u64 \<Rightarrow> u64 set" where
  "hdr_cells h = {obj_am_at h, obj_size_at h, obj_at h, other_slabs_at h}"

definition good_size :: "usize \<Rightarrow> bool" where
  "good_size sz \<longleftrightarrow> 0 < unat sz \<and> unat sz \<le> 1024"

primrec obj_chain :: "memory \<Rightarrow> u64 \<Rightarrow> u64 list \<Rightarrow> bool" where
  "obj_chain m p [] \<longleftrightarrow> p = 0"
| "obj_chain m p (x # xs) \<longleftrightarrow> p = x \<and> x \<noteq> 0 \<and> obj_chain m (m x) xs"

text \<open>The page at \<open>h\<close> is a slab of objects of size \<open>sz\<close> whose free objects are \<open>xs\<close>.\<close>

definition slab_ok :: "memory \<Rightarrow> usize \<Rightarrow> u64 \<Rightarrow> u64 list \<Rightarrow> bool" where
  "slab_ok m sz h xs \<longleftrightarrow>
     page_aligned h \<and> m (obj_size_at h) = sz \<and> obj_chain m (m (obj_at h)) xs
     \<and> distinct xs \<and> set xs \<subseteq> set (slab_objs sz h) \<and> m (obj_am_at h) = of_nat (length xs)"

subsection \<open>Geometry\<close>

lemmas hdr_defs = obj_am_at_def obj_size_at_def obj_at_def other_slabs_at_def

lemma unat_page_add:
  "page_aligned p \<Longrightarrow> unat x < 4096 \<Longrightarrow> unat (p + x) = unat p + unat x"
  using page_aligned_end [of p] by (simp add: unat_add_no_wrap)

lemma unat_hdr:
  assumes "page_aligned h"
  shows "unat (obj_am_at h) = unat h" "unat (obj_size_at h) = unat h + 8"
    "unat (obj_at h) = unat h + 16" "unat (other_slabs_at h) = unat h + 24"
  using assms by (simp_all add: hdr_defs unat_page_add)

lemma hdr_distinct:
  assumes "page_aligned h"
  shows "obj_am_at h \<noteq> obj_size_at h" "obj_am_at h \<noteq> obj_at h" "obj_am_at h \<noteq> other_slabs_at h"
    "obj_size_at h \<noteq> obj_at h" "obj_size_at h \<noteq> other_slabs_at h" "obj_at h \<noteq> other_slabs_at h"
  using unat_hdr [OF assms] by (simp_all add: word_unat_eq_iff)

lemma slab_obj_bound:
  assumes "i < slab_count sz"
  shows "32 + i * unat sz + unat sz \<le> 4096"
proof -
  have "Suc i * unat sz \<le> slab_count sz * unat sz"
    using assms by (intro mult_le_mono1) simp
  also have "\<dots> \<le> 4064"
    by (simp add: slab_count_def)
  finally show ?thesis by simp
qed

lemma unat_slab_obj:
  assumes "page_aligned h" "good_size sz" "i < slab_count sz"
  shows "unat (slab_obj h sz i) = unat h + 32 + i * unat sz"
proof -
  have b: "32 + i * unat sz < 4096"
    using slab_obj_bound [OF assms(3)] assms(2) by (simp add: good_size_def)
  have "unat (of_nat (32 + i * unat sz) :: u64) = 32 + i * unat sz"
    using b by (intro unat_of_nat_small) simp
  moreover have "slab_obj h sz i = h + of_nat (32 + i * unat sz)"
    by (simp add: slab_obj_def)
  ultimately show ?thesis
    using unat_page_add [OF assms(1), of "of_nat (32 + i * unat sz)"] b by simp
qed

lemma slab_objs_iff: "x \<in> set (slab_objs sz h) \<longleftrightarrow> (\<exists>i. i < slab_count sz \<and> x = slab_obj h sz i)"
  by (auto simp: slab_objs_def)

lemma slab_obj_in [intro]: "i < slab_count sz \<Longrightarrow> slab_obj h sz i \<in> set (slab_objs sz h)"
  unfolding slab_objs_iff by blast

lemma obj_cells_range:
  assumes "page_aligned h" "good_size sz" "x \<in> set (slab_objs sz h)" "a \<in> obj_cells sz x"
  shows "unat h + 32 \<le> unat a" "unat a < unat h + 4096"
proof -
  from assms(3) obtain i where i: "i < slab_count sz" "x = slab_obj h sz i"
    by (auto simp: slab_objs_iff)
  show "unat h + 32 \<le> unat a" "unat a < unat h + 4096"
    using assms(4) slab_obj_bound [OF i(1)] unat_slab_obj [OF assms(1,2) i(1)] i(2)
    by (auto simp: obj_cells_def)
qed

lemma obj_cells_page:
  assumes "page_aligned h" "good_size sz" "x \<in> set (slab_objs sz h)" "a \<in> obj_cells sz x"
  shows "page_of a = h"
  using obj_cells_range [OF assms] assms(1) by (simp add: page_of_eq_aligned_iff)

lemma hdr_cells_page: "page_aligned h \<Longrightarrow> a \<in> hdr_cells h \<Longrightarrow> page_of a = h"
  by (auto simp: hdr_cells_def page_of_eq_aligned_iff unat_hdr)

lemma hdr_not_obj_cells:
  assumes "page_aligned h" "good_size sz" "x \<in> set (slab_objs sz h)" "a \<in> hdr_cells h"
  shows "a \<notin> obj_cells sz x"
  using obj_cells_range [OF assms(1-3), of a] assms(1,4) by (auto simp: hdr_cells_def unat_hdr)

lemma obj_in_cells: "good_size sz \<Longrightarrow> x \<in> obj_cells sz x"
  by (simp add: obj_cells_def good_size_def)

lemma obj_cells_disjoint:
  assumes "page_aligned h" "good_size sz" "x \<in> set (slab_objs sz h)" "y \<in> set (slab_objs sz h)" "x \<noteq> y"
  shows "obj_cells sz x \<inter> obj_cells sz y = {}"
proof -
  from assms(3,4) obtain i j where i: "i < slab_count sz" "x = slab_obj h sz i"
    and j: "j < slab_count sz" "y = slab_obj h sz j"
    by (auto simp: slab_objs_iff)
  with assms(5) have "i \<noteq> j" by auto
  then consider "Suc i \<le> j" | "Suc j \<le> i" by linarith
  then have "i * unat sz + unat sz \<le> j * unat sz \<or> j * unat sz + unat sz \<le> i * unat sz"
    by (metis add.commute mult_Suc mult_le_mono1)
  then show ?thesis
    using unat_slab_obj [OF assms(1,2) i(1)] unat_slab_obj [OF assms(1,2) j(1)] i(2) j(2)
    by (auto simp: obj_cells_def)
qed

lemma slab_obj_nonzero:
  assumes "page_aligned h" "good_size sz" "x \<in> set (slab_objs sz h)"
  shows "x \<noteq> 0"
  using obj_cells_range(1) [OF assms obj_in_cells [OF assms(2)]] by auto

lemma slab_objs_page:
  "page_aligned h \<Longrightarrow> good_size sz \<Longrightarrow> x \<in> set (slab_objs sz h) \<Longrightarrow> page_of x = h"
  by (rule obj_cells_page) (auto intro: obj_in_cells)

lemma distinct_slab_objs:
  assumes "page_aligned h" "good_size sz"
  shows "distinct (slab_objs sz h)"
proof -
  have "inj_on (slab_obj h sz) (set [0..<slab_count sz])"
  proof (rule inj_onI)
    fix i j
    assume "i \<in> set [0..<slab_count sz]" "j \<in> set [0..<slab_count sz]"
      and eq: "slab_obj h sz i = slab_obj h sz j"
    then have "i * unat sz = j * unat sz"
      using unat_slab_obj [OF assms, of i] unat_slab_obj [OF assms, of j] by auto
    then show "i = j"
      using assms(2) by (simp add: good_size_def)
  qed
  then show ?thesis
    by (simp add: slab_objs_def distinct_map)
qed

lemma zero_obj:
  "zero_bytes x (unat sz) m a = (if a \<in> obj_cells sz x then 0 else m a)"
  by (simp add: zero_bytes_def obj_cells_def)

subsection \<open>Taking an object from a slab\<close>

lemma obj_chain_mono:
  "obj_chain m p xs \<Longrightarrow> (\<And>x. x \<in> set xs \<Longrightarrow> m' x = m x) \<Longrightarrow> obj_chain m' p xs"
  by (induction xs arbitrary: p) auto

lemma slab_ok_ConsI:
  assumes "page_aligned h" "m (obj_size_at h) = sz" "m (obj_at h) = x" "m x = p"
    "obj_chain m p xs" "x \<noteq> 0" "distinct (x # xs)" "set (x # xs) \<subseteq> set (slab_objs sz h)"
    "m (obj_am_at h) = of_nat (Suc (length xs))"
  shows "slab_ok m sz h (x # xs)"
  using assms by (simp add: slab_ok_def)

text \<open>What an operation on slab \<open>h\<close> that moves object \<open>x\<close> may change.\<close>

definition slab_frame :: "usize \<Rightarrow> u64 \<Rightarrow> u64 set \<Rightarrow> memory \<Rightarrow> memory \<Rightarrow> bool" where
  "slab_frame sz h X m m' \<longleftrightarrow>
     m' (other_slabs_at h) = m (other_slabs_at h)
     \<and> (\<forall>a. a \<notin> hdr_cells h \<longrightarrow> (\<forall>x\<in>X. a \<notin> obj_cells sz x) \<longrightarrow> m' a = m a)"

lemma slab_frame_page:
  assumes "page_aligned h" "good_size sz" "X \<subseteq> set (slab_objs sz h)" "slab_frame sz h X m m'"
  shows "agree_on (- {h}) m m'"
  unfolding agree_on_def
proof (intro allI impI)
  fix a
  assume a: "page_of a \<in> - {h}"
  then have "a \<notin> hdr_cells h"
    using hdr_cells_page [OF assms(1)] by auto
  moreover have "a \<notin> obj_cells sz x" if "x \<in> X" for x
    using obj_cells_page [OF assms(1,2), of x a] assms(3) that a by auto
  ultimately show "m' a = m a"
    using assms(4) by (simp add: slab_frame_def)
qed

lemma slab_frame_live:
  assumes "page_aligned h" "good_size sz" "X \<subseteq> set (slab_objs sz h)" "slab_frame sz h X m m'"
    and q: "q \<in> set (slab_objs sz h)" "q \<notin> X" and a: "a \<in> obj_cells sz q"
  shows "m' a = m a"
proof -
  have "a \<notin> hdr_cells h"
    using hdr_not_obj_cells [OF assms(1,2) q(1)] a by auto
  moreover have "a \<notin> obj_cells sz x" if "x \<in> X" for x
    using obj_cells_disjoint [OF assms(1,2) q(1), of x] assms(3) q(2) that a by auto
  ultimately show ?thesis
    using assms(4) by (simp add: slab_frame_def)
qed

lemma slab_take_ok:
  assumes ok: "slab_ok m sz h xs" and gs: "good_size sz" and ne: "xs \<noteq> []"
  shows "\<exists>x ys m'. slab_take h m = (x, m') \<and> x \<in> set xs \<and> slab_ok m' sz h ys
     \<and> set ys = set xs - {x} \<and> slab_frame sz h (set xs) m m' \<and> (\<forall>a\<in>obj_cells sz x. m' a = 0)"
proof -
  from ne obtain x zs where xs: "xs = x # zs"
    by (cases xs) auto
  have h: "page_aligned h" and msz: "m (obj_size_at h) = sz" and mx: "m (obj_at h) = x"
    and ch: "obj_chain m (m x) zs" and d: "x \<notin> set zs" "distinct zs"
    and sub: "x \<in> set (slab_objs sz h)" "set zs \<subseteq> set (slab_objs sz h)"
    and am: "m (obj_am_at h) = of_nat (Suc (length zs))"
    using ok by (auto simp: slab_ok_def xs)
  note hd = hdr_distinct [OF h] hdr_distinct [OF h, symmetric]
  have hx: "a \<notin> obj_cells sz y" if "y \<in> set xs" "a \<in> hdr_cells h" for a y
    using hdr_not_obj_cells [OF h gs, of y a] that sub xs by auto
  have hy: "y \<notin> hdr_cells h" if "y \<in> set xs" for y
    using hx [OF that, of y] obj_in_cells [OF gs, of y] by auto
  have oc: "y' \<notin> obj_cells sz y" if "y \<in> set xs" "y' \<in> set xs" "y \<noteq> y'" for y y'
    using obj_cells_disjoint [OF h gs, of y y'] that sub xs obj_in_cells [OF gs, of y'] by auto
  show ?thesis
  proof (cases zs)
    case Nil
    then have nx: "m x = 0"
      using ch by simp
    let ?m1 = "zero_bytes x (unat sz) m"
    let ?m3 = "?m1(obj_am_at h := ?m1 (obj_am_at h) - 1, obj_at h := 0)"
    have take: "slab_take h m = (x, ?m3)"
      by (simp add: slab_take_def mx nx msz Let_def)
    have cells: "?m1 a = m a" if "a \<in> hdr_cells h" for a
      using hx [of x a] that xs by (simp add: zero_obj)
    have "slab_ok ?m3 sz h []"
      using h msz am hd cells Nil by (simp add: slab_ok_def hdr_cells_def)
    moreover have "slab_frame sz h (set xs) m ?m3"
      using cells hd xs by (auto simp: slab_frame_def hdr_cells_def zero_obj)
    moreover have "\<forall>a\<in>obj_cells sz x. ?m3 a = 0"
      using hx [of x] xs by (auto simp: zero_obj hdr_cells_def)
    ultimately show ?thesis
      using take xs Nil by (intro exI [of _ x] exI [of _ "[]"] exI [of _ ?m3]) simp
  next
    case (Cons y ws)
    have my: "m x = y" and y0: "y \<noteq> 0" and cw: "obj_chain m (m y) ws"
      using ch Cons by auto
    have dy: "x \<noteq> y" "y \<notin> set ws" "x \<notin> set ws" "distinct ws"
      using d Cons by auto
    have yxs: "y \<in> set xs" "x \<in> set xs" "set ws \<subseteq> set xs"
      using xs Cons by auto
    let ?m1 = "m(x := m y)"
    let ?m2 = "zero_bytes y (unat sz) ?m1"
    let ?m3 = "?m2(obj_am_at h := ?m2 (obj_am_at h) - 1)"
    have c1: "?m1 a = m a" if "a \<in> hdr_cells h" for a
      using hy [OF yxs(2)] that by auto
    have take: "slab_take h m = (y, ?m3)"
      using c1 [of "obj_size_at h"] by (simp add: slab_take_def mx my y0 msz Let_def hdr_cells_def)
    have cells: "?m2 a = m a" if "a \<in> hdr_cells h" for a
      using hx [OF yxs(1) that] c1 [OF that] by (simp add: zero_obj)
    have m3x: "?m3 x = m y"
      using oc [OF yxs(1,2)] dy hy [OF yxs(2)] by (simp add: zero_obj hdr_cells_def)
    have m3w: "?m3 w = m w" if "w \<in> set ws" for w
      using oc [OF yxs(1), of w] hy [of w] that yxs dy by (auto simp: zero_obj hdr_cells_def)
    have ch3: "obj_chain ?m3 (m y) ws"
      by (rule obj_chain_mono [OF cw m3w])
    have hdr3: "?m3 (obj_size_at h) = sz" "?m3 (obj_at h) = x"
      "?m3 (obj_am_at h) = of_nat (Suc (length ws))"
      using cells hd mx msz am Cons by (simp_all add: hdr_cells_def)
    have dw: "distinct (x # ws)" "set (x # ws) \<subseteq> set (slab_objs sz h)"
      using dy sub Cons by auto
    have "slab_ok ?m3 sz h (x # ws)"
      by (rule slab_ok_ConsI [OF h hdr3(1,2) m3x ch3 slab_obj_nonzero [OF h gs sub(1)] dw hdr3(3)])
    moreover have "slab_frame sz h (set xs) m ?m3"
    proof -
      have "?m3 a = m a" if "a \<notin> hdr_cells h" "\<forall>z\<in>set xs. a \<notin> obj_cells sz z" for a
        using that yxs obj_in_cells [OF gs, of x] by (auto simp: zero_obj hdr_cells_def)
      moreover have "?m3 (other_slabs_at h) = m (other_slabs_at h)"
        using cells hd by (simp add: hdr_cells_def)
      ultimately show ?thesis by (simp add: slab_frame_def)
    qed
    moreover have "\<forall>a\<in>obj_cells sz y. ?m3 a = 0"
      using hx [OF yxs(1)] by (auto simp: zero_obj hdr_cells_def)
    moreover have "set (x # ws) = set xs - {y}"
      using xs Cons dy by auto
    ultimately show ?thesis
      using take yxs by (intro exI [of _ y] exI [of _ "x # ws"] exI [of _ ?m3]) simp
  qed
qed

subsection \<open>Returning an object to a slab\<close>

lemma slab_dealloc_ok:
  assumes ok: "slab_ok (mem s) sz h xs" and gs: "good_size sz"
    and x: "x \<in> set (slab_objs sz h)" "x \<notin> set xs"
  shows "\<exists>m'. slab_dealloc x s = s\<lparr>mem := m'\<rparr> \<and> slab_ok m' sz h (x # xs)
     \<and> slab_frame sz h {x} (mem s) m'"
proof -
  let ?m = "mem s"
  have h: "page_aligned h" and msz: "?m (obj_size_at h) = sz"
    and ch: "obj_chain ?m (?m (obj_at h)) xs" and d: "distinct xs"
    and sub: "set xs \<subseteq> set (slab_objs sz h)" and am: "?m (obj_am_at h) = of_nat (length xs)"
    using ok by (auto simp: slab_ok_def)
  note hd = hdr_distinct [OF h] hdr_distinct [OF h, symmetric]
  have page: "page_of x = h"
    by (rule slab_objs_page [OF h gs x(1)])
  have x0: "x \<noteq> 0"
    by (rule slab_obj_nonzero [OF h gs x(1)])
  have hx: "a \<notin> obj_cells sz x" if "a \<in> hdr_cells h" for a
    by (rule hdr_not_obj_cells [OF h gs x(1) that])
  have xh: "x \<notin> hdr_cells h"
    using hx [of x] obj_in_cells [OF gs, of x] by auto
  have yx: "y \<notin> obj_cells sz x" if "y \<in> set xs" for y
  proof -
    have "y \<in> set (slab_objs sz h)" "x \<noteq> y"
      using that sub x(2) by auto
    from obj_cells_disjoint [OF h gs x(1) this] obj_in_cells [OF gs, of y] show ?thesis
      by blast
  qed
  have yh: "y \<notin> hdr_cells h" if "y \<in> set xs" for y
    using hdr_not_obj_cells [OF h gs, of y y] obj_in_cells [OF gs, of y] that sub by auto
  let ?m1 = "zero_bytes x (unat sz) ?m"
  let ?m2 = "?m1(x := ?m (obj_at h))"
  let ?m3 = "?m2(obj_at h := x, obj_am_at h := ?m2 (obj_am_at h) + 1)"
  have c1: "?m1 a = ?m a" if "a \<in> hdr_cells h" for a
    using hx [OF that] by (simp add: zero_obj)
  have c2: "?m2 a = ?m a" if "a \<in> hdr_cells h" for a
    using c1 [OF that] xh that by auto
  have old: "?m1 (obj_at h) = ?m (obj_at h)"
    using c1 [of "obj_at h"] by (simp add: hdr_cells_def)
  have same: "?m1 = ?m2" if "?m (obj_at h) = 0"
    using that obj_in_cells [OF gs, of x] by (auto simp: zero_obj)
  have de: "slab_dealloc x s = s\<lparr>mem := ?m3\<rparr>"
  proof (cases "?m (obj_at h) = 0")
    case True
    from same [OF True] show ?thesis
      using x0 old True by (simp add: slab_dealloc_def page msz Let_def)
  next
    case False
    then show ?thesis
      using x0 old by (simp add: slab_dealloc_def page msz Let_def)
  qed
  have m3x: "?m3 x = ?m (obj_at h)"
    using xh by (simp add: hdr_cells_def)
  have "?m3 y = ?m y" if "y \<in> set xs" for y
    using yx [OF that] yh [OF that] x(2) that by (auto simp: zero_obj hdr_cells_def)
  then have ch3: "obj_chain ?m3 (?m (obj_at h)) xs"
    by (rule obj_chain_mono [OF ch])
  have hdr3: "?m3 (obj_size_at h) = sz" "?m3 (obj_at h) = x"
    "?m3 (obj_am_at h) = of_nat (Suc (length xs))"
    using c2 hd msz am by (simp_all add: hdr_cells_def)
  have dw: "distinct (x # xs)" "set (x # xs) \<subseteq> set (slab_objs sz h)"
    using d x sub by auto
  have "slab_ok ?m3 sz h (x # xs)"
    by (rule slab_ok_ConsI [OF h hdr3(1,2) m3x ch3 x0 dw hdr3(3)])
  moreover have "slab_frame sz h {x} ?m ?m3"
  proof -
    have "?m3 a = ?m a" if "a \<notin> hdr_cells h" "a \<notin> obj_cells sz x" for a
      using that obj_in_cells [OF gs, of x] by (auto simp: zero_obj hdr_cells_def)
    moreover have "?m3 (other_slabs_at h) = ?m (other_slabs_at h)"
      using c2 hd by (simp add: hdr_cells_def)
    ultimately show ?thesis by (simp add: slab_frame_def)
  qed
  ultimately show ?thesis
    using de by blast
qed

subsection \<open>A new slab\<close>

lemma slab_obj_eq: "page + slab_header_bytes + of_nat i * sz = slab_obj page sz i"
  by (simp add: slab_obj_def slab_header_bytes_def)

lemma slab_obj_inj:
  assumes "page_aligned h" "good_size sz" "i < slab_count sz" "j < slab_count sz"
    and "slab_obj h sz i = slab_obj h sz j"
  shows "i = j"
proof -
  have "i * unat sz = j * unat sz"
    using unat_slab_obj [OF assms(1-3)] unat_slab_obj [OF assms(1,2,4)] assms(5) by auto
  then show ?thesis
    using assms(2) by (simp add: good_size_def)
qed

lemma slab_link_objs_Suc:
  "1 \<le> n \<Longrightarrow> slab_link_objs page sz (Suc n) m =
     (let (obj, m') = slab_link_objs page sz n m in (slab_obj page sz n, m'(slab_obj page sz n := obj)))"
  by (simp add: slab_link_objs_def slab_obj_eq [symmetric] Let_def split: prod.splits)

lemma slab_link_objs_ok:
  assumes h: "page_aligned h" "good_size sz" and m: "m (slab_obj h sz 0) = 0"
    and n: "1 \<le> n" "n \<le> slab_count sz"
  shows "\<exists>m'. slab_link_objs h sz n m = (slab_obj h sz (n - 1), m')
     \<and> obj_chain m' (slab_obj h sz (n - 1)) (rev (map (slab_obj h sz) [0..<n]))
     \<and> (\<forall>a. a \<notin> slab_obj h sz ` {1..<n} \<longrightarrow> m' a = m a)"
  using n
proof (induction n rule: nat_induct_at_least)
  case base
  have "slab_obj h sz 0 \<in> set (slab_objs sz h)"
    using base by auto
  from slab_obj_nonzero [OF h this] have "slab_obj h sz 0 \<noteq> 0" .
  then show ?case
    using m slab_obj_eq [of h 0 sz] by (simp add: slab_link_objs_def)
next
  case (Suc n)
  then obtain m' where m': "slab_link_objs h sz n m = (slab_obj h sz (n - 1), m')"
    "obj_chain m' (slab_obj h sz (n - 1)) (rev (map (slab_obj h sz) [0..<n]))"
    "\<forall>a. a \<notin> slab_obj h sz ` {1..<n} \<longrightarrow> m' a = m a"
    by auto
  let ?x = "slab_obj h sz n"
  let ?m = "m'(?x := slab_obj h sz (n - 1))"
  have x: "?x \<in> set (slab_objs sz h)"
    using Suc.prems by auto
  have ne: "slab_obj h sz i \<noteq> ?x" if "i < n" for i
    using slab_obj_inj [OF h, of i n] that Suc.prems by auto
  have "obj_chain ?m (slab_obj h sz (n - 1)) (rev (map (slab_obj h sz) [0..<n]))"
    by (rule obj_chain_mono [OF m'(2)]) (use ne in auto)
  then have "obj_chain ?m ?x (rev (map (slab_obj h sz) [0..<Suc n]))"
    using slab_obj_nonzero [OF h x] by simp
  moreover have "\<forall>a. a \<notin> slab_obj h sz ` {1..<Suc n} \<longrightarrow> ?m a = m a"
    using m'(3) Suc.hyps by (auto simp: image_def)
  moreover have "slab_link_objs h sz (Suc n) m = (?x, ?m)"
    using m'(1) Suc.hyps by (simp add: slab_link_objs_Suc)
  ultimately show ?case by simp
qed

lemma slab_count_pos: "good_size sz \<Longrightarrow> 3 \<le> slab_count sz"
proof -
  assume gs: "good_size sz"
  have "4064 div 1024 \<le> 4064 div unat sz"
    using gs by (intro div_le_mono2) (auto simp: good_size_def)
  then show ?thesis by (simp add: slab_count_def)
qed

lemma unat_obj_am: "unat ((PAGE_SIZE - slab_header_bytes) div sz) = slab_count sz"
  by (simp add: unat_div slab_count_def PAGE_SIZE_def slab_header_bytes_def)

lemma slab_header_init_ok:
  assumes free: "pmm_free hh s (v # vs)" and gs: "good_size sz"
  shows "\<exists>s'. slab_header_init hh sz s = Inr (v, s') \<and> pmm_free hh s' vs
     \<and> slab_ok (mem s') sz v (rev (slab_objs sz v)) \<and> mem s' (other_slabs_at v) = 0
     \<and> agree_on (- {v}) (mem s) (mem s') \<and> pmm_state.more s' = pmm_state.more s"
proof -
  from allocate_page_ok [OF free] obtain s1 where s1: "allocate_page hh s = Inr (v, s1)"
    "pmm_free hh s1 vs" "mem s1 = zero_bytes v 4096 (mem s)"
    by blast
  have v: "page_aligned v" "v \<notin> set vs"
    using pmm_free_valid [OF free, of v] pmm_free_distinct [OF free] by auto
  note hd = hdr_distinct [OF v(1)] hdr_distinct [OF v(1), symmetric]
  let ?n = "slab_count sz"
  have n: "1 \<le> ?n"
    using slab_count_pos [OF gs] by simp
  have z: "mem s1 a = 0" if "page_of a = v" for a
    using that v(1) s1(3) by (simp add: zero_bytes_page)
  have o: "slab_obj v sz i \<in> set (slab_objs sz v)" if "i < ?n" for i
    using that by auto
  have m0: "mem s1 (slab_obj v sz 0) = 0"
    using z slab_objs_page [OF v(1) gs o, of 0] n by simp
  from slab_link_objs_ok [where m = "mem s1" and n = ?n, OF v(1) gs m0 n] obtain m1 where
    m1: "slab_link_objs v sz ?n (mem s1) = (slab_obj v sz (?n - 1), m1)"
    "obj_chain m1 (slab_obj v sz (?n - 1)) (rev (slab_objs sz v))"
    "\<forall>a. a \<notin> slab_obj v sz ` {1..<?n} \<longrightarrow> m1 a = mem s1 a"
    by (auto simp: slab_objs_def)
  let ?am = "(PAGE_SIZE - slab_header_bytes) div sz"
  define m2 where "m2 = m1(obj_am_at v := ?am, obj_size_at v := sz,
                     obj_at v := slab_obj v sz (?n - 1), other_slabs_at v := 0)"
  have sz0: "sz \<noteq> 0"
    using gs by (auto simp: good_size_def)
  have init: "slab_header_init hh sz s = Inr (v, s1\<lparr>mem := m2\<rparr>)"
    using s1(1) m1(1) sz0 unat_obj_am [of sz] by (simp add: slab_header_init_def m2_def Let_def)
  have xh: "x \<notin> hdr_cells v" if "x \<in> set (slab_objs sz v)" for x
    using hdr_not_obj_cells [OF v(1) gs that, of x] obj_in_cells [OF gs, of x] by auto
  have "obj_chain m2 (slab_obj v sz (?n - 1)) (rev (slab_objs sz v))"
    by (rule obj_chain_mono [OF m1(2)]) (use xh in \<open>auto simp: m2_def hdr_cells_def\<close>)
  moreover have "?am = of_nat (length (rev (slab_objs sz v)))"
    using unat_obj_am [of sz] by (metis length_map length_rev length_upt minus_nat.diff_0 of_nat_unat slab_objs_def ucast_id)
  ultimately have "slab_ok m2 sz v (rev (slab_objs sz v))"
    using v(1) hd distinct_slab_objs [OF v(1) gs] by (simp add: slab_ok_def m2_def)
  moreover have "m2 (other_slabs_at v) = 0"
    by (simp add: m2_def)
  moreover have agree: "agree_on (- {v}) (mem s) m2"
    unfolding agree_on_def
  proof (intro allI impI)
    fix a
    assume a: "page_of a \<in> - {v}"
    then have "a \<notin> hdr_cells v"
      using hdr_cells_page [OF v(1)] by auto
    moreover have "a \<notin> slab_obj v sz ` {1..<?n}"
      using a slab_objs_page [OF v(1) gs o] by auto
    ultimately have "m2 a = mem s1 a"
      using m1(3) by (simp add: m2_def hdr_cells_def)
    then show "m2 a = mem s a"
      using a v(1) s1(3) by (simp add: zero_bytes_page)
  qed
  moreover have "pmm_free hh (s1\<lparr>mem := m2\<rparr>) vs"
  proof -
    have "agree_on (set vs) (mem s1) m2"
      using agree v s1(3) by (auto simp: agree_on_def zero_bytes_page)
    from pmm_free_frame [OF s1(2) this] show ?thesis
      by (simp add: set_mem_def)
  qed
  ultimately show ?thesis
    using init allocate_page_more [OF s1(1)] by auto
qed

section \<open>A cache: a chain of slabs\<close>

primrec slab_chain :: "memory \<Rightarrow> u64 \<Rightarrow> u64 list \<Rightarrow> bool" where
  "slab_chain m p [] \<longleftrightarrow> p = 0"
| "slab_chain m p (h # hs) \<longleftrightarrow> p = h \<and> h \<noteq> 0 \<and> slab_chain m (m (other_slabs_at h)) hs"

text \<open>\<open>F h\<close> lists the free objects of slab \<open>h\<close>.\<close>

definition cache_ok :: "memory \<Rightarrow> slabcache \<Rightarrow> u64 list \<Rightarrow> (u64 \<Rightarrow> u64 list) \<Rightarrow> bool" where
  "cache_ok m c hs F \<longleftrightarrow>
     hs \<noteq> [] \<and> good_size (sc_size c) \<and> slab_chain m (sc_slabs c) hs \<and> distinct hs
     \<and> (\<forall>h\<in>set hs. slab_ok m (sc_size c) h (F h))"

definition cache_live :: "slabcache \<Rightarrow> u64 list \<Rightarrow> (u64 \<Rightarrow> u64 list) \<Rightarrow> u64 set" where
  "cache_live c hs F = {x. \<exists>h\<in>set hs. x \<in> set (slab_objs (sc_size c) h) - set (F h)}"

lemma slab_ok_empty_iff: "slab_ok m sz h xs \<Longrightarrow> m (obj_at h) = 0 \<longleftrightarrow> xs = []"
  by (cases xs) (auto simp: slab_ok_def)

lemma slab_ok_aligned: "slab_ok m sz h xs \<Longrightarrow> page_aligned h"
  by (simp add: slab_ok_def)

lemma slab_chain_fuel: "distinct (hs :: u64 list) \<Longrightarrow> length hs + 1 < slab_fuel"
proof -
  assume "distinct hs"
  then have "length hs = card (set hs)"
    by (simp add: distinct_card)
  also have "\<dots> \<le> card (UNIV :: u64 set)"
    by (rule card_mono) auto
  also have "\<dots> = 2 ^ 64"
    by (simp add: card_word)
  finally show ?thesis
    by (simp add: slab_fuel_def)
qed

lemma slab_header_alloc_found:
  assumes "slab_chain (mem s) p (pre @ h # post)" "\<forall>g\<in>set pre. slab_ok (mem s) sz g []"
    and "slab_ok (mem s) sz h xs" "xs \<noteq> []" "length pre < fuel"
  shows "slab_header_alloc hh fuel p s =
     Inr (fst (slab_take h (mem s)), s\<lparr>mem := snd (slab_take h (mem s))\<rparr>)"
  using assms
proof (induction pre arbitrary: p fuel)
  case Nil
  then have "mem s (obj_at h) \<noteq> 0" "p = h"
    by (auto simp: slab_ok_empty_iff)
  with Nil.prems show ?case
    by (simp add: slab_header_alloc.simps [of hh fuel h s] case_prod_beta)
next
  case (Cons g pre)
  have g: "p = g" "mem s (obj_at g) = 0"
    using Cons.prems by (auto simp: slab_ok_empty_iff)
  have nz: "mem s (other_slabs_at g) \<noteq> 0"
    using Cons.prems(1) by (cases pre) auto
  have "slab_header_alloc hh fuel p s =
      slab_header_alloc hh (fuel - 1) (mem s (other_slabs_at g)) s"
    using Cons.prems g nz by (simp add: slab_header_alloc.simps [of hh fuel g s])
  also have "\<dots> = Inr (fst (slab_take h (mem s)), s\<lparr>mem := snd (slab_take h (mem s))\<rparr>)"
    using Cons.prems by (intro Cons.IH) auto
  finally show ?case .
qed

lemma slab_header_alloc_refill:
  assumes "slab_chain (mem s) p (pre @ [h])" "\<forall>g\<in>set (pre @ [h]). slab_ok (mem s) sz g []"
    and "slab_header_init hh sz s = Inr (v, s1)" "v \<noteq> 0"
    and "mem s1 (obj_at v) \<noteq> 0" "obj_at v \<noteq> other_slabs_at h" "length pre + 1 < fuel"
  shows "slab_header_alloc hh fuel p s =
     (let m = (mem s1)(other_slabs_at h := v)
      in Inr (fst (slab_take v m), s1\<lparr>mem := snd (slab_take v m)\<rparr>))"
  using assms
proof (induction pre arbitrary: p fuel)
  case Nil
  have h: "p = h" "mem s (obj_at h) = 0" "mem s (other_slabs_at h) = 0" "mem s (obj_size_at h) = sz"
    using Nil.prems by (auto simp: slab_ok_empty_iff slab_ok_def)
  let ?s = "s1\<lparr>mem := (mem s1)(other_slabs_at h := v)\<rparr>"
  have "slab_header_alloc hh fuel p s = slab_header_alloc hh (fuel - 1) v ?s"
    using Nil.prems h by (simp add: slab_header_alloc.simps [of hh fuel h s])
  also have "\<dots> = (let m = (mem s1)(other_slabs_at h := v)
      in Inr (fst (slab_take v m), s1\<lparr>mem := snd (slab_take v m)\<rparr>))"
    using Nil.prems
    by (simp add: slab_header_alloc.simps [of hh "fuel - Suc 0" v ?s] case_prod_beta Let_def)
  finally show ?case .
next
  case (Cons g pre)
  have g: "p = g" "mem s (obj_at g) = 0"
    using Cons.prems by (auto simp: slab_ok_empty_iff)
  have nz: "mem s (other_slabs_at g) \<noteq> 0"
    using Cons.prems(1) by (cases pre) auto
  have "slab_header_alloc hh fuel p s =
      slab_header_alloc hh (fuel - 1) (mem s (other_slabs_at g)) s"
    using Cons.prems g nz by (simp add: slab_header_alloc.simps [of hh fuel g s])
  also have "\<dots> = (let m = (mem s1)(other_slabs_at h := v)
      in Inr (fst (slab_take v m), s1\<lparr>mem := snd (slab_take v m)\<rparr>))"
    using Cons.prems by (intro Cons.IH) auto
  finally show ?case .
qed

lemma slab_chain_mono:
  "slab_chain m p hs \<Longrightarrow> (\<And>h. h \<in> set hs \<Longrightarrow> m' (other_slabs_at h) = m (other_slabs_at h)) \<Longrightarrow>
     slab_chain m' p hs"
  by (induction hs arbitrary: p) auto

lemma slab_chain_snoc:
  "slab_chain m p (hs @ [h]) \<Longrightarrow>
     (\<And>g. g \<in> set hs \<Longrightarrow> m' (other_slabs_at g) = m (other_slabs_at g)) \<Longrightarrow>
     m' (other_slabs_at h) = v \<Longrightarrow> v \<noteq> 0 \<Longrightarrow> m' (other_slabs_at v) = 0 \<Longrightarrow>
     slab_chain m' p (hs @ [h, v])"
  by (induction hs arbitrary: p) auto

lemma slab_ok_agree:
  assumes "slab_ok m sz h xs" "good_size sz" "agree_on {h} m m'"
  shows "slab_ok m' sz h xs"
proof -
  have h: "page_aligned h" and sub: "set xs \<subseteq> set (slab_objs sz h)"
    using assms(1) by (auto simp: slab_ok_def)
  have hdr: "m' a = m a" if "a \<in> hdr_cells h" for a
    using assms(3) hdr_cells_page [OF h that] by (simp add: agree_on_def)
  have obj: "m' x = m x" if "x \<in> set xs" for x
    using assms(3) slab_objs_page [OF h assms(2), of x] that sub by (auto simp: agree_on_def)
  have "obj_chain m' (m (obj_at h)) xs"
    using assms(1) obj by (auto simp: slab_ok_def intro: obj_chain_mono)
  then show ?thesis
    using assms(1) hdr by (simp add: slab_ok_def hdr_cells_def)
qed

text \<open>Taking an object from one slab of a cache.\<close>

lemma cache_take:
  assumes ok: "cache_ok m c hs F" and h: "h \<in> set hs" "F h \<noteq> []"
  shows "\<exists>x ys m'. slab_take h m = (x, m') \<and> cache_ok m' c hs (F(h := ys))
     \<and> x \<notin> cache_live c hs F \<and> cache_live c hs (F(h := ys)) = insert x (cache_live c hs F)
     \<and> agree_on (- set hs) m m' \<and> (\<forall>a\<in>obj_cells (sc_size c) x. m' a = 0)
     \<and> (\<forall>q\<in>cache_live c hs F. \<forall>a\<in>obj_cells (sc_size c) q. m' a = m a)"
proof -
  let ?sz = "sc_size c"
  have so: "slab_ok m ?sz g (F g)" if "g \<in> set hs" for g
    using ok that by (auto simp: cache_ok_def)
  have gs: "good_size ?sz"
    using ok by (simp add: cache_ok_def)
  have al: "page_aligned g" if "g \<in> set hs" for g
    using so [OF that] by (rule slab_ok_aligned)
  from slab_take_ok [OF so [OF h(1)] gs h(2)] obtain x ys m' where
    x: "slab_take h m = (x, m')" "x \<in> set (F h)" "slab_ok m' ?sz h ys" "set ys = set (F h) - {x}"
    "slab_frame ?sz h (set (F h)) m m'" "\<forall>a\<in>obj_cells ?sz x. m' a = 0"
    by blast
  have sub: "set (F h) \<subseteq> set (slab_objs ?sz h)"
    using so [OF h(1)] by (simp add: slab_ok_def)
  have xo: "x \<in> set (slab_objs ?sz h)"
    using x(2) sub by auto
  have agree: "agree_on (- {h}) m m'"
    by (rule slab_frame_page [OF al [OF h(1)] gs sub x(5)])
  have other: "m' (other_slabs_at g) = m (other_slabs_at g)" if "g \<in> set hs" for g
  proof (cases "g = h")
    case True
    with x(5) show ?thesis by (simp add: slab_frame_def)
  next
    case False
    with agree hdr_cells_page [OF al [OF that], of "other_slabs_at g"] show ?thesis
      by (simp add: agree_on_def hdr_cells_def)
  qed
  have "slab_ok m' ?sz g ((F(h := ys)) g)" if "g \<in> set hs" for g
    using x(3) so [OF that] slab_ok_agree [OF so [OF that] gs] agree by (auto intro: agree_on_mono)
  then have "cache_ok m' c hs (F(h := ys))"
    using ok other by (auto simp: cache_ok_def intro: slab_chain_mono)
  moreover have page: "g = h" if "g \<in> set hs" "x \<in> set (slab_objs ?sz g)" for g
    using slab_objs_page [OF al [OF that(1)] gs that(2)] slab_objs_page [OF al [OF h(1)] gs xo] by simp
  then have "x \<notin> cache_live c hs F"
    using x(2) by (auto simp: cache_live_def)
  moreover have "cache_live c hs (F(h := ys)) = insert x (cache_live c hs F)"
    using x(2,4) xo h(1) by (auto simp: cache_live_def)
  moreover have "agree_on (- set hs) m m'"
    using agree h(1) by (auto intro: agree_on_mono)
  moreover have "m' a = m a" if q: "q \<in> cache_live c hs F" and a: "a \<in> obj_cells ?sz q" for q a
  proof -
    from q obtain g where g: "g \<in> set hs" "q \<in> set (slab_objs ?sz g)" "q \<notin> set (F g)"
      by (auto simp: cache_live_def)
    show ?thesis
    proof (cases "g = h")
      case True
      with g slab_frame_live [OF al [OF h(1)] gs sub x(5)] a show ?thesis by blast
    next
      case False
      with agree obj_cells_page [OF al [OF g(1)] gs g(2) a] show ?thesis
        by (simp add: agree_on_def)
    qed
  qed
  ultimately show ?thesis
    using x(1,6) by blast
qed

lemma cache_ok_agree:
  assumes ok: "cache_ok m c hs F" and agree: "agree_on (set hs) m m'"
    and F: "\<And>h. h \<in> set hs \<Longrightarrow> F' h = F h"
  shows "cache_ok m' c hs F'"
proof -
  have "m' (other_slabs_at h) = m (other_slabs_at h)" if "h \<in> set hs" for h
  proof -
    have "page_aligned h"
      using ok that by (auto simp: cache_ok_def slab_ok_def)
    from hdr_cells_page [OF this, of "other_slabs_at h"] agree that show ?thesis
      by (auto simp: agree_on_def hdr_cells_def)
  qed
  moreover have "slab_ok m' (sc_size c) h (F' h)" if "h \<in> set hs" for h
  proof -
    have "agree_on {h} m m'"
      using agree that by (auto intro: agree_on_mono)
    with slab_ok_agree ok F that show ?thesis
      by (fastforce simp: cache_ok_def)
  qed
  ultimately show ?thesis
    using ok by (auto simp: cache_ok_def intro: slab_chain_mono)
qed

lemma cache_live_cong:
  "(\<And>h. h \<in> set hs \<Longrightarrow> F' h = F h) \<Longrightarrow> cache_live c hs F' = cache_live c hs F"
  by (auto simp: cache_live_def)

text \<open>A new slab at the end of the chain.\<close>

lemma cache_extend:
  assumes ok: "cache_ok (mem s) c hs F" and free: "pmm_free hh s (v # vs)" and v: "v \<notin> set hs"
    and hs: "hs = pre @ [h]" and init: "slab_header_init hh (sc_size c) s = Inr (v, s1)"
  defines "m1 \<equiv> (mem s1)(other_slabs_at h := v)"
  shows "cache_ok m1 c (hs @ [v]) (F(v := rev (slab_objs (sc_size c) v)))"
    and "cache_live c (hs @ [v]) (F(v := rev (slab_objs (sc_size c) v))) = cache_live c hs F"
    and "agree_on (- insert v (set hs)) (mem s) m1"
    and "q \<in> cache_live c hs F \<Longrightarrow> a \<in> obj_cells (sc_size c) q \<Longrightarrow> m1 a = mem s a"
proof -
  let ?sz = "sc_size c"
  have gs: "good_size ?sz" and so: "\<And>g. g \<in> set hs \<Longrightarrow> slab_ok (mem s) ?sz g (F g)"
    and ch: "slab_chain (mem s) (sc_slabs c) hs" and d: "distinct hs"
    using ok by (auto simp: cache_ok_def)
  have al: "page_aligned g" if "g \<in> set hs" for g
    using so [OF that] by (rule slab_ok_aligned)
  from slab_header_init_ok [OF free gs] init have
    i: "slab_ok (mem s1) ?sz v (rev (slab_objs ?sz v))" "mem s1 (other_slabs_at v) = 0"
    "agree_on (- {v}) (mem s) (mem s1)"
    by auto
  have v0: "v \<noteq> 0" and va: "page_aligned v"
    using pmm_free_valid [OF free, of v] by (auto simp: valid_frame_def)
  have hv: "page_of (other_slabs_at h) = h" "h \<noteq> v"
    using hdr_cells_page [OF al, of h "other_slabs_at h"] hs v by (auto simp: hdr_cells_def)
  have vv: "page_of (other_slabs_at v) = v"
    using hdr_cells_page [OF va, of "other_slabs_at v"] by (simp add: hdr_cells_def)
  have other: "m1 (other_slabs_at g) = mem s (other_slabs_at g)" if "g \<in> set pre" for g
  proof -
    have g: "page_of (other_slabs_at g) = g" "g \<noteq> v" "g \<noteq> h"
      using hdr_cells_page [OF al, of g "other_slabs_at g"] hs v d that
      by (auto simp: hdr_cells_def)
    then have "other_slabs_at g \<noteq> other_slabs_at h"
      using hv by metis
    with g i(3) show ?thesis
      by (simp add: m1_def agree_on_def)
  qed
  have "slab_chain m1 (sc_slabs c) (pre @ [h, v])"
  proof (rule slab_chain_snoc)
    show "slab_chain (mem s) (sc_slabs c) (pre @ [h])"
      using ch hs by simp
    show "m1 (other_slabs_at v) = 0"
      using i(2) hv vv by (auto simp: m1_def)
  qed (use other v0 in \<open>auto simp: m1_def\<close>)
  then have chain: "slab_chain m1 (sc_slabs c) (hs @ [v])"
    using hs by simp
  have keep: "slab_ok m1 ?sz g (F g)" if g: "g \<in> set hs" for g
  proof (cases "g = h")
    case False
    have "agree_on {g} (mem s) m1"
      using i(3) g v hv False by (auto simp: agree_on_def m1_def)
    from slab_ok_agree [OF so [OF g] gs this] show ?thesis .
  next
    case True
    have h: "slab_ok (mem s1) ?sz h (F h)"
      using slab_ok_agree [OF so [OF g] gs, of "mem s1"] i(3) hv(2) True
      by (fastforce simp: agree_on_def)
    note hd = hdr_distinct [OF al [OF g], unfolded True]
    have "x \<noteq> other_slabs_at h" if "x \<in> set (F h)" for x
      using hdr_not_obj_cells [OF al [OF g] gs, of x x] obj_in_cells [OF gs, of x] that h True
      by (auto simp: slab_ok_def hdr_cells_def)
    then have "obj_chain m1 (mem s1 (obj_at h)) (F h)"
      using h by (auto simp: slab_ok_def m1_def intro: obj_chain_mono)
    then show ?thesis
      using h hd True by (simp add: slab_ok_def m1_def)
  qed
  have new: "slab_ok m1 ?sz v (rev (slab_objs ?sz v))"
    by (rule slab_ok_agree [OF i(1) gs]) (use hv in \<open>auto simp: m1_def intro: agree_on_upd\<close>)
  show "cache_ok m1 c (hs @ [v]) (F(v := rev (slab_objs ?sz v)))"
    using gs d v chain new keep by (auto simp: cache_ok_def)
  show "cache_live c (hs @ [v]) (F(v := rev (slab_objs ?sz v))) = cache_live c hs F"
    using v by (auto simp: cache_live_def)
  show "agree_on (- insert v (set hs)) (mem s) m1"
    using i(3) hv hs by (auto simp: agree_on_def m1_def)
  show "m1 a = mem s a" if q: "q \<in> cache_live c hs F" and a: "a \<in> obj_cells ?sz q"
  proof -
    from q obtain g where g: "g \<in> set hs" "q \<in> set (slab_objs ?sz g)"
      by (auto simp: cache_live_def)
    have "page_of a = g"
      by (rule obj_cells_page [OF al [OF g(1)] gs g(2) a])
    moreover have "a \<noteq> other_slabs_at h"
    proof
      assume "a = other_slabs_at h"
      with \<open>page_of a = g\<close> hv have "g = h" by simp
      with hdr_not_obj_cells [OF al [OF g(1)] gs g(2)] a \<open>a = other_slabs_at h\<close> show False
        by (simp add: hdr_cells_def)
    qed
    ultimately show ?thesis
      using i(3) g(1) v by (auto simp: m1_def agree_on_def)
  qed
qed

text \<open>
  What an allocation from a cache does: it hands out an object that was not
  live, zeroed, and leaves all live objects alone. The slab pages and the free
  pages only move from one side to the other.
\<close>

definition cache_alloc_post ::
    "u64 \<Rightarrow> slabcache \<Rightarrow> u64 list \<Rightarrow> (u64 \<Rightarrow> u64 list) \<Rightarrow> u64 list \<Rightarrow> 'z pmm_state_scheme
      \<Rightarrow> u64 \<Rightarrow> u64 list \<Rightarrow> (u64 \<Rightarrow> u64 list) \<Rightarrow> u64 list \<Rightarrow> 'z pmm_state_scheme \<Rightarrow> bool" where
  "cache_alloc_post hh c hs F vs s x hs' F' vs' s' \<longleftrightarrow>
     cache_ok (mem s') c hs' F' \<and> pmm_free hh s' vs' \<and> set hs' \<inter> set vs' = {}
     \<and> set hs \<subseteq> set hs' \<and> set hs' \<union> set vs' = set hs \<union> set vs \<and> (vs' = vs \<or> vs' = tl vs)
     \<and> x \<notin> cache_live c hs F \<and> cache_live c hs' F' = insert x (cache_live c hs F)
     \<and> agree_on (- set hs') (mem s) (mem s') \<and> (\<forall>h. h \<notin> set hs' \<longrightarrow> F' h = F h)
     \<and> (\<forall>a\<in>obj_cells (sc_size c) x. mem s' a = 0)
     \<and> (\<forall>q\<in>cache_live c hs F. \<forall>a\<in>obj_cells (sc_size c) q. mem s' a = mem s a)
     \<and> pmm_state.more s' = pmm_state.more s"

lemma cache_ok_root:
  "cache_ok m c hs F \<Longrightarrow> slab_chain m (sc_slabs c) hs"
  "cache_ok m c hs F \<Longrightarrow> sc_slabs c \<noteq> 0"
  "cache_ok m c hs F \<Longrightarrow> distinct hs"
  by (auto simp: cache_ok_def neq_Nil_conv)

lemma pmm_free_upd_mem:
  "pmm_free hh s vs \<Longrightarrow> agree_on (set vs) (mem s) m \<Longrightarrow> pmm_free hh (s\<lparr>mem := m\<rparr>) vs"
  using pmm_free_frame [of hh s vs m] by (simp add: set_mem_def)

lemma slabcache_alloc_found:
  assumes ok: "cache_ok (mem s) c hs F" and free: "pmm_free hh s vs"
    and dis: "set hs \<inter> set vs = {}" and some: "\<exists>h\<in>set hs. F h \<noteq> []"
  shows "\<exists>x s' F'. slabcache_alloc hh c s = Inr (x, s')
     \<and> cache_alloc_post hh c hs F vs s x hs F' vs s'"
proof -
  let ?sz = "sc_size c"
  from split_list_first_prop [OF some] obtain pre h post where
    hs: "hs = pre @ h # post" "F h \<noteq> []" "\<forall>g\<in>set pre. F g = []"
    by auto
  have so: "slab_ok (mem s) ?sz g (F g)" if "g \<in> set hs" for g
    using ok that by (simp add: cache_ok_def)
  have ch: "slab_chain (mem s) (sc_slabs c) (pre @ h # post)" "sc_slabs c \<noteq> 0" "distinct hs"
    using cache_ok_root [OF ok] by (simp_all add: hs(1))
  have pre: "\<forall>g\<in>set pre. slab_ok (mem s) ?sz g []"
    using so hs by fastforce
  have fuel: "length pre < slab_fuel"
    using slab_chain_fuel [OF ch(3)] hs(1) by simp
  have hin: "h \<in> set hs" using hs(1) by simp
  from cache_take [OF ok hin hs(2)] obtain x ys m' where
    t: "slab_take h (mem s) = (x, m')" "cache_ok m' c hs (F(h := ys))" "x \<notin> cache_live c hs F"
    "cache_live c hs (F(h := ys)) = insert x (cache_live c hs F)" "agree_on (- set hs) (mem s) m'"
    "\<forall>a\<in>obj_cells ?sz x. m' a = 0" "\<forall>q\<in>cache_live c hs F. \<forall>a\<in>obj_cells ?sz q. m' a = mem s a"
    by (elim exE conjE)
  have "slabcache_alloc hh c s = Inr (x, s\<lparr>mem := m'\<rparr>)"
    using slab_header_alloc_found [OF ch(1) pre so [OF hin] hs(2) fuel] ch(2) t(1)
    by (simp add: slabcache_alloc_def)
  moreover have "pmm_free hh (s\<lparr>mem := m'\<rparr>) vs"
    using free by (rule pmm_free_upd_mem) (use t(5) dis in \<open>auto intro: agree_on_mono\<close>)
  ultimately show ?thesis
    using t dis hin by (intro exI [of _ x] exI [of _ "s\<lparr>mem := m'\<rparr>"] exI [of _ "F(h := ys)"])
      (auto simp: cache_alloc_post_def)
qed

lemma slabcache_alloc_refill:
  assumes ok: "cache_ok (mem s) c hs F" and free: "pmm_free hh s (v # vs)"
    and dis: "set hs \<inter> set (v # vs) = {}" and full: "\<forall>h\<in>set hs. F h = []"
  shows "\<exists>x s' F'. slabcache_alloc hh c s = Inr (x, s')
     \<and> cache_alloc_post hh c hs F (v # vs) s x (hs @ [v]) F' vs s'"
proof -
  let ?sz = "sc_size c" and ?F = "F(v := rev (slab_objs (sc_size c) v))"
  have gs: "good_size ?sz"
    using ok by (simp add: cache_ok_def)
  obtain pre h where hs: "hs = pre @ [h]"
    using ok by (cases hs rule: rev_cases) (auto simp: cache_ok_def)
  have ch: "slab_chain (mem s) (sc_slabs c) (pre @ [h])" "sc_slabs c \<noteq> 0" "distinct hs"
    using cache_ok_root [OF ok] by (simp_all add: hs)
  have so: "\<forall>g\<in>set (pre @ [h]). slab_ok (mem s) ?sz g []"
    using ok hs full by (auto simp: cache_ok_def)
  have v: "page_aligned v" "v \<noteq> 0" "v \<notin> set hs"
    using pmm_free_valid [OF free, of v] dis by (auto simp: valid_frame_def)
  from slab_header_init_ok [OF free gs] obtain s1 where
    s1: "slab_header_init hh ?sz s = Inr (v, s1)" "pmm_free hh s1 vs"
    "slab_ok (mem s1) ?sz v (rev (slab_objs ?sz v))" "pmm_state.more s1 = pmm_state.more s"
    "agree_on (- {v}) (mem s) (mem s1)"
    by blast
  define m1 where "m1 = (mem s1)(other_slabs_at h := v)"
  have ne: "rev (slab_objs ?sz v) \<noteq> []"
    using slab_count_pos [OF gs] by (simp add: slab_objs_def)
  note ext = cache_extend [OF ok free v(3) hs s1(1), folded m1_def]
  have vin: "v \<in> set (hs @ [v])" "?F v \<noteq> []"
    using ne by simp_all
  from cache_take [OF ext(1) vin] obtain x ys m' where
    t: "slab_take v m1 = (x, m')" "cache_ok m' c (hs @ [v]) (?F(v := ys))"
    "x \<notin> cache_live c (hs @ [v]) ?F"
    "cache_live c (hs @ [v]) (?F(v := ys)) = insert x (cache_live c (hs @ [v]) ?F)"
    "agree_on (- set (hs @ [v])) m1 m'" "\<forall>a\<in>obj_cells ?sz x. m' a = 0"
    "\<forall>q\<in>cache_live c (hs @ [v]) ?F. \<forall>a\<in>obj_cells ?sz q. m' a = m1 a"
    by (elim exE conjE)
  have nz: "mem s1 (obj_at v) \<noteq> 0"
    using slab_ok_empty_iff [OF s1(3)] ne by simp
  have "page_of (obj_at v) = v" "page_of (other_slabs_at h) = h"
    using hdr_cells_page [OF v(1), of "obj_at v"] hdr_cells_page [of h "other_slabs_at h"] so
    by (auto simp: hdr_cells_def slab_ok_aligned)
  then have sep: "obj_at v \<noteq> other_slabs_at h"
    using v(3) hs by fastforce
  have fuel: "length pre + 1 < slab_fuel"
    using slab_chain_fuel [OF ch(3)] hs by simp
  have call: "slabcache_alloc hh c s = Inr (x, s1\<lparr>mem := m'\<rparr>)"
    using slab_header_alloc_refill [OF ch(1) so s1(1) v(2) nz sep fuel] ch(2) t(1)
    by (simp add: slabcache_alloc_def m1_def Let_def)
  have d: "v \<notin> set vs" "set hs \<inter> set vs = {}"
    using pmm_free_distinct [OF free] dis by auto
  have "agree_on (- set (hs @ [v])) (mem s1) m1"
    using \<open>page_of (other_slabs_at h) = h\<close> hs by (auto simp: m1_def agree_on_def)
  then have "agree_on (- set (hs @ [v])) (mem s1) m'"
    using t(5) by (rule agree_on_trans)
  then have "agree_on (set vs) (mem s1) m'"
    by (rule agree_on_mono) (use d in auto)
  with s1(2) have free': "pmm_free hh (s1\<lparr>mem := m'\<rparr>) vs"
    by (rule pmm_free_upd_mem)
  have agree: "agree_on (- set (hs @ [v])) (mem s) m'"
    using ext(3) t(5) by (auto simp: agree_on_def)
  have keep: "m' a = mem s a" if "q \<in> cache_live c hs F" "a \<in> obj_cells ?sz q" for q a
    using t(7) ext(2) ext(4) [OF that] that by auto
  have "cache_alloc_post hh c hs F (v # vs) s x (hs @ [v]) (?F(v := ys)) vs (s1\<lparr>mem := m'\<rparr>)"
    unfolding cache_alloc_post_def using t(2,3,4,6) free' d agree keep s1(4) ext(2) by auto
  with call show ?thesis by blast
qed

lemma slabcache_alloc_ok:
  assumes ok: "cache_ok (mem s) c hs F" and free: "pmm_free hh s vs"
    and dis: "set hs \<inter> set vs = {}" and some: "(\<exists>h\<in>set hs. F h \<noteq> []) \<or> vs \<noteq> []"
  shows "\<exists>x s' hs' F' vs'. slabcache_alloc hh c s = Inr (x, s')
     \<and> cache_alloc_post hh c hs F vs s x hs' F' vs' s'"
proof (cases "\<exists>h\<in>set hs. F h \<noteq> []")
  case True
  from slabcache_alloc_found [OF ok free dis True] show ?thesis by blast
next
  case False
  with some obtain v ws where vs: "vs = v # ws"
    by (cases vs) auto
  from slabcache_alloc_refill [OF ok free [unfolded vs] dis [unfolded vs]] False vs show ?thesis
    by blast
qed

lemma cache_put:
  assumes ok: "cache_ok (mem s) c hs F" and x: "x \<in> cache_live c hs F"
  shows "\<exists>m'. slab_dealloc x s = s\<lparr>mem := m'\<rparr> \<and> page_of x \<in> set hs
     \<and> cache_ok m' c hs (F(page_of x := x # F (page_of x)))
     \<and> cache_live c hs (F(page_of x := x # F (page_of x))) = cache_live c hs F - {x}
     \<and> agree_on (- set hs) (mem s) m'
     \<and> (\<forall>q\<in>cache_live c hs F - {x}. \<forall>a\<in>obj_cells (sc_size c) q. m' a = mem s a)"
proof -
  let ?sz = "sc_size c"
  have gs: "good_size ?sz" and so: "\<And>g. g \<in> set hs \<Longrightarrow> slab_ok (mem s) ?sz g (F g)"
    and ch: "slab_chain (mem s) (sc_slabs c) hs"
    using ok by (auto simp: cache_ok_def)
  have al: "page_aligned g" if "g \<in> set hs" for g
    using so [OF that] by (rule slab_ok_aligned)
  from x obtain h where h: "h \<in> set hs" "x \<in> set (slab_objs ?sz h)" "x \<notin> set (F h)"
    by (auto simp: cache_live_def)
  have px: "page_of x = h"
    by (rule slab_objs_page [OF al [OF h(1)] gs h(2)])
  from slab_dealloc_ok [OF so [OF h(1)] gs h(2,3)] obtain m' where
    m': "slab_dealloc x s = s\<lparr>mem := m'\<rparr>" "slab_ok m' ?sz h (x # F h)" "slab_frame ?sz h {x} (mem s) m'"
    by blast
  have ag: "agree_on (- {h}) (mem s) m'"
    by (rule slab_frame_page [OF al [OF h(1)] gs _ m'(3)]) (use h in auto)
  have link: "m' (other_slabs_at g) = mem s (other_slabs_at g)" if "g \<in> set hs" for g
  proof (cases "g = h")
    case True
    with m'(3) show ?thesis by (simp add: slab_frame_def)
  next
    case False
    with ag hdr_cells_page [OF al [OF that], of "other_slabs_at g"] show ?thesis
      by (simp add: agree_on_def hdr_cells_def)
  qed
  have others: "slab_ok m' ?sz g (F g)" if "g \<in> set hs" "g \<noteq> h" for g
    by (rule slab_ok_agree [OF so [OF that(1)] gs]) (use ag that in \<open>auto intro: agree_on_mono\<close>)
  have c': "cache_ok m' c hs (F(h := x # F h))"
    using ok m'(2) others link by (auto simp: cache_ok_def intro: slab_chain_mono)
  have uniq: "g = h" if "g \<in> set hs" "x \<in> set (slab_objs ?sz g)" for g
    using slab_objs_page [OF al [OF that(1)] gs that(2)] px by simp
  have l': "cache_live c hs (F(h := x # F h)) = cache_live c hs F - {x}"
  proof (intro set_eqI iffI)
    fix y
    assume "y \<in> cache_live c hs F - {x}"
    then obtain g where "g \<in> set hs" "y \<in> set (slab_objs ?sz g)" "y \<notin> set (F g)" "y \<noteq> x"
      by (auto simp: cache_live_def)
    then have "g \<in> set hs \<and> y \<in> set (slab_objs ?sz g) - set ((F(h := x # F h)) g)"
      by auto
    then show "y \<in> cache_live c hs (F(h := x # F h))"
      unfolding cache_live_def by blast
  qed (use uniq in \<open>auto simp: cache_live_def split: if_splits\<close>)
  have keep: "m' a = mem s a" if q: "q \<in> cache_live c hs F - {x}" and a: "a \<in> obj_cells ?sz q" for q a
  proof -
    from q obtain g where g: "g \<in> set hs" "q \<in> set (slab_objs ?sz g)" "q \<noteq> x"
      by (auto simp: cache_live_def)
    show ?thesis
    proof (cases "g = h")
      case True
      with slab_frame_live [OF al [OF h(1)] gs _ m'(3), of q a] h(2) g a show ?thesis by auto
    next
      case False
      with ag obj_cells_page [OF al [OF g(1)] gs g(2) a] show ?thesis
        by (simp add: agree_on_def)
    qed
  qed
  have "agree_on (- set hs) (mem s) m'"
    using ag h(1) by (auto intro: agree_on_mono)
  with m'(1) c' l' keep px h(1) show ?thesis by blast
qed

section \<open>The seven caches\<close>

text \<open>
  \<open>HS ! i\<close> lists the slab pages of cache \<open>i\<close>, \<open>F\<close> the free objects of each slab
  and \<open>vs\<close> the pages left in the page allocator.
\<close>

definition slab_inv ::
    "u64 \<Rightarrow> 'z slab_state_scheme \<Rightarrow> u64 list \<Rightarrow> u64 list list \<Rightarrow> (u64 \<Rightarrow> u64 list) \<Rightarrow> bool" where
  "slab_inv hh s vs HS F \<longleftrightarrow>
     pmm_free hh s vs \<and> length HS = 7 \<and> map sc_size (slab_caches s) = slab_sizes
     \<and> (\<forall>i<7. cache_ok (mem s) (slab_caches s ! i) (HS ! i) F \<and> set (HS ! i) \<inter> set vs = {})
     \<and> (\<forall>i<7. \<forall>j<7. i \<noteq> j \<longrightarrow> set (HS ! i) \<inter> set (HS ! j) = {})"

text \<open>The objects handed out and not returned, with their sizes.\<close>

definition slab_objects ::
    "'z slab_state_scheme \<Rightarrow> u64 list list \<Rightarrow> (u64 \<Rightarrow> u64 list) \<Rightarrow> (u64 \<times> usize) set" where
  "slab_objects s HS F =
     {(x, z). \<exists>i<7. x \<in> cache_live (slab_caches s ! i) (HS ! i) F \<and> z = sc_size (slab_caches s ! i)}"

definition slab_pages :: "u64 list \<Rightarrow> u64 list list \<Rightarrow> u64 set" where
  "slab_pages vs HS = set vs \<union> set (concat HS)"

lemma slab_caches_more:
  "pmm_state.more (s' :: 'z slab_state_scheme) = pmm_state.more (s :: 'z slab_state_scheme) \<Longrightarrow>
     slab_caches s' = slab_caches s"
  by (cases s, cases s') simp

lemma slab_inv_length: "slab_inv hh s vs HS F \<Longrightarrow> length (slab_caches s) = 7"
  by (auto simp: slab_inv_def slab_sizes_def dest: arg_cong [where f = length])

lemma slab_live_page:
  assumes "cache_ok m c hs F" "q \<in> cache_live c hs F" "a \<in> obj_cells (sc_size c) q"
  shows "page_of a \<in> set hs"
proof -
  from assms(2) obtain h where "h \<in> set hs" "q \<in> set (slab_objs (sc_size c) h)"
    by (auto simp: cache_live_def)
  with assms obj_cells_page [of h "sc_size c" q a] show ?thesis
    by (auto simp: cache_ok_def slab_ok_def)
qed

lemma slab_objects_upd:
  assumes "length HS = 7" "i < 7" "slab_caches s' = slab_caches s"
    and "\<And>j h. j < 7 \<Longrightarrow> j \<noteq> i \<Longrightarrow> h \<in> set (HS ! j) \<Longrightarrow> F' h = F h"
  shows "(q, z) \<in> slab_objects s' (HS[i := hs']) F' \<longleftrightarrow>
     (q \<in> cache_live (slab_caches s ! i) hs' F' \<and> z = sc_size (slab_caches s ! i))
     \<or> (\<exists>j<7. j \<noteq> i \<and> q \<in> cache_live (slab_caches s ! j) (HS ! j) F \<and> z = sc_size (slab_caches s ! j))"
proof -
  have "cache_live (slab_caches s ! j) (HS[i := hs'] ! j) F' =
      (if j = i then cache_live (slab_caches s ! i) hs' F' else cache_live (slab_caches s ! j) (HS ! j) F)"
    if "j < 7" for j
    using assms(1,2,4) that cache_live_cong [of "HS ! j" F' F "slab_caches s ! j"] by simp
  then show ?thesis
    using assms(2) by (simp add: slab_objects_def assms(3) cong: conj_cong)
      (auto split: if_splits)
qed

lemma slab_objects_at:
  assumes "i < 7"
  shows "(q, z) \<in> slab_objects s HS F \<longleftrightarrow>
     (q \<in> cache_live (slab_caches s ! i) (HS ! i) F \<and> z = sc_size (slab_caches s ! i))
     \<or> (\<exists>j<7. j \<noteq> i \<and> q \<in> cache_live (slab_caches s ! j) (HS ! j) F \<and> z = sc_size (slab_caches s ! j))"
  using assms by (auto simp: slab_objects_def)

text \<open>A change of cache \<open>i\<close> that takes its new pages from the page allocator.\<close>

lemma slab_inv_upd:
  assumes inv: "slab_inv hh s vs HS F" and i: "i < 7" and ok: "cache_ok (mem s') (slab_caches s ! i) hs' F'"
    and free: "pmm_free hh s' vs'" and pages: "set hs' \<inter> set vs' = {}" "set hs' \<subseteq> set (HS ! i) \<union> set vs"
      "set vs' \<subseteq> set vs"
    and frame: "agree_on (- set hs') (mem s) (mem s')" "\<forall>h. h \<notin> set hs' \<longrightarrow> F' h = F h"
    and more: "pmm_state.more s' = pmm_state.more s"
  shows "slab_inv hh s' vs' (HS[i := hs']) F'"
    and "j < 7 \<Longrightarrow> j \<noteq> i \<Longrightarrow> set (HS ! j) \<inter> set hs' = {}"
proof -
  have dis: "set (HS ! j) \<inter> set hs' = {}" if "j < 7" "j \<noteq> i" for j
    using inv pages(2) i that unfolding slab_inv_def by blast
  then show "j < 7 \<Longrightarrow> j \<noteq> i \<Longrightarrow> set (HS ! j) \<inter> set hs' = {}" .
  have "cache_ok (mem s') (slab_caches s ! j) (HS ! j) F'" if "j < 7" "j \<noteq> i" for j
  proof (rule cache_ok_agree)
    show "cache_ok (mem s) (slab_caches s ! j) (HS ! j) F"
      using inv that by (simp add: slab_inv_def)
    show "agree_on (set (HS ! j)) (mem s) (mem s')"
      by (rule agree_on_mono [OF frame(1)]) (use dis [OF that] in auto)
    show "F' h = F h" if "h \<in> set (HS ! j)" for h
      using frame(2) dis [OF \<open>j < 7\<close> \<open>j \<noteq> i\<close>] that by blast
  qed
  then have caches: "cache_ok (mem s') (slab_caches s ! j) (HS[i := hs'] ! j) F'" if "j < 7" for j
    using that ok inv by (cases "j = i") (auto simp: slab_inv_def)
  have d1: "set (HS[i := hs'] ! j) \<inter> set vs' = {}" if "j < 7" for j
  proof (cases "j = i")
    case True
    with pages(1) i inv show ?thesis by (simp add: slab_inv_def)
  next
    case False
    have "set (HS ! j) \<inter> set vs = {}"
      using inv that by (simp add: slab_inv_def)
    with pages(3) False show ?thesis by auto
  qed
  have "set (HS[i := hs'] ! j) \<inter> set (HS[i := hs'] ! k) = {}" if "j < 7" "k < 7" "j \<noteq> k" for j k
    using that dis [of j] dis [of k] inv i
    by (cases "j = i"; cases "k = i") (auto simp: slab_inv_def)
  then show "slab_inv hh s' vs' (HS[i := hs']) F'"
    using inv free caches d1 by (auto simp: slab_inv_def slab_caches_more [OF more])
qed

lemma slab_alloc_from_first:
  assumes "\<exists>c\<in>set cs. sz \<le> sc_size c"
  shows "\<exists>i<length cs. sz \<le> sc_size (cs ! i) \<and> (\<forall>j<i. sc_size (cs ! j) < sz)
     \<and> slab_alloc_from hh cs sz s = and_then (slabcache_alloc hh (cs ! i) s) (\<lambda>(x, s1). Inr (Inr x, s1))"
  using assms
proof (induction cs)
  case (Cons c cs)
  show ?case
  proof (cases "sc_size c < sz")
    case True
    with Cons obtain i where i: "i < length cs" "sz \<le> sc_size (cs ! i)" "\<forall>j<i. sc_size (cs ! j) < sz"
      "slab_alloc_from hh cs sz s = and_then (slabcache_alloc hh (cs ! i) s) (\<lambda>(x, s1). Inr (Inr x, s1))"
      by (auto simp: not_less [symmetric])
    then show ?thesis
      using True by (intro exI [of _ "Suc i"]) (auto simp: less_Suc_eq_0_disj)
  next
    case False
    then show ?thesis by (intro exI [of _ 0]) auto
  qed
qed simp

lemma slab_sizes_nth:
  "slab_inv hh s vs HS F \<Longrightarrow> i < 7 \<Longrightarrow> sc_size (slab_caches s ! i) = slab_sizes ! i"
  using slab_inv_length [of hh s vs HS F] nth_map [of i "slab_caches s" sc_size]
  by (simp add: slab_inv_def)

lemma slab_inv_select:
  assumes inv: "slab_inv hh s vs HS F" and sz: "sz \<le> 1024"
  shows "\<exists>i<7. sz \<le> slab_sizes ! i \<and> (\<forall>j<i. slab_sizes ! j < sz)
     \<and> slab_alloc hh sz s
        = and_then (slabcache_alloc hh (slab_caches s ! i) s) (\<lambda>(x, s1). Inr (Inr x, s1))"
proof -
  note len = slab_inv_length [OF inv]
  have six: "sc_size (slab_caches s ! 6) = 1024"
    using slab_sizes_nth [OF inv, of 6] by (simp add: slab_sizes_def)
  have "slab_caches s ! 6 \<in> set (slab_caches s)"
    using len by simp
  with six sz have "\<exists>c\<in>set (slab_caches s). sz \<le> sc_size c"
    by (metis (mono_tags))
  from slab_alloc_from_first [OF this] obtain i where
    i: "i < length (slab_caches s)" "sz \<le> sc_size (slab_caches s ! i)" "\<forall>j<i. sc_size (slab_caches s ! j) < sz"
      "slab_alloc_from hh (slab_caches s) sz s
        = and_then (slabcache_alloc hh (slab_caches s ! i) s) (\<lambda>(x, s1). Inr (Inr x, s1))"
    by blast
  have "\<not> 0x8000000000000000 < sz"
    using sz by (simp add: word_less_nat_alt word_le_nat_alt)
  then have "slab_alloc hh sz s = slab_alloc_from hh (slab_caches s) sz s"
    using len by (simp add: slab_alloc_def)
  with i len slab_sizes_nth [OF inv] show ?thesis
    by (intro exI [of _ i]) auto
qed

lemma length_slab_sizes [simp]: "length slab_sizes = 7"
  by (simp add: slab_sizes_def)

lemma slab_sizes_least:
  assumes i: "i < 7" "\<forall>j<i. slab_sizes ! j < sz" and w: "w \<in> set slab_sizes" "sz \<le> w"
  shows "slab_sizes ! i \<le> w"
proof -
  from w(1) obtain k where k: "k < 7" "w = slab_sizes ! k"
    by (auto simp: in_set_conv_nth)
  with i(2) w(2) have "i \<le> k"
    by (metis leD not_le)
  moreover have "sorted slab_sizes"
    by (simp add: slab_sizes_def)
  ultimately show ?thesis
    using k by (simp add: sorted_nth_mono)
qed

lemma slab_keep:
  assumes inv: "slab_inv hh s vs HS F" and i: "i < 7" and ag: "agree_on (- set hs') (mem s) m'"
    and dis: "\<And>j. j < 7 \<Longrightarrow> j \<noteq> i \<Longrightarrow> set (HS ! j) \<inter> set hs' = {}"
    and own: "q \<in> cache_live (slab_caches s ! i) (HS ! i) F \<Longrightarrow> w = sc_size (slab_caches s ! i) \<Longrightarrow>
      a \<in> obj_cells w q \<Longrightarrow> m' a = mem s a"
    and q: "(q, w) \<in> slab_objects s HS F" "a \<in> obj_cells w q"
  shows "m' a = mem s a"
proof -
  from q(1) consider "q \<in> cache_live (slab_caches s ! i) (HS ! i) F" "w = sc_size (slab_caches s ! i)"
    | j where "j < 7" "j \<noteq> i" "q \<in> cache_live (slab_caches s ! j) (HS ! j) F" "w = sc_size (slab_caches s ! j)"
    by (auto simp: slab_objects_at [OF i])
  then show ?thesis
  proof cases
    case 1
    with own q(2) show ?thesis by blast
  next
    case (2 j)
    have "cache_ok (mem s) (slab_caches s ! j) (HS ! j) F"
      using inv 2(1) by (simp add: slab_inv_def)
    from slab_live_page [OF this 2(3)] q(2) 2(4) dis [OF 2(1,2)] have "page_of a \<notin> set hs'"
      by auto
    with ag show ?thesis by (simp add: agree_on_def)
  qed
qed

lemma set_concat_nth: "length xss = n \<Longrightarrow> set (concat xss) = (\<Union>j\<in>{..<n}. set (xss ! j))"
  by (auto simp: set_conv_nth [of xss])

lemma slab_pages_upd:
  assumes "length HS = 7" "i < 7" "set hs' \<union> set vs' = set (HS ! i) \<union> set vs"
  shows "slab_pages vs' (HS[i := hs']) = slab_pages vs HS"
proof -
  have "set (concat HS) = set (HS ! i) \<union> (\<Union>j\<in>{..<7} - {i}. set (HS ! j))"
    "set (concat (HS[i := hs'])) = set hs' \<union> (\<Union>j\<in>{..<7} - {i}. set (HS ! j))"
    using assms(1,2) set_concat_nth [of HS 7] set_concat_nth [of "HS[i := hs']" 7]
    by (auto simp: nth_list_update split: if_splits)
  then show ?thesis
    unfolding slab_pages_def using assms(3) by (simp only: Un_assoc [symmetric] Un_commute [of "set vs'"]
      Un_commute [of "set vs"])
qed

text \<open>
  The bookkeeping behind an allocation and a release, over the ghost state
  \<open>(vs, HS, F)\<close>.
\<close>

lemma slab_alloc_ok:
  assumes inv: "slab_inv hh s vs HS F" and sz: "sz \<le> 1024" and room: "vs \<noteq> []"
  shows "\<exists>x z s' vs' HS' F'. slab_alloc hh sz s = Inr (Inr x, s')
     \<and> slab_inv hh s' vs' HS' F' \<and> (x, z) \<notin> slab_objects s HS F
     \<and> slab_objects s' HS' F' = insert (x, z) (slab_objects s HS F)
     \<and> z \<in> set slab_sizes \<and> sz \<le> z \<and> (\<forall>w\<in>set slab_sizes. sz \<le> w \<longrightarrow> z \<le> w)
     \<and> (\<forall>a\<in>obj_cells z x. mem s' a = 0)
     \<and> (\<forall>(q, w)\<in>slab_objects s HS F. \<forall>a\<in>obj_cells w q. mem s' a = mem s a)
     \<and> agree_on (- slab_pages vs HS) (mem s) (mem s') \<and> slab_pages vs' HS' = slab_pages vs HS
     \<and> (vs' = vs \<or> vs' = tl vs) \<and> pmm_state.more s' = pmm_state.more s"
proof -
  from slab_inv_select [OF inv sz] obtain i where
    i: "i < 7" "sz \<le> slab_sizes ! i" "\<forall>j<i. slab_sizes ! j < sz"
      "slab_alloc hh sz s
        = and_then (slabcache_alloc hh (slab_caches s ! i) s) (\<lambda>(x, s1). Inr (Inr x, s1))"
    by blast
  let ?c = "slab_caches s ! i"
  have z: "sc_size ?c = slab_sizes ! i"
    by (rule slab_sizes_nth [OF inv i(1)])
  have free: "pmm_free hh s vs" and cs: "\<And>j. j < 7 \<Longrightarrow> cache_ok (mem s) (slab_caches s ! j) (HS ! j) F"
    and dis: "set (HS ! i) \<inter> set vs = {}" and len: "length HS = 7"
    using inv i(1) by (auto simp: slab_inv_def)
  from slabcache_alloc_ok [OF cs [OF i(1)] free dis] room obtain x s' hs' F' vs' where
    call: "slabcache_alloc hh ?c s = Inr (x, s')"
    and post: "cache_alloc_post hh ?c (HS ! i) F vs s x hs' F' vs' s'"
    by blast
  have p: "cache_ok (mem s') ?c hs' F'" "pmm_free hh s' vs'" "set hs' \<inter> set vs' = {}"
    "set (HS ! i) \<subseteq> set hs'" "set hs' \<union> set vs' = set (HS ! i) \<union> set vs" "vs' = vs \<or> vs' = tl vs"
    "x \<notin> cache_live ?c (HS ! i) F" "cache_live ?c hs' F' = insert x (cache_live ?c (HS ! i) F)"
    "agree_on (- set hs') (mem s) (mem s')" "\<forall>h. h \<notin> set hs' \<longrightarrow> F' h = F h"
    "\<forall>a\<in>obj_cells (sc_size ?c) x. mem s' a = 0"
    "\<forall>q\<in>cache_live ?c (HS ! i) F. \<forall>a\<in>obj_cells (sc_size ?c) q. mem s' a = mem s a"
    "pmm_state.more s' = pmm_state.more s"
    using post by (auto simp: cache_alloc_post_def)
  have sub: "set hs' \<subseteq> set (HS ! i) \<union> set vs" "set vs' \<subseteq> set vs"
    using p(5,6) by (cases vs; auto)+
  note upd = slab_inv_upd [OF inv i(1) p(1,2,3) sub p(9,10) p(13)]
  have F': "F' h = F h" if "j < 7" "j \<noteq> i" "h \<in> set (HS ! j)" for j h
    using p(10) upd(2) that by blast
  note objs = slab_objects_upd [where hs' = hs', OF len i(1) slab_caches_more [OF p(13)] F']
  have live: "slab_objects s' (HS[i := hs']) F' = insert (x, sc_size ?c) (slab_objects s HS F)"
    by (rule set_eqI) (auto simp: objs slab_objects_at [OF i(1), of _ _ s HS F] p(8))
  have xpage: "page_of x \<in> set hs'"
    using slab_live_page [OF p(1), of x x] p(1,8) by (auto simp: cache_ok_def obj_in_cells)
  have fresh: "(x, sc_size ?c) \<notin> slab_objects s HS F"
  proof
    assume "(x, sc_size ?c) \<in> slab_objects s HS F"
    with p(7) obtain j where j: "j < 7" "j \<noteq> i" "x \<in> cache_live (slab_caches s ! j) (HS ! j) F"
      by (auto simp: slab_objects_at [OF i(1)])
    then have "page_of x \<in> set (HS ! j)"
      using slab_live_page [OF cs [OF j(1)], of x x] cs [OF j(1)] by (auto simp: cache_ok_def obj_in_cells)
    with xpage upd(2) [OF j(1,2)] show False by auto
  qed
  have keep: "mem s' a = mem s a" if "(q, w) \<in> slab_objects s HS F" "a \<in> obj_cells w q" for q w a
    by (rule slab_keep [OF inv i(1) p(9) upd(2) _ that]) (use p(12) in auto)
  note pages = slab_pages_upd [OF len i(1) p(5)]
  have zin: "slab_sizes ! i \<in> set slab_sizes"
    using i(1) by simp
  have i': "HS ! i \<in> set HS"
    using i(1) len by simp
  have "agree_on (- slab_pages vs HS) (mem s) (mem s')"
    by (rule agree_on_mono [OF p(9)]) (use sub(1) i' in \<open>auto simp: slab_pages_def\<close>)
  moreover have "slab_alloc hh sz s = Inr (Inr x, s')"
    using i(4) call by simp
  moreover have "slab_sizes ! i \<le> w" if "w \<in> set slab_sizes" "sz \<le> w" for w
    using slab_sizes_least [OF i(1,3) that] .
  ultimately have "slab_alloc hh sz s = Inr (Inr x, s')
     \<and> slab_inv hh s' vs' (HS[i := hs']) F' \<and> (x, slab_sizes ! i) \<notin> slab_objects s HS F
     \<and> slab_objects s' (HS[i := hs']) F' = insert (x, slab_sizes ! i) (slab_objects s HS F)
     \<and> slab_sizes ! i \<in> set slab_sizes \<and> sz \<le> slab_sizes ! i
     \<and> (\<forall>w\<in>set slab_sizes. sz \<le> w \<longrightarrow> slab_sizes ! i \<le> w)
     \<and> (\<forall>a\<in>obj_cells (slab_sizes ! i) x. mem s' a = 0)
     \<and> (\<forall>(q, w)\<in>slab_objects s HS F. \<forall>a\<in>obj_cells w q. mem s' a = mem s a)
     \<and> agree_on (- slab_pages vs HS) (mem s) (mem s') \<and> slab_pages vs' (HS[i := hs']) = slab_pages vs HS
     \<and> (vs' = vs \<or> vs' = tl vs) \<and> pmm_state.more s' = pmm_state.more s"
    using upd(1) live fresh keep pages p(6,11,13) i(2) zin unfolding z by blast
  then show ?thesis
    by (intro exI)
qed

lemma slab_objects_cache:
  assumes inv: "slab_inv hh s vs HS F" and x: "(x, z) \<in> slab_objects s HS F"
  shows "\<exists>i<7. x \<in> cache_live (slab_caches s ! i) (HS ! i) F \<and> z = slab_sizes ! i
     \<and> page_of x \<in> set (HS ! i) \<and> good_size z"
proof -
  from x obtain i where i: "i < 7" "x \<in> cache_live (slab_caches s ! i) (HS ! i) F"
    "z = sc_size (slab_caches s ! i)"
    by (auto simp: slab_objects_def)
  have "cache_ok (mem s) (slab_caches s ! i) (HS ! i) F"
    using inv i(1) by (simp add: slab_inv_def)
  with i slab_live_page [OF this i(2), of x] slab_sizes_nth [OF inv i(1)] show ?thesis
    by (intro exI [of _ i]) (auto simp: cache_ok_def obj_in_cells)
qed

lemma slab_release_ok:
  assumes inv: "slab_inv hh s vs HS F" and x: "(x, z) \<in> slab_objects s HS F"
  shows "\<exists>F'. slab_inv hh (slab_dealloc x s) vs HS F'
     \<and> slab_objects (slab_dealloc x s) HS F' = slab_objects s HS F - {(x, z)}
     \<and> (\<forall>(q, w)\<in>slab_objects s HS F - {(x, z)}. \<forall>a\<in>obj_cells w q. mem (slab_dealloc x s) a = mem s a)
     \<and> agree_on (- slab_pages vs HS) (mem s) (mem (slab_dealloc x s))
     \<and> pmm_state.more (slab_dealloc x s) = pmm_state.more s"
proof -
  from slab_objects_cache [OF inv x] obtain i where
    i: "i < 7" "x \<in> cache_live (slab_caches s ! i) (HS ! i) F" "z = slab_sizes ! i" "page_of x \<in> set (HS ! i)"
    by blast
  let ?c = "slab_caches s ! i"
  define G where "G = F(page_of x := x # F (page_of x))"
  have z: "z = sc_size ?c"
    using slab_sizes_nth [OF inv i(1)] i(3) by simp
  have free: "pmm_free hh s vs" and ok: "cache_ok (mem s) ?c (HS ! i) F" and len: "length HS = 7"
    and dis: "set (HS ! i) \<inter> set vs = {}"
    and dis2: "\<And>j. j < 7 \<Longrightarrow> j \<noteq> i \<Longrightarrow> set (HS ! j) \<inter> set (HS ! i) = {}"
    using inv i(1) by (auto simp: slab_inv_def)
  from cache_put [OF ok i(2), folded G_def] obtain m' where
    d: "slab_dealloc x s = s\<lparr>mem := m'\<rparr>" and ok': "cache_ok m' ?c (HS ! i) G"
    and live: "cache_live ?c (HS ! i) G = cache_live ?c (HS ! i) F - {x}"
    and ag: "agree_on (- set (HS ! i)) (mem s) m'"
    and keep: "\<forall>q\<in>cache_live ?c (HS ! i) F - {x}. \<forall>a\<in>obj_cells (sc_size ?c) q. m' a = mem s a"
    by blast
  let ?s = "s\<lparr>mem := m'\<rparr>"
  have "pmm_free hh ?s vs"
    using free by (rule pmm_free_upd_mem) (use ag dis in \<open>auto intro: agree_on_mono\<close>)
  then have inv': "slab_inv hh ?s vs HS G"
    using slab_inv_upd(1) [of hh s vs HS F i ?s "HS ! i" G vs] inv i(1,4) ok' ag dis by (auto simp: G_def)
  have other: "x \<notin> cache_live (slab_caches s ! j) (HS ! j) F" if "j < 7" "j \<noteq> i" for j
  proof
    assume x: "x \<in> cache_live (slab_caches s ! j) (HS ! j) F"
    have "cache_ok (mem s) (slab_caches s ! j) (HS ! j) F"
      using inv that by (simp add: slab_inv_def)
    with slab_live_page [OF this x, of x] i(4) dis2 [OF that] show False
      by (auto simp: cache_ok_def obj_in_cells)
  qed
  have F': "G h = F h" if "j < 7" "j \<noteq> i" "h \<in> set (HS ! j)" for j h
    using i(4) dis2 that by (auto simp: G_def)
  note objs = slab_objects_upd [where hs' = "HS ! i" and s = s and s' = ?s, OF len i(1) _ F',
      unfolded list_update_id]
  have objects: "slab_objects ?s HS G = slab_objects s HS F - {(x, z)}"
    using other by (intro set_eqI)
      (auto simp: objs slab_objects_at [OF i(1), of _ _ s HS F] live z)
  have kept: "m' a = mem s a" if "(q, w) \<in> slab_objects s HS F - {(x, z)}" "a \<in> obj_cells w q" for q w a
    by (rule slab_keep [OF inv i(1) ag dis2 _ _ that(2)]) (use keep that z in auto)
  have "HS ! i \<in> set HS"
    using i(1) len by simp
  then have "agree_on (- slab_pages vs HS) (mem s) m'"
    by (intro agree_on_mono [OF ag]) (auto simp: slab_pages_def)
  with inv' objects kept show ?thesis
    unfolding d by (intro exI [of _ G]) auto
qed

text \<open>Two live objects never share a byte.\<close>

lemma slab_objects_disjoint:
  assumes inv: "slab_inv hh s vs HS F" and x: "(x, z) \<in> slab_objects s HS F"
    and y: "(y, w) \<in> slab_objects s HS F" and ne: "(x, z) \<noteq> (y, w)"
  shows "obj_cells z x \<inter> obj_cells w y = {}"
proof -
  from slab_objects_cache [OF inv x] obtain i where
    i: "i < 7" "x \<in> cache_live (slab_caches s ! i) (HS ! i) F" "z = slab_sizes ! i"
    by blast
  from slab_objects_cache [OF inv y] obtain j where
    j: "j < 7" "y \<in> cache_live (slab_caches s ! j) (HS ! j) F" "w = slab_sizes ! j"
    by blast
  have ok: "cache_ok (mem s) (slab_caches s ! k) (HS ! k) F" "sc_size (slab_caches s ! k) = slab_sizes ! k"
    if "k < 7" for k
    using inv slab_sizes_nth [OF inv] that by (auto simp: slab_inv_def)
  from i(2) j(2) obtain g h where g: "g \<in> set (HS ! i)" "x \<in> set (slab_objs z g)"
    and h: "h \<in> set (HS ! j)" "y \<in> set (slab_objs w h)"
    using ok(2) i j by (auto simp: cache_live_def)
  have al: "page_aligned g" "page_aligned h" "good_size z" "good_size w"
    using ok i j g(1) h(1) by (fastforce simp: cache_ok_def slab_ok_def)+
  show ?thesis
  proof (cases "g = h")
    case False
    then show ?thesis
      using obj_cells_page [OF al(1,3) g(2)] obj_cells_page [OF al(2,4) h(2)] by fastforce
  next
    case True
    then have "i = j"
      using inv i(1) j(1) g(1) h(1) unfolding slab_inv_def by blast
    with ne i(3) j(3) obj_cells_disjoint [OF al(1,3) g(2), of y] h(2) True show ?thesis by auto
  qed
qed

text \<open>Writing inside a live object is invisible to the allocator.\<close>

lemma slab_ok_write:
  assumes ok: "slab_ok m sz h xs" and gs: "good_size sz" and q: "q \<in> set (slab_objs sz h)" "q \<notin> set xs"
    and a: "a \<in> obj_cells sz q"
  shows "slab_ok (m(a := v)) sz h xs" "(m(a := v)) (other_slabs_at h) = m (other_slabs_at h)"
proof -
  have al: "page_aligned h"
    using ok by (rule slab_ok_aligned)
  have hd: "a \<noteq> obj_am_at h" "a \<noteq> obj_size_at h" "a \<noteq> obj_at h" "a \<noteq> other_slabs_at h"
    using hdr_not_obj_cells [OF al gs q(1)] a by (auto simp: hdr_cells_def)
  have "x \<noteq> a" if "x \<in> set xs" for x
    using obj_cells_disjoint [OF al gs q(1), of x] obj_in_cells [OF gs, of x] ok q(2) a that
    by (auto simp: slab_ok_def)
  then have "obj_chain (m(a := v)) (m (obj_at h)) xs"
    using ok by (auto simp: slab_ok_def intro: obj_chain_mono)
  with ok hd show "slab_ok (m(a := v)) sz h xs"
    by (simp add: slab_ok_def)
  show "(m(a := v)) (other_slabs_at h) = m (other_slabs_at h)"
    using hd by simp
qed

lemma cache_ok_write:
  assumes ok: "cache_ok m c hs F" and q: "q \<in> cache_live c hs F" and a: "a \<in> obj_cells (sc_size c) q"
  shows "cache_ok (m(a := v)) c hs F"
proof -
  have gs: "good_size (sc_size c)" and so: "\<And>g. g \<in> set hs \<Longrightarrow> slab_ok m (sc_size c) g (F g)"
    using ok by (auto simp: cache_ok_def)
  from q obtain h where h: "h \<in> set hs" "q \<in> set (slab_objs (sc_size c) h)" "q \<notin> set (F h)"
    by (auto simp: cache_live_def)
  note w = slab_ok_write [OF so [OF h(1)] gs h(2,3) a, of v]
  have pa: "page_of a = h"
    by (rule obj_cells_page [OF slab_ok_aligned [OF so [OF h(1)]] gs h(2) a])
  have "slab_ok (m(a := v)) (sc_size c) g (F g) \<and> (m(a := v)) (other_slabs_at g) = m (other_slabs_at g)"
    if "g \<in> set hs" for g
  proof (cases "g = h")
    case False
    have "agree_on {g} m (m(a := v))"
      using pa False by (auto simp: agree_on_def)
    with slab_ok_agree [OF so [OF that] gs] hdr_cells_page [OF slab_ok_aligned [OF so [OF that]]]
    show ?thesis by (auto simp: agree_on_def hdr_cells_def)
  qed (use w in simp)
  with ok show ?thesis
    by (auto simp: cache_ok_def intro: slab_chain_mono)
qed

lemma slab_inv_write:
  assumes inv: "slab_inv hh s vs HS F" and q: "(q, z) \<in> slab_objects s HS F" and a: "a \<in> obj_cells z q"
  shows "slab_inv hh (s\<lparr>mem := (mem s)(a := v)\<rparr>) vs HS F"
    and "slab_objects (s\<lparr>mem := (mem s)(a := v)\<rparr>) HS F = slab_objects s HS F"
proof -
  from slab_objects_cache [OF inv q] obtain i where
    i: "i < 7" "q \<in> cache_live (slab_caches s ! i) (HS ! i) F" "z = slab_sizes ! i"
    by blast
  have ok: "cache_ok (mem s) (slab_caches s ! i) (HS ! i) F" and dis: "set (HS ! i) \<inter> set vs = {}"
    and free: "pmm_free hh s vs"
    using inv i(1) by (auto simp: slab_inv_def)
  have a': "a \<in> obj_cells (sc_size (slab_caches s ! i)) q"
    using a i slab_sizes_nth [OF inv i(1)] by simp
  have ag: "agree_on (- set (HS ! i)) (mem s) ((mem s)(a := v))"
    using slab_live_page [OF ok i(2) a'] by (auto simp: agree_on_def)
  have "pmm_free hh (s\<lparr>mem := (mem s)(a := v)\<rparr>) vs"
    using free by (rule pmm_free_upd_mem) (use ag dis in \<open>auto intro: agree_on_mono\<close>)
  then show "slab_inv hh (s\<lparr>mem := (mem s)(a := v)\<rparr>) vs HS F"
    using slab_inv_upd(1) [of hh s vs HS F i "s\<lparr>mem := (mem s)(a := v)\<rparr>" "HS ! i" F vs] inv i(1)
      cache_ok_write [OF ok i(2) a'] ag dis by auto
  show "slab_objects (s\<lparr>mem := (mem s)(a := v)\<rparr>) HS F = slab_objects s HS F"
    by (simp add: slab_objects_def)
qed

section \<open>Initialisation\<close>

lemma slabcache_init_ok:
  assumes "pmm_free hh s (v # vs)" "good_size sz"
  shows "\<exists>s'. slabcache_init hh sz s = Inr (Inr \<lparr>sc_size = sz, sc_slabs = v\<rparr>, s') \<and> pmm_free hh s' vs
     \<and> slab_ok (mem s') sz v (rev (slab_objs sz v)) \<and> mem s' (other_slabs_at v) = 0
     \<and> agree_on (- {v}) (mem s) (mem s') \<and> pmm_state.more s' = pmm_state.more s"
proof -
  have "unat (slab_header_bytes + sz) = 32 + unat sz"
    using assms(2) by (subst unat_add_no_wrap) (auto simp: slab_header_bytes_def good_size_def)
  then have "\<not> slab_header_bytes + sz > PAGE_SIZE"
    using assms(2) by (simp add: word_less_nat_alt good_size_def)
  with slab_header_init_ok [OF assms] show ?thesis
    by (auto simp: slabcache_init_def)
qed

lemma init_slab_caches_ok:
  assumes "pmm_free hh s (ws @ vs)" "length ws = length szs" "\<forall>sz\<in>set szs. good_size sz"
    and "length cs0 = i" "slab_caches s = cs0 @ cs1" "length cs1 = length szs"
  shows "\<exists>s'. init_slab_caches hh szs i s = Inr s' \<and> pmm_free hh s' vs
     \<and> slab_caches s' = cs0 @ map2 (\<lambda>sz w. \<lparr>sc_size = sz, sc_slabs = w\<rparr>) szs ws
     \<and> (\<forall>k<length szs. slab_ok (mem s') (szs ! k) (ws ! k) (rev (slab_objs (szs ! k) (ws ! k)))
          \<and> mem s' (other_slabs_at (ws ! k)) = 0)
     \<and> agree_on (- set ws) (mem s) (mem s') \<and> slab_state.more s' = slab_state.more s"
  using assms
proof (induction szs arbitrary: s ws i cs0 cs1)
  case Nil
  then show ?case by auto
next
  case (Cons sz szs)
  obtain w ws' c cs1' where ws: "ws = w # ws'" "cs1 = c # cs1'"
    using Cons.prems(2,6) by (cases ws; cases cs1) auto
  have gs: "good_size sz"
    using Cons.prems(3) by simp
  from slabcache_init_ok [of hh s w "ws' @ vs" sz] Cons.prems(1) gs ws obtain s1 where
    s1: "slabcache_init hh sz s = Inr (Inr \<lparr>sc_size = sz, sc_slabs = w\<rparr>, s1)" "pmm_free hh s1 (ws' @ vs)"
      "slab_ok (mem s1) sz w (rev (slab_objs sz w))" "mem s1 (other_slabs_at w) = 0"
      "agree_on (- {w}) (mem s) (mem s1)" "pmm_state.more s1 = pmm_state.more s"
    by auto
  let ?s2 = "s1\<lparr>slab_caches := (slab_caches s1)[i := \<lparr>sc_size = sz, sc_slabs = w\<rparr>]\<rparr>"
  have caches: "slab_caches ?s2 = (cs0 @ [\<lparr>sc_size = sz, sc_slabs = w\<rparr>]) @ cs1'"
    using slab_caches_more [OF s1(6)] Cons.prems(4,5) ws(2) by (simp add: list_update_append)
  have "pmm_free hh ?s2 (ws' @ vs)"
    using s1(2) by (simp add: pmm_free_def)
  from Cons.IH [OF this _ _ _ caches] Cons.prems ws obtain s' where
    s': "init_slab_caches hh szs (Suc i) ?s2 = Inr s'" "pmm_free hh s' vs"
      "slab_caches s' = (cs0 @ [\<lparr>sc_size = sz, sc_slabs = w\<rparr>]) @ map2 (\<lambda>sz w. \<lparr>sc_size = sz, sc_slabs = w\<rparr>) szs ws'"
      "\<forall>k<length szs. slab_ok (mem s') (szs ! k) (ws' ! k) (rev (slab_objs (szs ! k) (ws' ! k)))
          \<and> mem s' (other_slabs_at (ws' ! k)) = 0"
      "agree_on (- set ws') (mem s1) (mem s')" "slab_state.more s' = slab_state.more s1"
    by auto
  have wn: "w \<notin> set ws'" "page_aligned w"
    using pmm_free_distinct [OF Cons.prems(1)] s1(3) ws by (auto simp: slab_ok_def)
  then have "agree_on {w} (mem s1) (mem s')"
    using s'(5) by (auto intro: agree_on_mono)
  then have "slab_ok (mem s') sz w (rev (slab_objs sz w))" "mem s' (other_slabs_at w) = 0"
    using slab_ok_agree [OF s1(3) gs] s1(4) hdr_cells_page [OF wn(2), of "other_slabs_at w"]
    by (auto simp: agree_on_def hdr_cells_def)
  moreover have "agree_on (- set ws) (mem s) (mem s')"
    using s1(5) s'(5) ws(1) by (auto simp: agree_on_def)
  moreover have "slab_state.more s1 = slab_state.more s"
    using s1(6) by (cases s, cases s1) simp
  ultimately show ?case
    using s1(1) s' ws by (auto simp: less_Suc_eq_0_disj)
qed

lemma good_slab_sizes: "\<forall>sz\<in>set slab_sizes. good_size sz"
  by (simp add: slab_sizes_def good_size_def)

lemma init_slab_ok:
  assumes free: "pmm_free hh s (ws @ vs)" and ws: "length ws = 7" and cs: "length (slab_caches s) = 7"
  shows "\<exists>s' F. init_slab hh s = Inr s' \<and> slab_inv hh s' vs (map (\<lambda>w. [w]) ws) F
     \<and> slab_objects s' (map (\<lambda>w. [w]) ws) F = {} \<and> agree_on (- set ws) (mem s) (mem s')
     \<and> slab_state.more s' = slab_state.more s"
proof -
  from init_slab_caches_ok [OF free _ good_slab_sizes, of "[]" 0 "slab_caches s"] ws cs obtain s' where
    s': "init_slab hh s = Inr s'" "pmm_free hh s' vs"
      "slab_caches s' = map2 (\<lambda>sz w. \<lparr>sc_size = sz, sc_slabs = w\<rparr>) slab_sizes ws"
      "\<forall>k<7. slab_ok (mem s') (slab_sizes ! k) (ws ! k) (rev (slab_objs (slab_sizes ! k) (ws ! k)))
          \<and> mem s' (other_slabs_at (ws ! k)) = 0"
      "agree_on (- set ws) (mem s) (mem s')" "slab_state.more s' = slab_state.more s"
    by (auto simp: init_slab_def)
  define F where "F = (\<lambda>h. rev (slab_objs (mem s' (obj_size_at h)) h))"
  have nth: "slab_caches s' ! k = \<lparr>sc_size = slab_sizes ! k, sc_slabs = ws ! k\<rparr>" if "k < 7" for k
    using that ws s'(3) by simp
  have dis: "distinct ws" "set ws \<inter> set vs = {}"
    using pmm_free_distinct [OF free] by auto
  have Fk: "F (ws ! k) = rev (slab_objs (slab_sizes ! k) (ws ! k))" if "k < 7" for k
    using s'(4) that by (simp add: F_def slab_ok_def)
  have nz: "ws ! k \<noteq> 0" if "k < 7" for k
    using pmm_free_valid [OF free, of "ws ! k"] ws that by (simp add: valid_frame_def)
  have "cache_ok (mem s') (slab_caches s' ! k) [ws ! k] F" if "k < 7" for k
    using s'(4) that good_slab_sizes nz [OF that] by (simp add: cache_ok_def nth Fk)
  moreover have "map sc_size (slab_caches s') = slab_sizes"
    using ws by (intro nth_equalityI) (simp_all add: s'(3))
  moreover have "ws ! k \<noteq> ws ! j" if "k < 7" "j < 7" "k \<noteq> j" for j k
    using dis(1) ws that by (simp add: nth_eq_iff_index_eq)
  moreover have "ws ! k \<notin> set vs" if "k < 7" for k
    using dis(2) ws that by (auto simp: set_conv_nth)
  ultimately have "slab_inv hh s' vs (map (\<lambda>w. [w]) ws) F"
    using s'(2) ws by (simp add: slab_inv_def)
  moreover have "slab_objects s' (map (\<lambda>w. [w]) ws) F = {}"
    using ws by (auto simp: slab_objects_def cache_live_def nth Fk)
  ultimately show ?thesis
    using s' by blast
qed

section \<open>The contract\<close>

type_synonym slab_ghost = "u64 list \<times> u64 list list \<times> (u64 \<Rightarrow> u64 list)"

definition slab_good :: "u64 \<Rightarrow> 'z slab_state_scheme \<Rightarrow> slab_ghost \<Rightarrow> bool" where
  "slab_good hh s g = (case g of (vs, HS, F) \<Rightarrow> slab_inv hh s vs HS F)"

definition slab_live :: "'z slab_state_scheme \<Rightarrow> slab_ghost \<Rightarrow> (u64 \<times> usize) set" where
  "slab_live s g = (case g of (vs, HS, F) \<Rightarrow> slab_objects s HS F)"

definition slab_room :: "slab_ghost \<Rightarrow> nat" where
  "slab_room g = length (fst g)"

interpretation slab: object_allocator "slab_alloc hh" slab_dealloc mem set_mem "slab_good hh"
  slab_live slab_room obj_cells 1024 for hh :: u64
proof (unfold_locales, goal_cases)
  case (1 s g x z y w)
  then show ?case
    by (cases g) (auto simp: slab_good_def slab_live_def dest: slab_objects_disjoint)
next
  case (2 s g x z)
  then show ?case
    by (cases g) (auto simp: slab_good_def slab_live_def intro: obj_in_cells dest!: slab_objects_cache)
next
  case (3 s g n)
  obtain vs HS F where g: "g = (vs, HS, F)" by (cases g)
  with 3 have "slab_inv hh s vs HS F" "vs \<noteq> []"
    by (auto simp: slab_good_def slab_room_def)
  from slab_alloc_ok [OF this(1) 3(3) this(2)] obtain x z s' vs' HS' F' where
    r: "slab_alloc hh n s = Inr (Inr x, s')" "slab_inv hh s' vs' HS' F'" "(x, z) \<notin> slab_objects s HS F"
      "slab_objects s' HS' F' = insert (x, z) (slab_objects s HS F)" "n \<le> z"
      "\<forall>a\<in>obj_cells z x. mem s' a = 0"
      "\<forall>(q, w)\<in>slab_objects s HS F. \<forall>a\<in>obj_cells w q. mem s' a = mem s a" "vs' = vs \<or> vs' = tl vs"
    by (elim exE conjE)
  have "length vs \<le> length vs' + 1"
    using r(8) by auto
  with r show ?case
    by (intro exI [of _ x] exI [of _ z] exI [of _ s'] exI [of _ "(vs', HS', F')"])
      (simp add: g slab_good_def slab_live_def slab_room_def)
next
  case (4 s g x z)
  obtain vs HS F where g: "g = (vs, HS, F)" by (cases g)
  with 4 slab_release_ok [of hh s vs HS F x z] obtain F' where
    "slab_inv hh (slab_dealloc x s) vs HS F'"
    "slab_objects (slab_dealloc x s) HS F' = slab_objects s HS F - {(x, z)}"
    "\<forall>(q, w)\<in>slab_objects s HS F - {(x, z)}. \<forall>a\<in>obj_cells w q. mem (slab_dealloc x s) a = mem s a"
    by (auto simp: slab_good_def slab_live_def)
  with g show ?case
    by (intro exI [of _ "(vs, HS, F')"]) (simp add: slab_good_def slab_live_def slab_room_def)
next
  case (5 s g x z a v)
  obtain vs HS F where g: "g = (vs, HS, F)" by (cases g)
  with 5 slab_inv_write [of hh s vs HS F x z a v] show ?case
    by (simp add: slab_good_def slab_live_def set_mem_def)
next
  case (6 m s)
  show ?case by (rule mem_set_mem)
qed

section \<open>Runs of the allocator\<close>






section \<open>Properties\<close>


definition example_slab :: slab_state where
  "example_slab = \<lparr>mem = (\<lambda>_. 0)(0x101000 := 0x2000, 0x102000 := 0x3000, 0x103000 := 0x4000,
      0x104000 := 0x5000, 0x105000 := 0x6000, 0x106000 := 0x7000, 0x107000 := 0x8000),
    FREELIST = Some 0x1000, slab_caches = replicate 7 \<lparr>sc_size = 0, sc_slabs = 0\<rparr>\<rparr>"

lemma example_slab_free:
  "pmm_free 0x100000 example_slab ([0x101000, 0x102000, 0x103000, 0x104000, 0x105000, 0x106000, 0x107000] @ [0x108000])"
  by (simp add: pmm_free_def example_slab_def valid_frame_def page_aligned_def)


text \<open>
  Remark: a request of more than 1024 bytes is refused with \<^verbatim>\<open>Err(())\<close> and changes
  nothing, and one whose next power of two does not fit in 64 bits panics.
\<close>

theorem slab_alloc_too_large:
  assumes "slab_inv hh s vs HS F" "1024 < sz"
  shows "slab_alloc hh sz s = (if 0x8000000000000000 < sz then Inl AssertFailed else Inr (Inl (), s))"
proof -
  have "slab_alloc_from hh cs sz s = Inr (Inl (), s)" if "\<forall>c\<in>set cs. sc_size c < sz" for cs
    using that by (induction cs) auto
  moreover have "sc_size c < sz" if "c \<in> set (slab_caches s)" for c
  proof -
    have "set slab_sizes = sc_size ` set (slab_caches s)"
      using assms(1) by (metis slab_inv_def set_map)
    with that have "sc_size c \<in> set slab_sizes"
      by simp
    then have "sc_size c \<le> 1024"
      by (auto simp: slab_sizes_def)
    with assms(2) show ?thesis by simp
  qed
  ultimately show ?thesis
    by (simp add: slab_alloc_def slab_inv_length [OF assms(1)])
qed

theorem slab_alloc_too_large_witness:
  "\<exists>s. init_slab 0x100000 example_slab = Inr s \<and> slab_alloc 0x100000 2048 s = Inr (Inl (), s)"
proof -
  obtain s F where s: "init_slab 0x100000 example_slab = Inr s"
    "slab_inv 0x100000 s [0x108000]
       (map (\<lambda>w. [w]) [0x101000, 0x102000, 0x103000, 0x104000, 0x105000, 0x106000, 0x107000]) F"
    using init_slab_ok [OF example_slab_free] by (auto simp: example_slab_def)
  with slab_alloc_too_large [OF s(2), of 2048] show ?thesis by simp
qed

end
