(* ===== verification/Lists.thy ===== *)
theory Lists
  imports Slab
begin

text \<open>
  The intrusive doubly linked lists of \<^verbatim>\<open>kernel/src/util/lists/mod.rs\<close>. A node is
  a field of the item it links: \<open>off\<close> is the \<^verbatim>\<open>offset_of!\<close> of that field
  (\<^verbatim>\<open>impl_has_list_node!\<close>), so the node of an item and the item of a node are an
  addition and a subtraction away. Null marks a node that is in no list and an
  empty end of the list head; the address 1 ends the links of the nodes.
\<close>

section \<open>State and operations\<close>

record InvasiveListNode =
  nd_prev :: u64
  nd_next :: u64

record InvasiveList =
  il_first :: u64
  il_last :: u64
  il_len :: usize

type_synonym node_heap = "u64 \<Rightarrow> InvasiveListNode"

definition from_node :: "u64 \<Rightarrow> u64 \<Rightarrow> u64" where
  "from_node off node = node - off"

definition list_node :: "u64 \<Rightarrow> u64 \<Rightarrow> u64" where
  "list_node off item = item + off"

definition InvasiveListNode_new :: InvasiveListNode where
  "InvasiveListNode_new = \<lparr>nd_prev = 0, nd_next = 0\<rparr>"

definition is_in_list :: "InvasiveListNode \<Rightarrow> bool" where
  "is_in_list n \<longleftrightarrow> nd_prev n \<noteq> 0"

definition iter_next :: "u64 \<Rightarrow> node_heap \<Rightarrow> u64 \<Rightarrow> (u64 \<times> u64) option" where
  "iter_next off h cur = (if cur \<le> 1 then None else Some (from_node off cur, nd_next (h cur)))"

definition InvasiveList_new :: InvasiveList where
  "InvasiveList_new = \<lparr>il_first = 0, il_last = 0, il_len = 0\<rparr>"

text \<open>
  The loops over the nodes, with a bound on the rounds: a list that ends visits
  distinct addresses, so \<open>list_fuel\<close> is enough for it.
\<close>

definition list_fuel :: nat where
  "list_fuel = 2 ^ 65"

text \<open>
  \<^verbatim>\<open>consistency_check\<close>, compiled in with the feature \<^verbatim>\<open>dlist_debug\<close>: whether none of
  its assertions fails.
\<close>

primrec consistency_loop :: "nat \<Rightarrow> InvasiveList \<Rightarrow> node_heap \<Rightarrow> u64 \<Rightarrow> u64 \<Rightarrow> usize \<Rightarrow> bool option" where
  "consistency_loop 0 l h prev cur n = None"
| "consistency_loop (Suc fuel) l h prev cur n =
     (if cur > 1 then
        if nd_prev (h cur) \<noteq> prev \<or> \<not> n + 1 \<le> il_len l then Some False
        else consistency_loop fuel l h cur (nd_next (h cur)) (n + 1)
      else Some (n = il_len l))"

definition consistency_check :: "InvasiveList \<Rightarrow> node_heap \<Rightarrow> bool option" where
  "consistency_check l h = consistency_loop list_fuel l h 1 (il_first l) 0"

definition push_front ::
    "u64 \<Rightarrow> u64 \<Rightarrow> InvasiveList \<times> node_heap \<Rightarrow> (unit + unit) \<times> InvasiveList \<times> node_heap" where
  "push_front off item = (\<lambda>(l, h).
     let node = list_node off item
     in if nd_next (h node) \<noteq> 0 then (Inl (), l, h)
        else
          let h1 = h(node := \<lparr>nd_prev = 1, nd_next = max (il_first l) 1\<rparr>);
              (l2, h2) = (if il_first l \<noteq> 0
                 then (l, h1(il_first l := (h1 (il_first l))\<lparr>nd_prev := node\<rparr>))
                 else (l\<lparr>il_last := node\<rparr>, h1))
          in (Inr (), l2\<lparr>il_first := node, il_len := il_len l2 + 1\<rparr>, h2))"

definition pop_front :: "u64 \<Rightarrow> InvasiveList \<times> node_heap \<Rightarrow> u64 option \<times> InvasiveList \<times> node_heap" where
  "pop_front off = (\<lambda>(l, h).
     if il_first l = 0 then (None, l, h)
     else
       let node = il_first l;
           (l1, h1) = (if nd_next (h node) > 1
              then (l\<lparr>il_first := nd_next (h node)\<rparr>, h(nd_next (h node) := (h (nd_next (h node)))\<lparr>nd_prev := 1\<rparr>))
              else (l\<lparr>il_first := 0, il_last := 0\<rparr>, h))
       in (Some (from_node off node), l1\<lparr>il_len := il_len l1 - 1\<rparr>, h1(node := InvasiveListNode_new)))"

definition list_front :: "u64 \<Rightarrow> InvasiveList \<Rightarrow> u64 option" where
  "list_front off l = (if il_first l = 0 then None else Some (from_node off (il_first l)))"

definition push_back ::
    "u64 \<Rightarrow> u64 \<Rightarrow> InvasiveList \<times> node_heap \<Rightarrow> (unit + unit) \<times> InvasiveList \<times> node_heap" where
  "push_back off item = (\<lambda>(l, h).
     let node = list_node off item
     in if nd_next (h node) \<noteq> 0 then (Inl (), l, h)
        else
          let h1 = h(node := \<lparr>nd_prev = max (il_last l) 1, nd_next = 1\<rparr>);
              (l2, h2) = (if il_last l \<noteq> 0
                 then (l, h1(il_last l := (h1 (il_last l))\<lparr>nd_next := node\<rparr>))
                 else (l\<lparr>il_first := node\<rparr>, h1))
          in (Inr (), l2\<lparr>il_last := node, il_len := il_len l2 + 1\<rparr>, h2))"

definition pop_back :: "u64 \<Rightarrow> InvasiveList \<times> node_heap \<Rightarrow> u64 option \<times> InvasiveList \<times> node_heap" where
  "pop_back off = (\<lambda>(l, h).
     if il_last l = 0 then (None, l, h)
     else
       let node = il_last l;
           (l1, h1) = (if nd_prev (h node) > 1
              then (l\<lparr>il_last := nd_prev (h node)\<rparr>, h(nd_prev (h node) := (h (nd_prev (h node)))\<lparr>nd_next := 1\<rparr>))
              else (l\<lparr>il_first := 0, il_last := 0\<rparr>, h))
       in (Some (from_node off node), l1\<lparr>il_len := il_len l1 - 1\<rparr>, h1(node := InvasiveListNode_new)))"

definition list_back :: "u64 \<Rightarrow> InvasiveList \<Rightarrow> u64 option" where
  "list_back off l = (if il_last l = 0 then None else Some (from_node off (il_last l)))"

primrec clear_loop :: "nat \<Rightarrow> u64 \<Rightarrow> node_heap \<Rightarrow> node_heap option" where
  "clear_loop 0 cur h = None"
| "clear_loop (Suc fuel) cur h =
     (if cur > 1 then clear_loop fuel (nd_next (h cur)) (h(cur := \<lparr>nd_prev = 0, nd_next = 0\<rparr>)) else Some h)"

text \<open>The list's own \<^verbatim>\<open>clear\<close> leaves \<^verbatim>\<open>len\<close> as it was.\<close>

definition clear :: "InvasiveList \<times> node_heap \<Rightarrow> (InvasiveList \<times> node_heap) option" where
  "clear = (\<lambda>(l, h). map_option (Pair (l\<lparr>il_first := 0, il_last := 0\<rparr>)) (clear_loop list_fuel (il_first l) h))"

primrec contains_loop :: "nat \<Rightarrow> u64 \<Rightarrow> node_heap \<Rightarrow> u64 \<Rightarrow> u64 \<Rightarrow> bool option" where
  "contains_loop 0 off h thing cur = None"
| "contains_loop (Suc fuel) off h thing cur =
     (case iter_next off h cur of
        None \<Rightarrow> Some False
      | Some (elem, nxt) \<Rightarrow> if elem = thing then Some True else contains_loop fuel off h thing nxt)"

definition list_contains :: "u64 \<Rightarrow> u64 \<Rightarrow> InvasiveList \<times> node_heap \<Rightarrow> bool option" where
  "list_contains off thing = (\<lambda>(l, h).
     if nd_next (h (list_node off thing)) = 0 then Some False
     else contains_loop list_fuel off h thing (il_first l))"

definition list_remove :: "u64 \<Rightarrow> u64 \<Rightarrow> InvasiveList \<times> node_heap \<Rightarrow> InvasiveList \<times> node_heap" where
  "list_remove off item = (\<lambda>(l, h).
     let node = list_node off item;
         nx = nd_next (h node);
         pv = nd_prev (h node);
         (l1, h1) = (if nx > 1 then (l, h(nx := (h nx)\<lparr>nd_prev := pv\<rparr>))
            else if pv = 1 then (l\<lparr>il_last := 0\<rparr>, h) else (l\<lparr>il_last := pv\<rparr>, h));
         (l2, h2) = (if pv > 1 then (l1, h1(pv := (h1 pv)\<lparr>nd_next := nx\<rparr>))
            else if nx = 1 then (l1\<lparr>il_first := 0\<rparr>, h1) else (l1\<lparr>il_first := nx\<rparr>, h1))
     in (l2\<lparr>il_len := il_len l2 - 1\<rparr>, h2(node := InvasiveListNode_new)))"

definition try_remove :: "u64 \<Rightarrow> u64 \<Rightarrow> InvasiveList \<times> node_heap \<Rightarrow> InvasiveList \<times> node_heap" where
  "try_remove off item = (\<lambda>(l, h).
     if is_in_list (h (list_node off item)) then list_remove off item (l, h) else (l, h))"

primrec iter_collect :: "nat \<Rightarrow> u64 \<Rightarrow> node_heap \<Rightarrow> u64 \<Rightarrow> u64 list option" where
  "iter_collect 0 off h cur = None"
| "iter_collect (Suc fuel) off h cur =
     (case iter_next off h cur of
        None \<Rightarrow> Some []
      | Some (elem, nxt) \<Rightarrow> map_option (Cons elem) (iter_collect fuel off h nxt))"

definition list_iter :: "u64 \<Rightarrow> InvasiveList \<times> node_heap \<Rightarrow> u64 list option" where
  "list_iter off = (\<lambda>(l, h). iter_collect list_fuel off h (il_first l))"

section \<open>The lists of owned items\<close>

text \<open>
  \<^verbatim>\<open>ArcInvasiveList\<close> and \<^verbatim>\<open>BoxInvasiveList\<close> hold their items through raw pointers
  made with \<^verbatim>\<open>into_raw\<close>. \<open>strong\<close> counts the references to each item of an \<^verbatim>\<open>Arc\<close>,
  the one inside the list included; \<open>boxes\<close> are the items of a \<^verbatim>\<open>Box\<close> not freed yet.
\<close>

record owned_list =
  inner :: InvasiveList
  nodes :: node_heap
  strong :: "u64 \<Rightarrow> nat"
  boxes :: "u64 set"

definition arc_drop :: "u64 \<Rightarrow> 'z owned_list_scheme \<Rightarrow> 'z owned_list_scheme" where
  "arc_drop item s = s\<lparr>strong := (strong s)(item := strong s item - 1)\<rparr>"

definition box_drop :: "u64 \<Rightarrow> 'z owned_list_scheme \<Rightarrow> 'z owned_list_scheme" where
  "box_drop item s = s\<lparr>boxes := boxes s - {item}\<rparr>"

definition with_inner ::
    "('r \<times> InvasiveList \<times> node_heap) \<Rightarrow> 'z owned_list_scheme \<Rightarrow> 'r \<times> 'z owned_list_scheme" where
  "with_inner r s = (case r of (x, l, h) \<Rightarrow> (x, s\<lparr>inner := l, nodes := h\<rparr>))"

definition Arc_push_front :: "u64 \<Rightarrow> u64 \<Rightarrow> 'z owned_list_scheme \<Rightarrow> (unit + unit) \<times> 'z owned_list_scheme" where
  "Arc_push_front off item s =
     (let (res, s1) = with_inner (push_front off item (inner s, nodes s)) s
      in (res, case res of Inl _ \<Rightarrow> arc_drop item s1 | Inr _ \<Rightarrow> s1))"

definition Arc_pop_front :: "u64 \<Rightarrow> 'z owned_list_scheme \<Rightarrow> u64 option \<times> 'z owned_list_scheme" where
  "Arc_pop_front off s = with_inner (pop_front off (inner s, nodes s)) s"

definition Arc_push_back :: "u64 \<Rightarrow> u64 \<Rightarrow> 'z owned_list_scheme \<Rightarrow> (unit + unit) \<times> 'z owned_list_scheme" where
  "Arc_push_back off item s =
     (let (res, s1) = with_inner (push_back off item (inner s, nodes s)) s
      in (res, case res of Inl _ \<Rightarrow> arc_drop item s1 | Inr _ \<Rightarrow> s1))"

definition Arc_pop_back :: "u64 \<Rightarrow> 'z owned_list_scheme \<Rightarrow> u64 option \<times> 'z owned_list_scheme" where
  "Arc_pop_back off s = with_inner (pop_back off (inner s, nodes s)) s"

primrec Arc_clear_loop :: "nat \<Rightarrow> u64 \<Rightarrow> u64 \<Rightarrow> 'z owned_list_scheme \<Rightarrow> 'z owned_list_scheme option" where
  "Arc_clear_loop 0 off cur s = None"
| "Arc_clear_loop (Suc fuel) off cur s =
     (if cur > 1 then
        let nxt = nd_next (nodes s cur);
            s1 = s\<lparr>nodes := (nodes s)(cur := \<lparr>nd_prev = 0, nd_next = 0\<rparr>)\<rparr>
        in Arc_clear_loop fuel off nxt (arc_drop (from_node off cur) s1)
      else Some s)"

definition Arc_clear :: "u64 \<Rightarrow> 'z owned_list_scheme \<Rightarrow> 'z owned_list_scheme option" where
  "Arc_clear off s = Arc_clear_loop list_fuel off (il_first (inner s)) (s\<lparr>inner := InvasiveList_new\<rparr>)"

definition Arc_remove :: "u64 \<Rightarrow> u64 \<Rightarrow> 'z owned_list_scheme \<Rightarrow> (panic + 'z owned_list_scheme) option" where
  "Arc_remove off thing s =
     map_option (\<lambda>c. if c then let (l, h) = list_remove off thing (inner s, nodes s)
                              in Inr (s\<lparr>inner := l, nodes := h\<rparr>)
                     else Inl AssertFailed)
       (list_contains off thing (inner s, nodes s))"

definition Box_push_front :: "u64 \<Rightarrow> u64 \<Rightarrow> 'z owned_list_scheme \<Rightarrow> (unit + unit) \<times> 'z owned_list_scheme" where
  "Box_push_front off item s =
     (let (res, s1) = with_inner (push_front off item (inner s, nodes s)) s
      in (res, case res of Inl _ \<Rightarrow> box_drop item s1 | Inr _ \<Rightarrow> s1))"

definition Box_pop_front :: "u64 \<Rightarrow> 'z owned_list_scheme \<Rightarrow> u64 option \<times> 'z owned_list_scheme" where
  "Box_pop_front off s = with_inner (pop_front off (inner s, nodes s)) s"

definition Box_push_back :: "u64 \<Rightarrow> u64 \<Rightarrow> 'z owned_list_scheme \<Rightarrow> (unit + unit) \<times> 'z owned_list_scheme" where
  "Box_push_back off item s =
     (let (res, s1) = with_inner (push_back off item (inner s, nodes s)) s
      in (res, case res of Inl _ \<Rightarrow> box_drop item s1 | Inr _ \<Rightarrow> s1))"

definition Box_pop_back :: "u64 \<Rightarrow> 'z owned_list_scheme \<Rightarrow> u64 option \<times> 'z owned_list_scheme" where
  "Box_pop_back off s = with_inner (pop_back off (inner s, nodes s)) s"

primrec Box_clear_loop :: "nat \<Rightarrow> u64 \<Rightarrow> u64 \<Rightarrow> 'z owned_list_scheme \<Rightarrow> 'z owned_list_scheme option" where
  "Box_clear_loop 0 off cur s = None"
| "Box_clear_loop (Suc fuel) off cur s =
     (if cur > 1 then
        let nxt = nd_next (nodes s cur);
            s1 = s\<lparr>nodes := (nodes s)(cur := \<lparr>nd_prev = 0, nd_next = 0\<rparr>)\<rparr>
        in Box_clear_loop fuel off nxt (box_drop (from_node off cur) s1)
      else Some s)"

definition Box_clear :: "u64 \<Rightarrow> 'z owned_list_scheme \<Rightarrow> 'z owned_list_scheme option" where
  "Box_clear off s = Box_clear_loop list_fuel off (il_first (inner s)) (s\<lparr>inner := InvasiveList_new\<rparr>)"

definition Box_remove :: "u64 \<Rightarrow> u64 \<Rightarrow> 'z owned_list_scheme \<Rightarrow> (panic + 'z owned_list_scheme) option" where
  "Box_remove off thing s =
     map_option (\<lambda>c. if c then let (l, h) = list_remove off thing (inner s, nodes s)
                              in Inr (s\<lparr>inner := l, nodes := h\<rparr>)
                     else Inl AssertFailed)
       (list_contains off thing (inner s, nodes s))"

section \<open>What a list stands for\<close>

text \<open>
  \<open>dseg h p xs n\<close>: the nodes \<open>xs\<close> are linked in this order, the first has \<open>p\<close> before
  it and the last \<open>n\<close> behind it. \<open>dlist\<close> adds the head of the list.
\<close>

fun hd_or :: "u64 \<Rightarrow> u64 list \<Rightarrow> u64" where
  "hd_or n [] = n"
| "hd_or n (x # xs) = x"

abbreviation last_or :: "u64 \<Rightarrow> u64 list \<Rightarrow> u64" where
  "last_or p xs \<equiv> (if xs = [] then p else last xs)"

primrec dseg :: "node_heap \<Rightarrow> u64 \<Rightarrow> u64 list \<Rightarrow> u64 \<Rightarrow> bool" where
  "dseg h p [] n \<longleftrightarrow> True"
| "dseg h p (x # xs) n \<longleftrightarrow>
     x > 1 \<and> nd_prev (h x) = p \<and> nd_next (h x) = hd_or n xs \<and> dseg h x xs n"

definition dlist :: "InvasiveList \<Rightarrow> node_heap \<Rightarrow> u64 list \<Rightarrow> bool" where
  "dlist l h xs \<longleftrightarrow> dseg h 1 xs 1 \<and> distinct xs
     \<and> il_first l = hd_or 0 xs \<and> il_last l = last_or 0 xs
     \<and> il_len l = of_nat (length xs)"

lemma hd_or_append [simp]: "hd_or n (xs @ ys) = hd_or (hd_or n ys) xs"
  by (cases xs) simp_all

lemma dseg_append:
  "dseg h p (xs @ ys) n \<longleftrightarrow> dseg h p xs (hd_or n ys) \<and> dseg h (last_or p xs) ys n"
  by (induction xs arbitrary: p) auto

lemma dseg_cong:
  "dseg h p xs n \<Longrightarrow> (\<And>x. x \<in> set xs \<Longrightarrow> h' x = h x) \<Longrightarrow> dseg h' p xs n"
  by (induction xs arbitrary: p) auto

lemma dseg_gt: "dseg h p xs n \<Longrightarrow> x \<in> set xs \<Longrightarrow> x > 1"
  by (induction xs arbitrary: p) auto

lemma gt1 [simp]: "(x :: u64) > 1 \<Longrightarrow> x \<noteq> 0" "(x :: u64) > 1 \<Longrightarrow> x \<noteq> 1" "(x :: u64) > 1 \<Longrightarrow> max x 1 = x"
  "(x :: u64) > 1 \<Longrightarrow> \<not> x \<le> 1" "(x :: u64) \<le> 1 \<Longrightarrow> \<not> 1 < x"
  by (auto simp: max_def)

lemma dseg_next: "dseg h p xs n \<Longrightarrow> n \<noteq> 0 \<Longrightarrow> x \<in> set xs \<Longrightarrow> nd_next (h x) \<noteq> 0"
proof (induction xs arbitrary: p)
  case (Cons y ys)
  then show ?case by (cases ys) auto
qed simp

lemma dlist_Nil: "dlist l h [] \<longleftrightarrow> l = InvasiveList_new"
  by (cases l) (auto simp: dlist_def InvasiveList_new_def)

lemma dlist_first: "dlist l h (x # xs) \<Longrightarrow> il_first l = x \<and> x > 1"
  by (simp add: dlist_def)

lemma dlist_last: "dlist l h (xs @ [x]) \<Longrightarrow> il_last l = x \<and> x > 1"
  by (simp add: dlist_def dseg_append)

lemma dlist_gt: "dlist l h xs \<Longrightarrow> x \<in> set xs \<Longrightarrow> x > 1"
  by (auto simp: dlist_def dseg_gt)

lemma dlist_next: "dlist l h xs \<Longrightarrow> x \<in> set xs \<Longrightarrow> nd_next (h x) \<noteq> 0"
  by (auto simp: dlist_def dest: dseg_next)

lemma dlist_cong: "dlist l h xs \<Longrightarrow> (\<And>x. x \<in> set xs \<Longrightarrow> h' x = h x) \<Longrightarrow> dlist l h' xs"
  by (auto simp: dlist_def intro: dseg_cong)

text \<open>What an operation leaves alone: every node but those of the list.\<close>

lemma push_front_ok:
  assumes d: "dlist l h xs" and n: "node = list_node off item" "nd_next (h node) = 0" "node > 1"
  shows "\<exists>l' h'. push_front off item (l, h) = (Inr (), l', h') \<and> dlist l' h' (node # xs)
    \<and> (\<forall>y. y \<notin> set (node # xs) \<longrightarrow> h' y = h y)"
proof -
  have new: "node \<notin> set xs"
    using dlist_next [OF d] n(2) by blast
  show ?thesis
  proof (cases xs)
    case Nil
    with d n show ?thesis
      by (auto simp: push_front_def dlist_def max_def Let_def)
  next
    case (Cons x ys)
    have "x > 1" "il_first l = x"
      using dlist_first d Cons by auto
    moreover have "dseg (h(node := r, x := q)) x ys 1" for r q
      by (rule dseg_cong [of h]) (use d Cons new in \<open>auto simp: dlist_def\<close>)
    ultimately show ?thesis
      using d n new Cons by (auto simp: push_front_def dlist_def Let_def)
  qed
qed

lemma push_front_busy:
  "nd_next (h (list_node off item)) \<noteq> 0 \<Longrightarrow> push_front off item (l, h) = (Inl (), l, h)"
  "nd_next (h (list_node off item)) \<noteq> 0 \<Longrightarrow> push_back off item (l, h) = (Inl (), l, h)"
  by (simp_all add: push_front_def push_back_def Let_def)

lemma push_back_ok:
  assumes d: "dlist l h xs" and n: "node = list_node off item" "nd_next (h node) = 0" "node > 1"
  shows "\<exists>l' h'. push_back off item (l, h) = (Inr (), l', h') \<and> dlist l' h' (xs @ [node])
    \<and> (\<forall>y. y \<notin> set (node # xs) \<longrightarrow> h' y = h y)"
proof -
  have new: "node \<notin> set xs"
    using dlist_next [OF d] n(2) by blast
  show ?thesis
  proof (cases xs rule: rev_cases)
    case Nil
    with d n show ?thesis
      by (auto simp: push_back_def dlist_def max_def Let_def)
  next
    case (snoc ys x)
    have "x > 1" "il_last l = x"
      using dlist_last d snoc by auto
    moreover have "dseg (h(node := r, x := q)) 1 ys x" for r q
      by (rule dseg_cong [of h]) (use d snoc new in \<open>auto simp: dlist_def dseg_append\<close>)
    ultimately show ?thesis
      using d n new snoc by (auto simp: push_back_def dlist_def dseg_append Let_def)
  qed
qed

lemma pop_front_ok:
  assumes d: "dlist l h (x # xs)"
  shows "\<exists>l' h'. pop_front off (l, h) = (Some (from_node off x), l', h') \<and> dlist l' h' xs
    \<and> h' x = InvasiveListNode_new \<and> (\<forall>y. y \<notin> set (x # xs) \<longrightarrow> h' y = h y)"
proof (cases xs)
  case Nil
  with d show ?thesis
    by (auto simp: pop_front_def dlist_def Let_def)
next
  case (Cons z ys)
  have "dseg (h(z := q, x := r)) z ys 1" for r q
    by (rule dseg_cong [of h]) (use d Cons in \<open>auto simp: dlist_def\<close>)
  then show ?thesis
    using d Cons by (auto simp: pop_front_def dlist_def Let_def)
qed

lemma pop_back_ok:
  assumes d: "dlist l h (xs @ [x])"
  shows "\<exists>l' h'. pop_back off (l, h) = (Some (from_node off x), l', h') \<and> dlist l' h' xs
    \<and> h' x = InvasiveListNode_new \<and> (\<forall>y. y \<notin> set (x # xs) \<longrightarrow> h' y = h y)"
proof (cases xs rule: rev_cases)
  case Nil
  with d show ?thesis
    by (auto simp: pop_back_def dlist_def Let_def)
next
  case (snoc ys z)
  have "dseg (h(z := q, x := r)) 1 ys z" for r q
    by (rule dseg_cong [of h]) (use d snoc in \<open>auto simp: dlist_def dseg_append\<close>)
  then show ?thesis
    using d snoc by (auto simp: pop_back_def dlist_def dseg_append Let_def)
qed

lemma list_remove_ok:
  assumes d: "dlist l h (xs @ x # ys)" and x: "x = list_node off item"
  shows "\<exists>l' h'. list_remove off item (l, h) = (l', h') \<and> dlist l' h' (xs @ ys)
    \<and> h' x = InvasiveListNode_new \<and> (\<forall>y. y \<notin> set (xs @ x # ys) \<longrightarrow> h' y = h y)"
proof -
  have p: "nd_prev (h x) = last_or 1 xs" "nd_next (h x) = hd_or 1 ys" "x > 1"
    using d by (auto simp: dlist_def dseg_append)
  show ?thesis
  proof (cases xs rule: rev_cases; cases ys)
    assume "xs = []" "ys = []"
    with d p x show ?thesis
      by (auto simp: list_remove_def dlist_def Let_def)
  next
    fix z zs assume c: "xs = []" "ys = z # zs"
    have "dseg (h(z := q, x := r)) z zs 1" for r q
      by (rule dseg_cong [of h]) (use d c in \<open>auto simp: dlist_def\<close>)
    with d p x c show ?thesis
      by (auto simp: list_remove_def dlist_def Let_def)
  next
    fix ws w assume c: "xs = ws @ [w]" "ys = []"
    have "dseg (h(w := q, x := r)) 1 ws w" for r q
      by (rule dseg_cong [of h]) (use d c in \<open>auto simp: dlist_def dseg_append\<close>)
    with d p x c show ?thesis
      by (auto simp: list_remove_def dlist_def dseg_append Let_def)
  next
    fix ws w z zs assume c: "xs = ws @ [w]" "ys = z # zs"
    have "dseg (h(z := a, w := q, x := r)) 1 ws w" "dseg (h(z := a, w := q, x := r)) z zs 1" for a r q
      by (rule dseg_cong [of h], use d c in \<open>auto simp: dlist_def dseg_append\<close>)+
    with d p x c show ?thesis
      by (auto simp: list_remove_def dlist_def dseg_append Let_def)
  qed
qed

section \<open>The loops\<close>

lemma node_of_item [simp]: "list_node off (from_node off n) = n" "from_node off (list_node off x) = x"
  by (simp_all add: list_node_def from_node_def)

lemma list_node_inj [simp]: "list_node off x = list_node off y \<longleftrightarrow> x = y"
  by (simp add: list_node_def)

lemma list_node_image [simp]: "list_node off x \<in> list_node off ` A \<longleftrightarrow> x \<in> A"
  by auto

lemma list_fuel_enough: "distinct (xs :: u64 list) \<Longrightarrow> length xs < list_fuel"
  using slab_chain_fuel [of xs] by (simp add: list_fuel_def slab_fuel_def)

lemma iter_collect_eq:
  "dseg h p xs 1 \<Longrightarrow> length xs < fuel \<Longrightarrow> cur = hd_or c xs \<Longrightarrow> c \<le> 1 \<Longrightarrow>
     iter_collect fuel off h cur = Some (map (from_node off) xs)"
proof (induction fuel arbitrary: xs p cur c)
  case (Suc fuel)
  show ?case
  proof (cases xs)
    case (Cons x ys)
    with Suc.IH [of x ys "hd_or 1 ys" 1] Suc.prems show ?thesis
      by (simp add: iter_next_def)
  qed (use Suc.prems in \<open>simp add: iter_next_def\<close>)
qed simp

lemma contains_loop_eq:
  "dseg h p xs 1 \<Longrightarrow> length xs < fuel \<Longrightarrow> cur = hd_or c xs \<Longrightarrow> c \<le> 1 \<Longrightarrow>
     contains_loop fuel off h x cur = Some (list_node off x \<in> set xs)"
proof (induction fuel arbitrary: xs p cur c)
  case (Suc fuel)
  show ?case
  proof (cases xs)
    case (Cons y ys)
    have "from_node off y = x \<longleftrightarrow> list_node off x = y"
      by auto
    with Cons Suc.IH [of y ys "hd_or 1 ys" 1] Suc.prems show ?thesis
      by (simp add: iter_next_def)
  qed (use Suc.prems in \<open>simp add: iter_next_def\<close>)
qed simp

lemma consistency_loop_eq:
  "dseg h p xs 1 \<Longrightarrow> length xs < fuel \<Longrightarrow> cur = hd_or c xs \<Longrightarrow> c \<le> 1 \<Longrightarrow>
     k + length xs < 2 ^ 64 \<Longrightarrow> n = of_nat k \<Longrightarrow>
     consistency_loop fuel l h p cur n = Some (il_len l = of_nat (k + length xs))"
proof (induction fuel arbitrary: xs p cur c k n)
  case (Suc fuel)
  show ?case
  proof (cases xs)
    case (Cons y ys)
    have "(of_nat k + 1 :: usize) \<le> of_nat (k + length xs)"
      using Suc.prems(5) Cons by (simp add: word_le_nat_alt unat_of_nat unat_word_ariths)
    then have "\<not> n + 1 \<le> il_len l \<Longrightarrow> il_len l \<noteq> of_nat (k + length xs)"
      using Suc.prems(6) by auto
    with Cons Suc.IH [of y ys "hd_or 1 ys" 1 "Suc k" "n + 1"] Suc.prems show ?thesis
      by (auto simp: algebra_simps)
  qed (use Suc.prems in auto)
qed simp

lemma clear_loop_eq:
  "dseg h p xs 1 \<Longrightarrow> distinct xs \<Longrightarrow> length xs < fuel \<Longrightarrow> cur = hd_or c xs \<Longrightarrow> c \<le> 1 \<Longrightarrow>
     clear_loop fuel cur h = Some (\<lambda>x. if x \<in> set xs then InvasiveListNode_new else h x)"
proof (induction fuel arbitrary: xs p cur c h)
  case (Suc fuel)
  show ?case
  proof (cases xs)
    case (Cons y ys)
    define h1 where "h1 = h(y := \<lparr>nd_prev = 0, nd_next = 0\<rparr>)"
    have "dseg h1 y ys 1"
      by (rule dseg_cong [of h]) (use Suc.prems Cons in \<open>auto simp: h1_def\<close>)
    note ih = Suc.IH [OF this, of "hd_or 1 ys" 1]
    have "(\<lambda>x. if x \<in> set ys then InvasiveListNode_new else h1 x) =
        (\<lambda>x. if x \<in> set xs then InvasiveListNode_new else h x)"
      using Cons by (auto simp: fun_eq_iff InvasiveListNode_new_def h1_def)
    with Cons ih Suc.prems show ?thesis
      by (simp add: h1_def [symmetric])
  qed (use Suc.prems in simp)
qed simp

lemma dlist_loops:
  assumes d: "dlist l h xs"
  shows "list_iter off (l, h) = Some (map (from_node off) xs)"
    "list_contains off x (l, h) = Some (list_node off x \<in> set xs)"
    "length xs < 2 ^ 64 \<Longrightarrow> consistency_check (l\<lparr>il_len := n\<rparr>) h = Some (n = of_nat (length xs))"
    "clear (l, h) = Some (l\<lparr>il_first := 0, il_last := 0\<rparr>, \<lambda>x. if x \<in> set xs then InvasiveListNode_new else h x)"
proof -
  have s: "dseg h 1 xs 1" "distinct xs" "il_first l = hd_or 0 xs" "length xs < list_fuel"
    using d list_fuel_enough [of xs] by (auto simp: dlist_def)
  have z: "(0 :: u64) \<le> 1"
    by simp
  show "list_iter off (l, h) = Some (map (from_node off) xs)"
    by (simp add: list_iter_def iter_collect_eq [OF s(1,4,3) z])
  show "list_contains off x (l, h) = Some (list_node off x \<in> set xs)"
    using dlist_next [OF d] by (auto simp: list_contains_def contains_loop_eq [OF s(1,4,3) z])
  show "consistency_check (l\<lparr>il_len := n\<rparr>) h = Some (n = of_nat (length xs))" if "length xs < 2 ^ 64"
    using consistency_loop_eq [OF s(1,4,3) z, of 0 0 "l\<lparr>il_len := n\<rparr>"] that by (simp add: consistency_check_def)
  show "clear (l, h) = Some (l\<lparr>il_first := 0, il_last := 0\<rparr>, \<lambda>x. if x \<in> set xs then InvasiveListNode_new else h x)"
    by (simp add: clear_def clear_loop_eq [OF s(1,2,4,3) z])
qed

section \<open>A double-ended queue\<close>

text \<open>The contract the clients of the lists rely on.\<close>

locale deque =
  fixes pushf pushb :: "u64 \<Rightarrow> 's \<Rightarrow> (unit + unit) \<times> 's"
    and popf popb :: "'s \<Rightarrow> u64 option \<times> 's"
    and rep :: "'s \<Rightarrow> u64 list \<Rightarrow> bool"
    and item :: "u64 \<Rightarrow> bool"
  assumes rep_distinct: "rep s xs \<Longrightarrow> distinct xs"
    and rep_item: "rep s xs \<Longrightarrow> x \<in> set xs \<Longrightarrow> item x"
    and pushf_new: "rep s xs \<Longrightarrow> item x \<Longrightarrow> x \<notin> set xs \<Longrightarrow> \<exists>s'. pushf x s = (Inr (), s') \<and> rep s' (x # xs)"
    and pushf_old: "rep s xs \<Longrightarrow> x \<in> set xs \<Longrightarrow> \<exists>s'. pushf x s = (Inl (), s') \<and> rep s' xs"
    and pushb_new: "rep s xs \<Longrightarrow> item x \<Longrightarrow> x \<notin> set xs \<Longrightarrow> \<exists>s'. pushb x s = (Inr (), s') \<and> rep s' (xs @ [x])"
    and pushb_old: "rep s xs \<Longrightarrow> x \<in> set xs \<Longrightarrow> \<exists>s'. pushb x s = (Inl (), s') \<and> rep s' xs"
    and popf_Nil: "rep s [] \<Longrightarrow> popf s = (None, s)"
    and popf_Cons: "rep s (x # xs) \<Longrightarrow> \<exists>s'. popf s = (Some x, s') \<and> rep s' xs"
    and popb_Nil: "rep s [] \<Longrightarrow> popb s = (None, s)"
    and popb_snoc: "rep s (xs @ [x]) \<Longrightarrow> \<exists>s'. popb s = (Some x, s') \<and> rep s' xs"
begin

lemma pushb_all:
  "rep s xs \<Longrightarrow> distinct (xs @ ys) \<Longrightarrow> \<forall>y\<in>set ys. item y \<Longrightarrow>
     \<exists>s'. fold (\<lambda>y s. snd (pushb y s)) ys s = s' \<and> rep s' (xs @ ys)"
proof (induction ys arbitrary: s xs)
  case (Cons y ys)
  from pushb_new [OF Cons.prems(1), of y] Cons.prems obtain s' where
    s': "pushb y s = (Inr (), s')" "rep s' (xs @ [y])"
    by auto
  with Cons.IH [OF s'(2)] Cons.prems show ?case
    by auto
qed simp

text \<open>Taking the first item and putting it back behind the others rotates the queue.\<close>

lemma rotate_ok:
  assumes "rep s (x # xs)"
  shows "\<exists>s1 s2. popf s = (Some x, s1) \<and> pushb x s1 = (Inr (), s2) \<and> rep s2 (xs @ [x])"
proof -
  from popf_Cons [OF assms] obtain s1 where s1: "popf s = (Some x, s1)" "rep s1 xs"
    by blast
  from pushb_new [OF s1(2), of x] rep_distinct [OF assms] rep_item [OF assms, of x] s1(1) show ?thesis
    by auto
qed

end

text \<open>A list in which every node that is not linked is clear.\<close>

definition list_rep :: "u64 \<Rightarrow> InvasiveList \<times> node_heap \<Rightarrow> u64 list \<Rightarrow> bool" where
  "list_rep off s xs \<longleftrightarrow> dlist (fst s) (snd s) (map (list_node off) xs)
     \<and> (\<forall>y. y \<notin> list_node off ` set xs \<longrightarrow> snd s y = InvasiveListNode_new)"

definition list_item :: "u64 \<Rightarrow> u64 \<Rightarrow> bool" where
  "list_item off x \<longleftrightarrow> list_node off x > 1"

lemma list_repI:
  "dlist l h (map (list_node off) xs) \<Longrightarrow> (\<And>y. y \<notin> list_node off ` set xs \<Longrightarrow> h y = InvasiveListNode_new) \<Longrightarrow>
     list_rep off (l, h) xs"
  by (simp add: list_rep_def)

interpretation ilist: deque "push_front off" "push_back off" "pop_front off" "pop_back off" "list_rep off"
  "list_item off" for off :: u64
proof (unfold_locales, goal_cases)
  case (1 s xs)
  then show ?case by (auto simp: list_rep_def dlist_def distinct_map)
next
  case (2 s xs x)
  then show ?case
    using dlist_gt [of "fst s" "snd s" "map (list_node off) xs" "list_node off x"]
    by (simp add: list_rep_def list_item_def)
next
  case (3 s xs x)
  obtain l h where s: "s = (l, h)" by (cases s)
  have "dlist l h (map (list_node off) xs)" "nd_next (h (list_node off x)) = 0"
    using 3 s by (simp_all add: list_rep_def InvasiveListNode_new_def)
  from push_front_ok [OF this(1) refl this(2)] 3 s show ?case
    by (auto simp: list_rep_def list_item_def)
next
  case (4 s xs x)
  obtain l h where s: "s = (l, h)" by (cases s)
  have "nd_next (h (list_node off x)) \<noteq> 0"
    using 4 s dlist_next [of l h "map (list_node off) xs"] by (auto simp: list_rep_def)
  with 4 s show ?case by (simp add: push_front_busy)
next
  case (5 s xs x)
  obtain l h where s: "s = (l, h)" by (cases s)
  have "dlist l h (map (list_node off) xs)" "nd_next (h (list_node off x)) = 0"
    using 5 s by (simp_all add: list_rep_def InvasiveListNode_new_def)
  from push_back_ok [OF this(1) refl this(2)] 5 s show ?case
    by (auto simp: list_rep_def list_item_def)
next
  case (6 s xs x)
  obtain l h where s: "s = (l, h)" by (cases s)
  have "nd_next (h (list_node off x)) \<noteq> 0"
    using 6 s dlist_next [of l h "map (list_node off) xs"] by (auto simp: list_rep_def)
  with 6 s show ?case by (simp add: push_front_busy)
next
  case (7 s)
  then show ?case by (cases s) (auto simp: list_rep_def dlist_Nil pop_front_def InvasiveList_new_def)
next
  case (8 s x xs)
  obtain l h where s: "s = (l, h)" by (cases s)
  have "dlist l h (list_node off x # map (list_node off) xs)"
    using 8 s by (simp add: list_rep_def)
  from pop_front_ok [OF this, of off] 8 s show ?case
    by (fastforce simp: list_rep_def)
next
  case (9 s)
  then show ?case by (cases s) (auto simp: list_rep_def dlist_Nil pop_back_def InvasiveList_new_def)
next
  case (10 s xs x)
  obtain l h where s: "s = (l, h)" by (cases s)
  have "dlist l h (map (list_node off) xs @ [list_node off x])"
    using 10 s by (simp add: list_rep_def)
  from pop_back_ok [OF this, of off] 10 s show ?case
    by (fastforce simp: list_rep_def)
qed

section \<open>Runs\<close>

text \<open>
  The operations as a sequence of requests, on the linked list and on a plain list of
  items; \<^verbatim>\<open>remove\<close> is asked for through \<^verbatim>\<open>try_remove\<close>, since on an item outside the list
  it is undefined. \<^verbatim>\<open>clear\<close> does not reset the length, so the specification carries the
  excess of the reported length next to the items.
\<close>

datatype deque_op =
    PushFront u64 | PushBack u64 | PopFront | PopBack | TryRemove u64 | Front | Back | Contains u64 | Iter
  | Clear | Len | Check

datatype deque_out =
    Accepted | Refused | Item "u64 option" | Found bool | Items "u64 list" | Done | Size usize | Consistent bool

abbreviation pushed :: "unit + unit \<Rightarrow> deque_out" where
  "pushed r \<equiv> (case r of Inl _ \<Rightarrow> Refused | Inr _ \<Rightarrow> Accepted)"

fun list_step :: "u64 \<Rightarrow> deque_op \<Rightarrow> InvasiveList \<times> node_heap \<Rightarrow> (deque_out \<times> InvasiveList \<times> node_heap) option" where
  "list_step off (PushFront x) s = (let (r, s') = push_front off x s in Some (pushed r, s'))"
| "list_step off (PushBack x) s = (let (r, s') = push_back off x s in Some (pushed r, s'))"
| "list_step off PopFront s = (let (r, s') = pop_front off s in Some (Item r, s'))"
| "list_step off PopBack s = (let (r, s') = pop_back off s in Some (Item r, s'))"
| "list_step off (TryRemove x) s = Some (Done, try_remove off x s)"
| "list_step off Front s = Some (Item (list_front off (fst s)), s)"
| "list_step off Back s = Some (Item (list_back off (fst s)), s)"
| "list_step off (Contains x) s = map_option (\<lambda>b. (Found b, s)) (list_contains off x s)"
| "list_step off Iter s = map_option (\<lambda>ys. (Items ys, s)) (list_iter off s)"
| "list_step off Clear s = map_option (Pair Done) (clear s)"
| "list_step off Len s = Some (Size (il_len (fst s)), s)"
| "list_step off Check s = map_option (\<lambda>b. (Consistent b, s)) (consistency_check (fst s) (snd s))"

fun deque_spec :: "deque_op \<Rightarrow> u64 list \<times> usize \<Rightarrow> deque_out \<times> u64 list \<times> usize" where
  "deque_spec (PushFront x) (xs, e) = (if x \<in> set xs then (Refused, xs, e) else (Accepted, x # xs, e))"
| "deque_spec (PushBack x) (xs, e) = (if x \<in> set xs then (Refused, xs, e) else (Accepted, xs @ [x], e))"
| "deque_spec PopFront (xs, e) = (case xs of [] \<Rightarrow> (Item None, [], e) | x # ys \<Rightarrow> (Item (Some x), ys, e))"
| "deque_spec PopBack (xs, e) = (if xs = [] then (Item None, [], e) else (Item (Some (last xs)), butlast xs, e))"
| "deque_spec (TryRemove x) (xs, e) = (Done, remove1 x xs, e)"
| "deque_spec Front (xs, e) = (Item (if xs = [] then None else Some (hd xs)), xs, e)"
| "deque_spec Back (xs, e) = (Item (if xs = [] then None else Some (last xs)), xs, e)"
| "deque_spec (Contains x) (xs, e) = (Found (x \<in> set xs), xs, e)"
| "deque_spec Iter (xs, e) = (Items xs, xs, e)"
| "deque_spec Clear (xs, e) = (Done, [], e + of_nat (length xs))"
| "deque_spec Len (xs, e) = (Size (of_nat (length xs) + e), xs, e)"
| "deque_spec Check (xs, e) = (Consistent (e = 0), xs, e)"

fun op_item :: "u64 \<Rightarrow> deque_op \<Rightarrow> bool" where
  "op_item off (PushFront x) = list_item off x"
| "op_item off (PushBack x) = list_item off x"
| "op_item off _ = True"

primrec list_run ::
    "u64 \<Rightarrow> deque_op list \<Rightarrow> InvasiveList \<times> node_heap \<Rightarrow> (deque_out list \<times> InvasiveList \<times> node_heap) option" where
  "list_run off [] s = Some ([], s)"
| "list_run off (p # ps) s =
     (case list_step off p s of
        None \<Rightarrow> None
      | Some (r, s1) \<Rightarrow> map_option (\<lambda>(rs, s2). (r # rs, s2)) (list_run off ps s1))"

primrec deque_run :: "deque_op list \<Rightarrow> u64 list \<times> usize \<Rightarrow> deque_out list \<times> u64 list \<times> usize" where
  "deque_run [] q = ([], q)"
| "deque_run (p # ps) q = (let (r, q1) = deque_spec p q; (rs, q2) = deque_run ps q1 in (r # rs, q2))"

lemma linked_is_in_list:
  assumes "dlist l h (map (list_node off) xs)" "x \<in> set xs"
  shows "is_in_list (h (list_node off x))"
proof -
  from assms(2) obtain as bs where xs: "xs = as @ x # bs"
    by (auto dest: split_list)
  have d': "dlist l h (map (list_node off) as @ list_node off x # map (list_node off) bs)"
    using assms(1) xs by simp
  then have "nd_prev (h (list_node off x)) = last_or 1 (map (list_node off) as)"
    by (auto simp: dlist_def dseg_append)
  moreover have "last_or 1 (map (list_node off) as) \<noteq> 0"
    using d' by (cases as rule: rev_cases) (auto simp: dlist_def dseg_append)
  ultimately show ?thesis
    by (simp add: is_in_list_def)
qed

lemma try_remove_ok:
  assumes r: "list_rep off s xs"
  shows "list_rep off (try_remove off x s) (remove1 x xs)"
proof -
  obtain l h where s: "s = (l, h)" by (cases s)
  have d: "dlist l h (map (list_node off) xs)" "\<forall>y. y \<notin> list_node off ` set xs \<longrightarrow> h y = InvasiveListNode_new"
    using r s by (simp_all add: list_rep_def)
  show ?thesis
  proof (cases "x \<in> set xs")
    case True
    then obtain as bs where xs: "xs = as @ x # bs" "x \<notin> set as"
      by (auto dest: split_list_first)
    have x: "x \<notin> set bs"
      using ilist.rep_distinct [OF r] xs by simp
    have d': "dlist l h (map (list_node off) as @ list_node off x # map (list_node off) bs)"
      using d(1) xs by simp
    have "is_in_list (h (list_node off x))"
      by (rule linked_is_in_list [OF d(1) True])
    moreover from list_remove_ok [OF d' refl] obtain l' h' where
      "list_remove off x (l, h) = (l', h')" "dlist l' h' (map (list_node off) (as @ bs))"
      "h' (list_node off x) = InvasiveListNode_new"
      "\<forall>y. y \<notin> list_node off ` set xs \<longrightarrow> h' y = h y"
      using xs(1) by (auto simp: image_Un)
    ultimately show ?thesis
      using s xs d(2) x by (auto simp: try_remove_def list_rep_def remove1_append)
  next
    case False
    then have "\<not> is_in_list (h (list_node off x))"
      using d(2) by (simp add: is_in_list_def InvasiveListNode_new_def)
    with r s False show ?thesis
      by (simp add: try_remove_def remove1_idem)
  qed
qed

lemma list_rep_short: "list_rep off (l, h) xs \<Longrightarrow> length xs < 2 ^ 64"
proof -
  assume r: "list_rep off (l, h) xs"
  have "distinct (map (list_node off) xs)" "0 \<notin> set (map (list_node off) xs)"
    using r dlist_gt [of l h "map (list_node off) xs" 0] by (auto simp: list_rep_def dlist_def)
  then have "length xs = card (set (map (list_node off) xs))"
    by (metis distinct_card length_map)
  also have "\<dots> < card (UNIV :: u64 set)"
    by (rule psubset_card_mono) (use \<open>0 \<notin> _\<close> in auto)
  also have "\<dots> = 2 ^ 64"
    by (simp add: card_word)
  finally show ?thesis by simp
qed

text \<open>No operation but \<^verbatim>\<open>len\<close> and the check looks at the length.\<close>

definition with_excess :: "usize \<Rightarrow> InvasiveList \<times> node_heap \<Rightarrow> InvasiveList \<times> node_heap" where
  "with_excess e s = ((fst s)\<lparr>il_len := il_len (fst s) + e\<rparr>, snd s)"

lemma with_excess_ops:
  "push_front off x (with_excess e s) = (let (r, s') = push_front off x s in (r, with_excess e s'))"
  "push_back off x (with_excess e s) = (let (r, s') = push_back off x s in (r, with_excess e s'))"
  "pop_front off (with_excess e s) = (let (r, s') = pop_front off s in (r, with_excess e s'))"
  "pop_back off (with_excess e s) = (let (r, s') = pop_back off s in (r, with_excess e s'))"
  "try_remove off x (with_excess e s) = with_excess e (try_remove off x s)"
  "list_contains off x (with_excess e s) = list_contains off x s"
  "list_iter off (with_excess e s) = list_iter off s"
  "list_front off (fst (with_excess e s)) = list_front off (fst s)"
  "list_back off (fst (with_excess e s)) = list_back off (fst s)"
  by (cases s; simp add: with_excess_def push_front_def push_back_def pop_front_def pop_back_def try_remove_def list_remove_def
      list_contains_def list_iter_def list_front_def list_back_def Let_def algebra_simps)+

definition deque_rep :: "u64 \<Rightarrow> InvasiveList \<times> node_heap \<Rightarrow> u64 list \<times> usize \<Rightarrow> bool" where
  "deque_rep off s q \<longleftrightarrow> (\<exists>s0. s = with_excess (snd q) s0 \<and> list_rep off s0 (fst q))"

lemma deque_repI: "list_rep off s xs \<Longrightarrow> deque_rep off (with_excess e s) (xs, e)"
  unfolding deque_rep_def fst_conv snd_conv by blast

lemma list_step_ok:
  assumes q: "deque_rep off s q" and p: "op_item off p"
  shows "\<exists>s'. list_step off p s = Some (fst (deque_spec p q), s') \<and> deque_rep off s' (snd (deque_spec p q))"
proof -
  obtain xs e where qe: "q = (xs, e)" by (cases q)
  obtain l h where s: "s = with_excess e (l, h)" and r: "list_rep off (l, h) xs"
    using q qe by (auto simp: deque_rep_def)
  have d: "dlist l h (map (list_node off) xs)"
    using r by (simp add: list_rep_def)
  note defs = s qe with_excess_ops Let_def
  show ?thesis
  proof (cases p)
    case (PushFront x)
    with ilist.pushf_new [OF r, of x] ilist.pushf_old [OF r, of x] p r show ?thesis
      by (cases "x \<in> set xs") (auto simp: defs simp del: split_paired_Ex intro: deque_repI)
  next
    case (PushBack x)
    with ilist.pushb_new [OF r, of x] ilist.pushb_old [OF r, of x] p r show ?thesis
      by (cases "x \<in> set xs") (auto simp: defs simp del: split_paired_Ex intro: deque_repI)
  next
    case PopFront
    with ilist.popf_Nil [of off "(l, h)"] ilist.popf_Cons [of off "(l, h)" "hd xs" "tl xs"] r show ?thesis
      by (cases xs) (auto simp: defs simp del: split_paired_Ex intro: deque_repI)
  next
    case PopBack
    with ilist.popb_Nil [of off "(l, h)"] ilist.popb_snoc [of off "(l, h)" "butlast xs" "last xs"] r show ?thesis
      by (cases xs rule: rev_cases) (auto simp: defs simp del: split_paired_Ex intro: deque_repI)
  next
    case (TryRemove x)
    with try_remove_ok [OF r, of x] show ?thesis
      by (auto simp: defs simp del: split_paired_Ex intro: deque_repI)
  next
    case Front
    have "list_front off l = (if xs = [] then None else Some (hd xs))"
      using d by (cases xs) (auto simp: list_front_def dlist_def)
    with Front r show ?thesis
      by (auto simp: defs simp del: split_paired_Ex intro: deque_repI)
  next
    case Back
    have "list_back off l = (if xs = [] then None else Some (last xs))"
      using d dlist_last [of l h "map (list_node off) (butlast xs)" "list_node off (last xs)"]
      by (cases xs rule: rev_cases) (auto simp: list_back_def dlist_def)
    with Back r show ?thesis
      by (auto simp: defs simp del: split_paired_Ex intro: deque_repI)
  next
    case (Contains x)
    with dlist_loops(2) [OF d, of off x] r show ?thesis
      by (auto simp: defs simp del: split_paired_Ex intro: deque_repI)
  next
    case Iter
    with dlist_loops(1) [OF d] r show ?thesis
      by (auto simp: defs comp_def simp del: split_paired_Ex intro: deque_repI)
  next
    case Clear
    let ?h = "\<lambda>x. if x \<in> list_node off ` set xs then InvasiveListNode_new else h x"
    have "clear (with_excess e (l, h)) = Some (with_excess (e + of_nat (length xs)) (InvasiveList_new, ?h))"
      using dlist_loops(4) [OF d] d by (auto simp: clear_def with_excess_def dlist_def InvasiveList_new_def)
    moreover have "list_rep off (InvasiveList_new, ?h) []"
      using r by (auto simp: list_rep_def dlist_Nil)
    ultimately show ?thesis
      using Clear by (auto simp: s qe simp del: split_paired_Ex intro: deque_repI)
  next
    case Len
    have "il_len (fst s) = of_nat (length xs) + e"
      using d by (simp add: s with_excess_def dlist_def)
    with Len r show ?thesis
      by (auto simp: s qe simp del: split_paired_Ex intro: deque_repI)
  next
    case Check
    have "consistency_check (fst s) (snd s) = Some (e = 0)"
      using dlist_loops(3) [OF d] list_rep_short [OF r] d by (simp add: s with_excess_def dlist_def)
    with Check r show ?thesis
      by (auto simp: s qe simp del: split_paired_Ex intro: deque_repI)
  qed
qed

lemma list_run_ok:
  "deque_rep off s q \<Longrightarrow> \<forall>p\<in>set ps. op_item off p \<Longrightarrow>
     \<exists>s'. list_run off ps s = Some (fst (deque_run ps q), s') \<and> deque_rep off s' (snd (deque_run ps q))"
proof (induction ps arbitrary: s q)
  case (Cons p ps)
  from list_step_ok [OF Cons.prems(1), of p] Cons.prems(2) obtain s1 where
    1: "list_step off p s = Some (fst (deque_spec p q), s1)" "deque_rep off s1 (snd (deque_spec p q))"
    by auto
  from Cons.IH [OF 1(2)] Cons.prems(2) 1(1) show ?case
    by (auto simp: Let_def split: prod.splits)
qed simp

section \<open>Ownership\<close>

definition owned_rep :: "u64 \<Rightarrow> 'z owned_list_scheme \<Rightarrow> u64 list \<Rightarrow> bool" where
  "owned_rep off s xs \<longleftrightarrow> list_rep off (inner s, nodes s) xs"

lemma Arc_pops:
  "Arc_pop_front off s = with_inner (pop_front off (inner s, nodes s)) s"
  "Arc_pop_back off s = with_inner (pop_back off (inner s, nodes s)) s"
  by (simp_all add: Arc_pop_front_def Arc_pop_back_def)

text \<open>The list of an \<^verbatim>\<open>Arc\<close> is a double-ended queue too, whatever the counts are.\<close>

interpretation arc: deque "Arc_push_front off" "Arc_push_back off" "Arc_pop_front off" "Arc_pop_back off"
  "owned_rep off" "list_item off" for off :: u64
proof (unfold_locales, goal_cases)
  case (1 s xs)
  then show ?case unfolding owned_rep_def by (rule ilist.rep_distinct)
next
  case (2 s xs x)
  then show ?case unfolding owned_rep_def by (rule ilist.rep_item)
next
  case (3 s xs x)
  with ilist.pushf_new [of off "(inner s, nodes s)" xs x] show ?case
    by (auto simp: owned_rep_def Arc_push_front_def with_inner_def)
next
  case (4 s xs x)
  with ilist.pushf_old [of off "(inner s, nodes s)" xs x] show ?case
    by (auto simp: owned_rep_def Arc_push_front_def with_inner_def arc_drop_def)
next
  case (5 s xs x)
  with ilist.pushb_new [of off "(inner s, nodes s)" xs x] show ?case
    by (auto simp: owned_rep_def Arc_push_back_def with_inner_def)
next
  case (6 s xs x)
  with ilist.pushb_old [of off "(inner s, nodes s)" xs x] show ?case
    by (auto simp: owned_rep_def Arc_push_back_def with_inner_def arc_drop_def)
next
  case (7 s)
  with ilist.popf_Nil [of off "(inner s, nodes s)"] show ?case
    by (auto simp: owned_rep_def Arc_pops with_inner_def)
next
  case (8 s x xs)
  with ilist.popf_Cons [of off "(inner s, nodes s)" x xs] show ?case
    by (auto simp: owned_rep_def Arc_pops with_inner_def)
next
  case (9 s)
  with ilist.popb_Nil [of off "(inner s, nodes s)"] show ?case
    by (auto simp: owned_rep_def Arc_pops with_inner_def)
next
  case (10 s xs x)
  with ilist.popb_snoc [of off "(inner s, nodes s)" xs x] show ?case
    by (auto simp: owned_rep_def Arc_pops with_inner_def)
qed

lemma Arc_strong:
  "Arc_push_front off x s = (r, s') \<Longrightarrow>
     strong s' = (case r of Inl _ \<Rightarrow> (strong s)(x := strong s x - 1) | Inr _ \<Rightarrow> strong s)"
  "Arc_push_back off x s = (r, s') \<Longrightarrow>
     strong s' = (case r of Inl _ \<Rightarrow> (strong s)(x := strong s x - 1) | Inr _ \<Rightarrow> strong s)"
  "Arc_pop_front off s = (p, s') \<Longrightarrow> strong s' = strong s"
  "Arc_pop_back off s = (p, s') \<Longrightarrow> strong s' = strong s"
  by (auto simp: Arc_push_front_def Arc_push_back_def Arc_pops with_inner_def arc_drop_def Let_def
      split: prod.splits sum.splits)

lemma Arc_clear_loop_eq:
  "dseg (nodes s) p (map (list_node off) xs) 1 \<Longrightarrow> distinct xs \<Longrightarrow> length xs < fuel \<Longrightarrow>
   cur = hd_or c (map (list_node off) xs) \<Longrightarrow> c \<le> 1 \<Longrightarrow>
     Arc_clear_loop fuel off cur s = Some (s\<lparr>nodes := (\<lambda>y. if y \<in> list_node off ` set xs then InvasiveListNode_new else nodes s y),
       strong := (\<lambda>x. if x \<in> set xs then strong s x - 1 else strong s x)\<rparr>)"
proof (induction fuel arbitrary: xs p cur c s)
  case (Suc fuel)
  show ?case
  proof (cases xs)
    case (Cons x ys)
    let ?y = "list_node off x"
    define s1 where "s1 = arc_drop x (s\<lparr>nodes := (nodes s)(?y := \<lparr>nd_prev = 0, nd_next = 0\<rparr>)\<rparr>)"
    have n1: "nodes s1 = (nodes s)(?y := InvasiveListNode_new)" "strong s1 = (strong s)(x := strong s x - 1)"
      by (simp_all add: s1_def arc_drop_def InvasiveListNode_new_def)
    have "dseg (nodes s1) ?y (map (list_node off) ys) 1"
      by (rule dseg_cong [of "nodes s"]) (use Suc.prems Cons in \<open>auto simp: n1\<close>)
    note ih = Suc.IH [OF this, of "hd_or 1 (map (list_node off) ys)" 1]
    have "(\<lambda>y. if y \<in> list_node off ` set ys then InvasiveListNode_new else nodes s1 y) =
        (\<lambda>y. if y \<in> list_node off ` set xs then InvasiveListNode_new else nodes s y)"
      "(\<lambda>z. if z \<in> set ys then strong s1 z - 1 else strong s1 z) =
        (\<lambda>z. if z \<in> set xs then strong s z - 1 else strong s z)"
      using Cons Suc.prems(2) by (auto simp: fun_eq_iff n1)
    moreover have "s1\<lparr>nodes := a, strong := b\<rparr> = s\<lparr>nodes := a, strong := b\<rparr>" for a b
      by (simp add: s1_def arc_drop_def)
    ultimately show ?thesis
      using Cons ih Suc.prems by (simp add: s1_def [symmetric] Let_def)
  qed (use Suc.prems in simp)
qed simp

lemma Arc_clear_ok:
  assumes r: "owned_rep off s xs"
  shows "\<exists>s'. Arc_clear off s = Some s' \<and> owned_rep off s' []
     \<and> strong s' = (\<lambda>x. if x \<in> set xs then strong s x - 1 else strong s x)"
proof -
  have d: "dlist (inner s) (nodes s) (map (list_node off) xs)" "distinct xs"
    "\<forall>y. y \<notin> list_node off ` set xs \<longrightarrow> nodes s y = InvasiveListNode_new"
    using r ilist.rep_distinct [of off _ xs] by (auto simp: owned_rep_def list_rep_def)
  have "dseg (nodes (s\<lparr>inner := InvasiveList_new\<rparr>)) 1 (map (list_node off) xs) 1"
    "il_first (inner s) = hd_or 0 (map (list_node off) xs)" "length xs < list_fuel" "(0 :: u64) \<le> 1"
    using d(1) list_fuel_enough [of xs] d(2) by (auto simp: dlist_def)
  from Arc_clear_loop_eq [OF this(1) d(2) this(3,2,4)] d(3) show ?thesis
    by (auto simp: Arc_clear_def owned_rep_def list_rep_def dlist_Nil)
qed

text \<open>
  Runs over an \<^verbatim>\<open>ArcInvasiveList\<close>: \<open>held\<close> counts the references outside the list.
  Pushing gives one up, popping takes one back, \<^verbatim>\<open>clone\<close> and \<^verbatim>\<open>drop\<close> happen outside.
  \<^verbatim>\<open>remove\<close> unlinks an item and gives the reference the list held to nobody: \<open>lost\<close>
  counts these.
\<close>

inductive arc_run :: "u64 \<Rightarrow> owned_list \<Rightarrow> u64 list \<Rightarrow> (u64 \<Rightarrow> nat) \<Rightarrow> (u64 \<Rightarrow> nat) \<Rightarrow> bool" for off where
  arc_start: "arc_run off \<lparr>inner = InvasiveList_new, nodes = \<lambda>_. InvasiveListNode_new, strong = held, boxes = {}\<rparr> [] held (\<lambda>_. 0)"
| arc_clone: "arc_run off s xs held lost \<Longrightarrow> 0 < held x \<Longrightarrow>
    arc_run off (s\<lparr>strong := (strong s)(x := strong s x + 1)\<rparr>) xs (held(x := held x + 1)) lost"
| arc_release: "arc_run off s xs held lost \<Longrightarrow> 0 < held x \<Longrightarrow> arc_run off (arc_drop x s) xs (held(x := held x - 1)) lost"
| arc_push_front: "arc_run off s xs held lost \<Longrightarrow> 0 < held x \<Longrightarrow> list_item off x \<Longrightarrow> Arc_push_front off x s = (r, s') \<Longrightarrow>
    arc_run off s' (if r = Inr () then x # xs else xs) (held(x := held x - 1)) lost"
| arc_push_back: "arc_run off s xs held lost \<Longrightarrow> 0 < held x \<Longrightarrow> list_item off x \<Longrightarrow> Arc_push_back off x s = (r, s') \<Longrightarrow>
    arc_run off s' (if r = Inr () then xs @ [x] else xs) (held(x := held x - 1)) lost"
| arc_pop_front: "arc_run off s xs held lost \<Longrightarrow> Arc_pop_front off s = (Some x, s') \<Longrightarrow>
    arc_run off s' (tl xs) (held(x := held x + 1)) lost"
| arc_pop_back: "arc_run off s xs held lost \<Longrightarrow> Arc_pop_back off s = (Some x, s') \<Longrightarrow>
    arc_run off s' (butlast xs) (held(x := held x + 1)) lost"
| arc_clear: "arc_run off s xs held lost \<Longrightarrow> Arc_clear off s = Some s' \<Longrightarrow> arc_run off s' [] held lost"
| arc_remove: "arc_run off s xs held lost \<Longrightarrow> Arc_remove off x s = Some (Inr s') \<Longrightarrow>
    arc_run off s' (remove1 x xs) held (lost(x := lost x + 1))"

definition arc_counts :: "'z owned_list_scheme \<Rightarrow> u64 list \<Rightarrow> (u64 \<Rightarrow> nat) \<Rightarrow> (u64 \<Rightarrow> nat) \<Rightarrow> bool" where
  "arc_counts s xs held lost \<longleftrightarrow> (\<forall>x. strong s x = held x + (if x \<in> set xs then 1 else 0) + lost x)"

lemma Arc_remove_ok:
  assumes r: "owned_rep off s xs"
  shows "if x \<in> set xs
     then \<exists>s'. Arc_remove off x s = Some (Inr s') \<and> owned_rep off s' (remove1 x xs) \<and> strong s' = strong s
     else Arc_remove off x s = Some (Inl AssertFailed)"
proof -
  have l: "list_rep off (inner s, nodes s) xs" and d: "dlist (inner s) (nodes s) (map (list_node off) xs)"
    using r by (simp_all add: owned_rep_def list_rep_def)
  have c: "list_contains off x (inner s, nodes s) = Some (x \<in> set xs)"
    using dlist_loops(2) [OF d, of off x] by simp
  show ?thesis
  proof (cases "x \<in> set xs")
    case True
    with d have "is_in_list (nodes s (list_node off x))"
      by (rule linked_is_in_list)
    then have "try_remove off x (inner s, nodes s) = list_remove off x (inner s, nodes s)"
      by (simp add: try_remove_def)
    then have "list_rep off (list_remove off x (inner s, nodes s)) (remove1 x xs)"
      using try_remove_ok [OF l, of x] by simp
    with c True show ?thesis
      by (auto simp: Arc_remove_def owned_rep_def split: prod.splits)
  qed (use c in \<open>simp add: Arc_remove_def\<close>)
qed

lemma arc_run_inv: "arc_run off s xs held lost \<Longrightarrow> owned_rep off s xs \<and> arc_counts s xs held lost"
proof (induction rule: arc_run.induct)
  case (arc_start held)
  then show ?case by (simp add: owned_rep_def list_rep_def dlist_Nil arc_counts_def)
next
  case (arc_clone s xs held lost x)
  then show ?case by (simp add: owned_rep_def arc_counts_def)
next
  case (arc_release s xs held lost x)
  then show ?case by (auto simp: owned_rep_def arc_counts_def arc_drop_def)
next
  case (arc_push_front s xs held lost x r s')
  with arc.pushf_new [of off s xs x] arc.pushf_old [of off s xs x] Arc_strong(1) [of off x s r s'] show ?case
    by (cases "x \<in> set xs") (auto simp: arc_counts_def)
next
  case (arc_push_back s xs held lost x r s')
  with arc.pushb_new [of off s xs x] arc.pushb_old [of off s xs x] Arc_strong(2) [of off x s r s'] show ?case
    by (cases "x \<in> set xs") (auto simp: arc_counts_def)
next
  case (arc_pop_front s xs held lost x s')
  then have xs: "xs \<noteq> []"
    using arc.popf_Nil [of off s] by auto
  with arc_pop_front arc.popf_Cons [of off s "hd xs" "tl xs"] have "x = hd xs" "owned_rep off s' (tl xs)"
    by auto
  moreover have "x \<notin> set (tl xs)"
    using arc.rep_distinct [of off s xs] arc_pop_front xs \<open>x = hd xs\<close> by (cases xs) auto
  ultimately show ?case
    using arc_pop_front Arc_strong(3) [of off s "Some x" s'] xs by (cases xs) (auto simp: arc_counts_def)
next
  case (arc_pop_back s xs held lost x s')
  then have "xs \<noteq> []"
    using arc.popb_Nil [of off s] by auto
  then obtain ys y where xs: "xs = ys @ [y]"
    by (cases xs rule: rev_cases) auto
  with arc_pop_back arc.popb_snoc [of off s ys y] have "x = y" "owned_rep off s' ys"
    by auto
  moreover have "y \<notin> set ys"
    using arc.rep_distinct [of off s xs] arc_pop_back xs by auto
  ultimately show ?case
    using arc_pop_back Arc_strong(4) [of off s "Some x" s'] xs by (auto simp: arc_counts_def)
next
  case (arc_clear s xs held lost s')
  with Arc_clear_ok [of off s xs] show ?case
    by (auto simp: arc_counts_def)
next
  case (arc_remove s xs held lost x s')
  then have "x \<in> set xs"
    using Arc_remove_ok [of off s xs x] by (auto split: if_splits)
  with arc_remove Arc_remove_ok [of off s xs x] arc.rep_distinct [of off s xs] show ?case
    by (auto simp: arc_counts_def)
qed

section \<open>Properties\<close>

text \<open>
  C17: whatever sequence of pushes, pops, guarded removals, clears and queries is run on
  an empty \<^verbatim>\<open>InvasiveList\<close>, none loops and every answer is that of a double-ended queue
  of distinct items, an item that is already in the list being refused. The length
  reported is off by the number of items that \<^verbatim>\<open>clear\<close> threw away, and the list's own
  \<^verbatim>\<open>consistency_check\<close> passes exactly when that number is zero.
\<close>

theorem invasive_list_refines_deque:
  assumes "\<forall>p\<in>set ps. op_item off p" "deque_run ps ([], 0) = (outs, ys, e)"
  shows "\<exists>l h. list_run off ps (InvasiveList_new, \<lambda>_. InvasiveListNode_new) = Some (outs, l, h)
     \<and> list_iter off (l, h) = Some ys \<and> distinct ys \<and> il_len l = of_nat (length ys) + e
     \<and> consistency_check l h = Some (e = 0)"
proof -
  have "deque_rep off (InvasiveList_new, \<lambda>_. InvasiveListNode_new) ([], 0)"
    by (auto simp: deque_rep_def with_excess_def list_rep_def dlist_Nil InvasiveList_new_def
        intro!: exI [of _ "(InvasiveList_new, \<lambda>_. InvasiveListNode_new)"])
  from list_run_ok [OF this assms(1)] assms(2) obtain s where
    r: "list_run off ps (InvasiveList_new, \<lambda>_. InvasiveListNode_new) = Some (outs, s)" "deque_rep off s (ys, e)"
    by auto
  obtain s0 where s0: "s = with_excess e s0" "list_rep off s0 ys"
    using r(2) by (auto simp: deque_rep_def)
  have it: "list_iter off s = Some ys" "il_len (fst s) = of_nat (length ys) + e" "consistency_check (fst s) (snd s) = Some (e = 0)"
    using list_step_ok [OF r(2), of Iter] list_step_ok [OF r(2), of Len] list_step_ok [OF r(2), of Check] by auto
  show ?thesis
    using r(1) it ilist.rep_distinct [OF s0(2)] by (cases s) auto
qed

theorem invasive_list_refines_deque_witness:
  "\<exists>l h. list_run 16 [PushBack 0x1000, PushFront 0x2000, PushBack 0x1000, TryRemove 0x2000, Check, Clear, PushBack 0x2000, Len, PopFront,
         PopBack] (InvasiveList_new, \<lambda>_. InvasiveListNode_new)
     = Some ([Accepted, Accepted, Refused, Done, Consistent True, Done, Accepted, Size 2, Item (Some 0x2000), Item None], l, h)
     \<and> il_len l = 1 \<and> consistency_check l h = Some False"
proof -
  let ?ps = "[PushBack 0x1000, PushFront 0x2000, PushBack 0x1000, TryRemove 0x2000, Check, Clear, PushBack 0x2000, Len, PopFront, PopBack]"
  have "\<forall>p\<in>set ?ps. op_item 16 p"
    by (simp add: list_item_def list_node_def)
  moreover have "deque_run ?ps ([], 0) =
      ([Accepted, Accepted, Refused, Done, Consistent True, Done, Accepted, Size 2, Item (Some 0x2000), Item None], [], 1)"
    by simp
  ultimately obtain l h where "list_run 16 ?ps (InvasiveList_new, \<lambda>_. InvasiveListNode_new)
      = Some ([Accepted, Accepted, Refused, Done, Consistent True, Done, Accepted, Size 2, Item (Some 0x2000), Item None], l, h)"
    "il_len l = of_nat (length ([] :: u64 list)) + 1" "consistency_check l h = Some ((1 :: usize) = 0)"
    using invasive_list_refines_deque [of ?ps 16] by blast
  then show ?thesis
    by (intro exI [of _ l] exI [of _ h] conjI) (assumption, simp_all)
qed

text \<open>
  C18: in every run of an \<^verbatim>\<open>ArcInvasiveList\<close> the strong count of an item is the number of
  references outside the list, plus one while the item is inside, plus one for every
  time \<^verbatim>\<open>remove\<close> took it out: \<^verbatim>\<open>remove\<close> alone loses a reference, and no operation
  invents one. \<^verbatim>\<open>clear\<close>, which is also the drop of the list, always ends; \<^verbatim>\<open>remove\<close> takes
  out the items in the list and panics for any other.
\<close>

theorem arc_list_counts:
  assumes "arc_run off s xs held lost"
  shows "list_iter off (inner s, nodes s) = Some xs \<and> distinct xs
     \<and> (\<forall>x. strong s x = held x + (if x \<in> set xs then 1 else 0) + lost x) \<and> (\<exists>s'. Arc_clear off s = Some s')
     \<and> (\<forall>x. if x \<in> set xs then \<exists>s'. Arc_remove off x s = Some (Inr s') \<and> list_iter off (inner s', nodes s') = Some (remove1 x xs)
             else Arc_remove off x s = Some (Inl AssertFailed))"
proof -
  have r: "owned_rep off s xs" "arc_counts s xs held lost"
    using arc_run_inv [OF assms] by auto
  have it: "list_iter off (inner s', nodes s') = Some ys" if "owned_rep off s' ys" for s' :: owned_list and ys
    using that dlist_loops(1) [of "inner s'" "nodes s'" "map (list_node off) ys" off]
    by (simp add: owned_rep_def list_rep_def comp_def)
  have rm: "if x \<in> set xs then \<exists>s'. Arc_remove off x s = Some (Inr s') \<and> list_iter off (inner s', nodes s') = Some (remove1 x xs)
      else Arc_remove off x s = Some (Inl AssertFailed)" for x
    using Arc_remove_ok [OF r(1), of x] it by (auto split: if_splits)
  show ?thesis
    using it [OF r(1)] Arc_clear_ok [OF r(1)] r(2) arc.rep_distinct [OF r(1)] rm by (auto simp: arc_counts_def)
qed

lemma example_arc_run:
  "\<exists>s. arc_run 16 s [] ((\<lambda>_. 2)(0x1000 := 1)) ((\<lambda>_. 0)(0x1000 := 1))"
proof -
  let ?s = "\<lparr>inner = InvasiveList_new, nodes = \<lambda>_. InvasiveListNode_new, strong = \<lambda>_. 2, boxes = {}\<rparr>"
  have 0: "arc_run 16 ?s [] (\<lambda>_. 2) (\<lambda>_. 0)"
    by (rule arc_start)
  have it: "list_item 16 0x1000"
    by (simp add: list_item_def list_node_def)
  from arc.pushb_new [of 16 ?s "[]" "0x1000"] it arc_run_inv [OF 0] obtain s1 where
    s1: "Arc_push_back 16 0x1000 ?s = (Inr (), s1)"
    by auto
  have 1: "arc_run 16 s1 [0x1000] ((\<lambda>_. 2)(0x1000 := 1)) (\<lambda>_. 0)"
    using arc_push_back [OF 0 _ it s1] by simp
  from Arc_remove_ok [of 16 s1 "[0x1000]" "0x1000"] arc_run_inv [OF 1] obtain s2 where
    s2: "Arc_remove 16 0x1000 s1 = Some (Inr s2)"
    by auto
  from arc_remove [OF 1 s2] show ?thesis
    by auto
qed

theorem arc_list_counts_witness:
  "\<exists>s. arc_run 16 s [] ((\<lambda>_. 2)(0x1000 := 1)) ((\<lambda>_. 0)(0x1000 := 1)) \<and> strong s 0x1000 = 2 \<and> strong s 0x2000 = 2
     \<and> Arc_remove 16 0x1000 s = Some (Inl AssertFailed)"
proof -
  from example_arc_run obtain s where s: "arc_run 16 s [] ((\<lambda>_. 2)(0x1000 := 1)) ((\<lambda>_. 0)(0x1000 := 1))"
    by blast
  with arc_list_counts [OF s] show ?thesis
    by (intro exI [of _ s]) simp
qed

end
