(* ===== verification/X86Cpu.thy ===== *)
theory X86Cpu
  imports Prelude
begin

text \<open>
  The x86_64 processor tables and the interrupt path: segment descriptors
  (\<^verbatim>\<open>arch/x86_64/gdt/mod.rs\<close>), the task state segment (\<^verbatim>\<open>tss/mod.rs\<close>), interrupt
  gates, stubs and frames (\<^verbatim>\<open>idt/mod.rs\<close>), and the register contexts of threads
  (\<^verbatim>\<open>arch/x86_64/mod.rs\<close>). The views \<open>seg_*\<close>, \<open>tss_*\<close> and \<open>gate_*\<close> are what the
  processor reads out of the descriptors' bytes.
\<close>

unbundle bit_operations_syntax

section \<open>Segment descriptors\<close>

record GDTdesc =
  limit_low :: u16
  base_low :: u16
  base_mid :: u8
  access_byte :: u8
  flags_and_limhi :: u8
  base_hi :: u8

record gdtr =
  gdtr_size :: u16
  gdtr_offset :: u64

abbreviation u8_of_bool :: "bool \<Rightarrow> u8" where
  "u8_of_bool b \<equiv> (if b then 1 else 0)"

definition GDTdesc_new :: "bool \<Rightarrow> bool \<Rightarrow> bool \<Rightarrow> bool \<Rightarrow> bool \<Rightarrow> u8 \<Rightarrow> GDTdesc" where
  "GDTdesc_new p rw dc e s dpl = \<lparr>
     limit_low = 0xFFFF, base_low = 0, base_mid = 0,
     access_byte = push_bit 7 (u8_of_bool p) OR push_bit 1 (u8_of_bool rw) OR push_bit 2 (u8_of_bool dc)
       OR push_bit 3 (u8_of_bool e) OR push_bit 4 (u8_of_bool s) OR push_bit 5 dpl OR 1,
     flags_and_limhi = push_bit 7 1 OR push_bit 6 0 OR push_bit 5 1 OR 0xF,
     base_hi = 0\<rparr>"

record GDTtss =
  seg_lim :: u16
  base_addr_low :: u16
  base_addr_low_hi :: u8
  t_access_byte :: u8
  flags_and_lim :: u8
  base_addr_hi_low :: u8
  base_addr_hi_hi :: u32
  t_reserved :: u32

definition GDTtss_zeroed :: GDTtss where
  "GDTtss_zeroed = \<lparr>seg_lim = 0, base_addr_low = 0, base_addr_low_hi = 0, t_access_byte = 0, flags_and_lim = 0,
     base_addr_hi_low = 0, base_addr_hi_hi = 0, t_reserved = 0\<rparr>"

record tss =
  ts_reserved :: u32
  rsp0 :: u64
  rsp1 :: u64
  rsp2 :: u64
  reserved_1 :: u64
  ist1 :: u64
  ist2 :: u64
  ist3 :: u64
  ist4 :: u64
  ist5 :: u64
  ist6 :: u64
  ist7 :: u64
  reserved_2 :: u64
  reserved_3 :: u16
  iopb :: u16

text \<open>\<^verbatim>\<open>size_of::<tss>()\<close>: one 32 bit word, twelve 64 bit words, two 16 bit words, packed.\<close>

definition tss_bytes :: usize where
  "tss_bytes = 4 + 12 * 8 + 2 + 2"

definition tss_new :: tss where
  "tss_new = \<lparr>ts_reserved = 0, rsp0 = 0, rsp1 = 0, rsp2 = 0, reserved_1 = 0, ist1 = 0, ist2 = 0, ist3 = 0, ist4 = 0,
     ist5 = 0, ist6 = 0, ist7 = 0, reserved_2 = 0, reserved_3 = 0, iopb = ucast tss_bytes\<rparr>"

definition GDTtss_new :: "usize \<Rightarrow> GDTtss" where
  "GDTtss_new addr =
     (let limit = tss_bytes - 1
      in \<lparr>seg_lim = ucast (limit AND 0xFFFF), base_addr_low = ucast (addr AND 0xFFFF),
          base_addr_low_hi = ucast (drop_bit 16 addr AND 0xFF), t_access_byte = push_bit 7 1 OR 0x9,
          flags_and_lim = ucast (drop_bit 16 limit AND 0xF), base_addr_hi_low = ucast (drop_bit 24 addr AND 0xFF),
          base_addr_hi_hi = ucast (drop_bit 32 addr AND 0xFFFFFFFF), t_reserved = 0\<rparr>)"

record GdtTable =
  gdt_null :: GDTdesc
  kernelcode :: GDTdesc
  kerneldata :: GDTdesc
  userdata :: GDTdesc
  usercode :: GDTdesc
  gdt_tss :: GDTtss

definition GdtTable_new :: GdtTable where
  "GdtTable_new = \<lparr>
     gdt_null = \<lparr>limit_low = 0, base_low = 0, base_mid = 0, access_byte = 0, flags_and_limhi = 0, base_hi = 0\<rparr>,
     kernelcode = GDTdesc_new True True False True True 0,
     kerneldata = GDTdesc_new True True False False True 0,
     userdata = GDTdesc_new True True False False True 3,
     usercode = GDTdesc_new True True False True True 3,
     gdt_tss = GDTtss_zeroed\<rparr>"

text \<open>
  \<^verbatim>\<open>offset_of!\<close> and \<^verbatim>\<open>size_of\<close> of the \<^verbatim>\<open>repr(C, align(16))\<close> table: five descriptors
  of eight bytes and the sixteen of the task state segment, padded to 64.
\<close>

definition off_kernelcode :: u16 where "off_kernelcode = 8"
definition off_kerneldata :: u16 where "off_kerneldata = 16"
definition off_tss :: u16 where "off_tss = 40"
definition GdtTable_bytes :: usize where "GdtTable_bytes = 64"

text \<open>
  What the two initialisations leave in the processor: the table register, the
  segment selectors and the task register.
\<close>

record cpu_segments =
  cs_sel :: u16
  ds_sel :: u16
  es_sel :: u16
  fs_sel :: u16
  ss_sel :: u16
  gdt_reg :: gdtr
  task_reg :: u16

definition load_segments :: "gdtr \<Rightarrow> cpu_segments \<Rightarrow> cpu_segments" where
  "load_segments r c = c\<lparr>gdt_reg := r, cs_sel := off_kernelcode, ds_sel := off_kerneldata, es_sel := off_kerneldata,
     fs_sel := off_kerneldata, ss_sel := off_kerneldata\<rparr>"

definition ltss :: "u16 \<Rightarrow> cpu_segments \<Rightarrow> cpu_segments" where
  "ltss desc c = c\<lparr>task_reg := desc\<rparr>"

definition bsp_gdt_init :: "u64 \<Rightarrow> usize \<Rightarrow> GdtTable \<Rightarrow> cpu_segments \<Rightarrow> GdtTable \<times> cpu_segments" where
  "bsp_gdt_init table_addr tss_addr table c =
     (let table1 = table\<lparr>gdt_tss := GDTtss_new tss_addr\<rparr>;
          gdtrr = \<lparr>gdtr_size = ucast (GdtTable_bytes - 1), gdtr_offset = table_addr\<rparr>
      in (table1, ltss off_tss (load_segments gdtrr c)))"

definition ap_gdt_init :: "u64 \<Rightarrow> cpu_segments \<Rightarrow> cpu_segments" where
  "ap_gdt_init table_addr c =
     (let gdtrr = \<lparr>gdtr_size = ucast (GdtTable_bytes - 1), gdtr_offset = table_addr\<rparr>
      in ltss off_tss (load_segments gdtrr c))"

section \<open>Interrupt gates\<close>

record GateDesc =
  offset_lo :: u16
  seg_sel :: u16
  gd_ist :: u8
  gd_flags :: u8
  offset_mid :: u16
  offset_hi :: u32
  gd_reversed :: u32

record IDTR =
  idtr_size :: u16
  idtr_offset :: u64

definition INTERRUPT_GATE :: u8 where "INTERRUPT_GATE = 0xE"

definition GateDesc_new :: "u64 \<Rightarrow> u16 \<Rightarrow> u8 \<Rightarrow> u8 \<Rightarrow> u8 \<Rightarrow> GateDesc" where
  "GateDesc_new offset seg dpl gate_type ist = \<lparr>
     offset_lo = ucast offset AND 0xFFFF, seg_sel = seg, gd_ist = ist,
     gd_flags = push_bit 7 1 OR push_bit 6 (dpl AND 0x3) OR (gate_type AND 0xF),
     offset_mid = ucast (drop_bit 16 offset) AND 0xFFFF,
     offset_hi = ucast (drop_bit 32 offset) AND 0xFFFFFFFF, gd_reversed = 0\<rparr>"

text \<open>
  \<^verbatim>\<open>idt_init\<close> over the addresses of the 256 stubs; the timer vector gets a stack of
  its own. The assertion is an error branch. At the end the table register is
  loaded with the size and the address of the table.
\<close>

definition idt_static :: "GateDesc list" where
  "idt_static = replicate 256 (GateDesc_new 0 0 0 0 0)"

definition IDT_bytes :: usize where "IDT_bytes = 256 * 16"

definition idt_load :: "u64 \<Rightarrow> IDTR" where
  "idt_load idt_addr = \<lparr>idtr_size = ucast IDT_bytes - 1, idtr_offset = idt_addr\<rparr>"

definition idt_init :: "(nat \<Rightarrow> u64) \<Rightarrow> u64 \<Rightarrow> GateDesc list \<Rightarrow> panic + (GateDesc list \<times> IDTR)" where
  "idt_init stub idt_addr entries =
     (let e1 = fold (\<lambda>n es. es[n := GateDesc_new (stub n) off_kernelcode 0 INTERRUPT_GATE 0]) [0..<256] entries;
          e2 = e1[0x21 := (e1 ! 0x21)\<lparr>gd_ist := 1\<rparr>]
      in if seg_sel (e2 ! 0) = off_kernelcode then Inr (e2, idt_load idt_addr) else Inl AssertFailed)"

section \<open>Register contexts\<close>

text \<open>
  \<^verbatim>\<open>x86_64Context\<close>, \<^verbatim>\<open>repr(C)\<close>: 22 machine words, which \<^verbatim>\<open>bytemuck\<close> casts to and from
  slices of \<^verbatim>\<open>usize\<close>. \<open>ctx_words\<close> is that cast.
\<close>

record x86_64Context =
  c_r15 :: u64
  c_r14 :: u64
  c_r13 :: u64
  c_r12 :: u64
  c_r11 :: u64
  c_r10 :: u64
  c_r9 :: u64
  c_r8 :: u64
  c_rsi :: u64
  c_rdi :: u64
  c_rbp :: u64
  c_rdx :: u64
  c_rcx :: u64
  c_rbx :: u64
  c_rax :: u64
  c_int :: u64
  c_error :: u64
  c_rip :: u64
  c_cs :: u64
  c_rflags :: u64
  c_rsp :: u64
  c_ss :: u64

definition ctx_words :: "x86_64Context \<Rightarrow> usize list" where
  "ctx_words c = [c_r15 c, c_r14 c, c_r13 c, c_r12 c, c_r11 c, c_r10 c, c_r9 c, c_r8 c, c_rsi c, c_rdi c, c_rbp c,
     c_rdx c, c_rcx c, c_rbx c, c_rax c, c_int c, c_error c, c_rip c, c_cs c, c_rflags c, c_rsp c, c_ss c]"

definition ctx_of_words :: "usize list \<Rightarrow> x86_64Context option" where
  "ctx_of_words ws =
     (if length ws = 22 then Some \<lparr>c_r15 = ws ! 0, c_r14 = ws ! 1, c_r13 = ws ! 2, c_r12 = ws ! 3, c_r11 = ws ! 4, c_r10 = ws ! 5,
       c_r9 = ws ! 6, c_r8 = ws ! 7, c_rsi = ws ! 8, c_rdi = ws ! 9, c_rbp = ws ! 10, c_rdx = ws ! 11,
       c_rcx = ws ! 12, c_rbx = ws ! 13, c_rax = ws ! 14, c_int = ws ! 15, c_error = ws ! 16, c_rip = ws ! 17,
       c_cs = ws ! 18, c_rflags = ws ! 19, c_rsp = ws ! 20, c_ss = ws ! 21\<rparr>
      else None)"

definition N_CPUREGS_x86 :: nat where "N_CPUREGS_x86 = 22"

definition instruction_ptr :: "x86_64Context \<Rightarrow> usize" where
  "instruction_ptr c = c_rip c"

definition is_user :: "x86_64Context \<Rightarrow> bool" where
  "is_user c \<longleftrightarrow> c_cs c AND 3 = 3"

definition Prepare_thread :: "usize list \<Rightarrow> usize \<Rightarrow> usize \<Rightarrow> bool \<Rightarrow> panic + usize list" where
  "Prepare_thread slic entry stack_ptr user =
     (if user then Inl Todo
      else case ctx_of_words slic of
        None \<Rightarrow> Inl UnwrapErr
      | Some meow \<Rightarrow> Inr (ctx_words (meow\<lparr>c_rip := entry, c_rsp := stack_ptr, c_cs := ucast off_kernelcode,
          c_ss := ucast off_kerneldata, c_rflags := 0x202\<rparr>)))"

definition set_interrupt_stack :: "usize \<Rightarrow> tss \<Rightarrow> tss" where
  "set_interrupt_stack stack_ptr t = t\<lparr>ist1 := stack_ptr\<rparr>"

section \<open>The interrupt stubs\<close>

text \<open>
  The processor enters a stub with \<open>ss\<close>, \<open>rsp\<close>, \<open>rflags\<close>, \<open>cs\<close>, \<open>rip\<close> and, for some
  vectors, an error code on the stack. The stub pushes the rest of the frame; the
  common return path pops it and executes \<^verbatim>\<open>iretq\<close>. The stack is the list of its
  words, topmost first; \<open>gs_swapped\<close> counts the executed \<^verbatim>\<open>swapgs\<close>.
\<close>

record cpu_regs =
  r_rax :: u64
  r_rbx :: u64
  r_rcx :: u64
  r_rdx :: u64
  r_rbp :: u64
  r_rdi :: u64
  r_rsi :: u64
  r_r8 :: u64
  r_r9 :: u64
  r_r10 :: u64
  r_r11 :: u64
  r_r12 :: u64
  r_r13 :: u64
  r_r14 :: u64
  r_r15 :: u64
  gs_swapped :: bool

definition has_error_code :: "nat \<Rightarrow> bool" where
  "has_error_code i \<longleftrightarrow> i = 8 \<or> 10 \<le> i \<and> i \<le> 14 \<or> i = 17 \<or> i = 21 \<or> i = 29 \<or> i = 30"

definition inter_stub :: "nat \<Rightarrow> cpu_regs \<Rightarrow> u64 list \<Rightarrow> cpu_regs \<times> u64 list" where
  "inter_stub i r st =
     (let st1 = (if has_error_code i then st else 0 # st);
          r1 = (if st1 ! 2 AND 3 \<noteq> 0 then r\<lparr>gs_swapped := \<not> gs_swapped r\<rparr> else r)
      in (r1, r_r15 r # r_r14 r # r_r13 r # r_r12 r # r_r11 r # r_r10 r # r_r9 r # r_r8 r # r_rsi r # r_rdi r
            # r_rbp r # r_rdx r # r_rcx r # r_rbx r # r_rax r # of_nat i # st1))"

definition inter_return :: "cpu_regs \<Rightarrow> u64 list \<Rightarrow> cpu_regs \<times> u64 list" where
  "inter_return r st =
     (let r1 = r\<lparr>r_r15 := st ! 0, r_r14 := st ! 1, r_r13 := st ! 2, r_r12 := st ! 3, r_r11 := st ! 4,
            r_r10 := st ! 5, r_r9 := st ! 6, r_r8 := st ! 7, r_rsi := st ! 8, r_rdi := st ! 9,
            r_rbp := st ! 10, r_rdx := st ! 11, r_rcx := st ! 12, r_rbx := st ! 13, r_rax := st ! 14\<rparr>;
          st1 = drop 17 st
      in (if st1 ! 1 AND 3 \<noteq> 0 then r1\<lparr>gs_swapped := \<not> gs_swapped r1\<rparr> else r1, st1))"

section \<open>What the processor pushes and reads\<close>

text \<open>
  The exceptions for which the processor pushes an error code, after the tables of
  the architecture manuals: double fault, invalid task state segment, segment not
  present, stack fault, general protection, page fault, alignment check, control
  protection, and the two of virtual machines and security.
\<close>

definition hw_error_codes :: "nat list" where
  "hw_error_codes = [8, 10, 11, 12, 13, 14, 17, 21, 29, 30]"

definition hw_frame :: "nat \<Rightarrow> u64 \<Rightarrow> u64 list \<Rightarrow> u64 list" where
  "hw_frame i err hw = (if i \<in> set hw_error_codes then err # hw else hw)"

definition seg_word :: "GDTdesc \<Rightarrow> u64" where
  "seg_word d = ucast (limit_low d) OR push_bit 16 (ucast (base_low d)) OR push_bit 32 (ucast (base_mid d))
     OR push_bit 40 (ucast (access_byte d)) OR push_bit 48 (ucast (flags_and_limhi d)) OR push_bit 56 (ucast (base_hi d))"

abbreviation "seg_writable w \<equiv> bit (w :: u64) 41"
abbreviation "seg_conforming_or_down w \<equiv> bit (w :: u64) 42"
abbreviation "seg_exec w \<equiv> bit (w :: u64) 43"
abbreviation "seg_user_type w \<equiv> bit (w :: u64) 44"
abbreviation "seg_present w \<equiv> bit (w :: u64) 47"
abbreviation "seg_long w \<equiv> bit (w :: u64) 53"
abbreviation "seg_size32 w \<equiv> bit (w :: u64) 54"

text \<open>Base and limit in bytes; with bit 55 set the limit counts pages of 4096 bytes.\<close>

definition seg_base :: "u64 \<Rightarrow> u64" where
  "seg_base w = (drop_bit 16 w AND 0xFFFFFF) OR push_bit 24 (drop_bit 56 w)"

definition seg_limit :: "u64 \<Rightarrow> u64" where
  "seg_limit w = (let l = (w AND 0xFFFF) OR (drop_bit 32 w AND 0xF0000) in if bit w 55 then l * 4096 + 4095 else l)"

definition seg_dpl :: "u64 \<Rightarrow> nat" where
  "seg_dpl w = unat (drop_bit 45 w AND 3)"

definition tss_words :: "GDTtss \<Rightarrow> u64 \<times> u64" where
  "tss_words t = (ucast (seg_lim t) OR push_bit 16 (ucast (base_addr_low t)) OR push_bit 32 (ucast (base_addr_low_hi t))
     OR push_bit 40 (ucast (t_access_byte t)) OR push_bit 48 (ucast (flags_and_lim t))
     OR push_bit 56 (ucast (base_addr_hi_low t)), ucast (base_addr_hi_hi t) OR push_bit 32 (ucast (t_reserved t)))"

definition tss_base :: "u64 \<times> u64 \<Rightarrow> u64" where
  "tss_base w = (drop_bit 16 (fst w) AND 0xFFFFFF) OR push_bit 24 (drop_bit 56 (fst w)) OR push_bit 32 (snd w)"

definition tss_limit :: "u64 \<times> u64 \<Rightarrow> u64" where
  "tss_limit w = (fst w AND 0xFFFF) OR (drop_bit 32 (fst w) AND 0xF0000)"

definition tss_type :: "u64 \<times> u64 \<Rightarrow> u64" where
  "tss_type w = drop_bit 40 (fst w) AND 0x1F"

definition gate_offset :: "GateDesc \<Rightarrow> u64" where
  "gate_offset g = ucast (offset_lo g) OR push_bit 16 (ucast (offset_mid g)) OR push_bit 32 (ucast (offset_hi g))"

definition gate_dpl :: "GateDesc \<Rightarrow> nat" where
  "gate_dpl g = unat (drop_bit 5 (gd_flags g) AND 3)"

definition gate_type :: "GateDesc \<Rightarrow> nat" where
  "gate_type g = unat (gd_flags g AND 0xF)"

abbreviation "gate_present g \<equiv> bit (gd_flags g) 7"

section \<open>Descriptor lemmas\<close>

text \<open>The assembler's condition in the stubs selects exactly the vectors with an error code.\<close>

lemma has_error_code_eq: "has_error_code i \<longleftrightarrow> i \<in> set hw_error_codes"
  unfolding has_error_code_def hw_error_codes_def by (simp, presburger)

lemma low_masks:
  "(0xFFFF :: u64) = mask 16" "(0xFF :: u64) = mask 8" "(0xFFFFFFFF :: u64) = mask 32" "(0xFFFFFF :: u64) = mask 24"
  "(0xFFFF :: u16) = mask 16" "(0xFFFFFFFF :: u32) = mask 32" "(0xF0000 :: u64) = push_bit 16 (mask 4)"
  "(0x1F :: u64) = mask 5"
  by (simp_all add: mask_eq_exp_minus_1)

lemma diff_less_nat: "(i :: nat) - a < b \<longleftrightarrow> 0 < b \<and> i < a + b"
  by auto

lemma tss_base_words:
  "tss_base (tss_words t) = ucast (base_addr_low t) OR push_bit 16 (ucast (base_addr_low_hi t))
     OR push_bit 24 (ucast (base_addr_hi_low t)) OR push_bit 32 (ucast (base_addr_hi_hi t))"
proof (rule bit_word_eqI)
  fix i assume "i < LENGTH(64)"
  then show "bit (tss_base (tss_words t)) i = bit (ucast (base_addr_low t) OR push_bit 16 (ucast (base_addr_low_hi t))
     OR push_bit 24 (ucast (base_addr_hi_low t)) OR push_bit 32 (ucast (base_addr_hi_hi t)) :: u64) i"
    unfolding tss_base_def tss_words_def low_masks
    by (cases "i < 16"; cases "i < 24"; cases "i < 32") (auto simp: bit_simps diff_less_nat dest: bit_imp_le_length)
qed

lemma bit_u8: "bit (x :: u8) i \<Longrightarrow> i < 8"
  using bit_imp_le_length [of x i] by simp

lemma bit_u16: "bit (x :: u16) i \<Longrightarrow> i < 16"
  using bit_imp_le_length [of x i] by simp

lemma bit_tss_word:
  "bit (fst (tss_words t)) i \<longleftrightarrow> i < 64 \<and>
     (if i < 16 then bit (seg_lim t) i else if i < 32 then bit (base_addr_low t) (i - 16)
      else if i < 40 then bit (base_addr_low_hi t) (i - 32) else if i < 48 then bit (t_access_byte t) (i - 40)
      else if i < 56 then bit (flags_and_lim t) (i - 48) else bit (base_addr_hi_low t) (i - 56))"
  unfolding tss_words_def
  by (cases "i < 16"; cases "i < 32"; cases "i < 40"; cases "i < 48"; cases "i < 56")
    (auto simp: bit_or_iff bit_push_bit_iff bit_ucast_iff dest: bit_u8 bit_u16)

lemma tss_fields_words:
  "tss_limit (tss_words t) = ucast (seg_lim t) OR push_bit 16 (ucast (flags_and_lim t) AND mask 4)"
  "tss_type (tss_words t) = ucast (t_access_byte t) AND mask 5"
  "seg_present (fst (tss_words t)) \<longleftrightarrow> bit (t_access_byte t) 7"
proof -
  show "tss_limit (tss_words t) = ucast (seg_lim t) OR push_bit 16 (ucast (flags_and_lim t) AND mask 4)"
  proof (rule bit_word_eqI)
    fix i assume "i < LENGTH(64)"
    then show "bit (tss_limit (tss_words t)) i =
        bit (ucast (seg_lim t) OR push_bit 16 (ucast (flags_and_lim t) AND mask 4) :: u64) i"
      unfolding tss_limit_def low_masks
      by (cases "i < 16"; cases "i < 20")
        (auto simp: bit_or_iff bit_and_iff bit_drop_bit_eq bit_push_bit_iff bit_mask_iff bit_ucast_iff bit_tss_word
          dest: bit_u8 bit_u16)
  qed
  show "tss_type (tss_words t) = ucast (t_access_byte t) AND mask 5"
  proof (rule bit_word_eqI)
    fix i assume "i < LENGTH(64)"
    then show "bit (tss_type (tss_words t)) i = bit (ucast (t_access_byte t) AND mask 5 :: u64) i"
      unfolding tss_type_def low_masks
      by (cases "i < 5") (auto simp: bit_and_iff bit_drop_bit_eq bit_mask_iff bit_ucast_iff bit_tss_word)
  qed
  show "seg_present (fst (tss_words t)) \<longleftrightarrow> bit (t_access_byte t) 7"
    by (simp add: bit_tss_word)
qed

lemma tss_base_new: "tss_base (tss_words (GDTtss_new addr)) = addr"
proof (rule bit_word_eqI)
  fix i assume "i < LENGTH(64)"
  then show "bit (tss_base (tss_words (GDTtss_new addr))) i = bit addr i"
    unfolding tss_base_words GDTtss_new_def Let_def low_masks
    by (cases "i < 16"; cases "i < 24"; cases "i < 32") (simp_all add: bit_simps diff_less_nat)
qed

lemma gate_offset_new: "gate_offset (GateDesc_new offset seg dpl ty ist) = offset"
proof (rule bit_word_eqI)
  fix i assume "i < LENGTH(64)"
  then show "bit (gate_offset (GateDesc_new offset seg dpl ty ist)) i = bit offset i"
    unfolding gate_offset_def GateDesc_new_def low_masks
    by (cases "i < 16"; cases "i < 32") (simp_all add: bit_simps diff_less_nat)
qed

lemma fold_update:
  "k \<le> length es \<Longrightarrow> fold (\<lambda>n es. es[n := f n]) [0..<k] es = map f [0..<k] @ drop k es"
proof (induction k)
  case (Suc k)
  then have "drop k es = es ! k # drop (Suc k) es"
    by (simp add: Cons_nth_drop_Suc)
  with Suc show ?case
    by (simp add: list_update_append)
qed simp

lemma ctx_roundtrip: "ctx_of_words (ctx_words c) = Some c"
  by (cases c) (simp add: ctx_of_words_def ctx_words_def)

lemma length_ctx_words [simp]: "length (ctx_words c) = 22"
  by (simp add: ctx_words_def)

section \<open>Properties\<close>

text \<open>
  C34: after \<^verbatim>\<open>bsp_gdt_init\<close> the processor finds, behind the selectors it loads, a
  present 64 bit ring 0 code segment and a present writable ring 0 data segment; the
  user segments are those of ring 3; all four start at 0 and reach to the end of the
  first 4 GiB; and the task register points to a present,
  available task state segment at exactly the address given, with its full size.
\<close>

theorem bsp_gdt_descriptors:
  fixes table_addr tss_addr :: u64 and c :: cpu_segments
  defines "r \<equiv> bsp_gdt_init table_addr tss_addr GdtTable_new c"
  defines "kc \<equiv> seg_word (kernelcode (fst r))" and "kd \<equiv> seg_word (kerneldata (fst r))"
    and "ud \<equiv> seg_word (userdata (fst r))" and "uc \<equiv> seg_word (usercode (fst r))"
    and "ts \<equiv> tss_words (gdt_tss (fst r))"
  shows "seg_word (gdt_null (fst r)) = 0 \<and> cs_sel (snd r) = 8 \<and> ss_sel (snd r) = 16 \<and> ds_sel (snd r) = 16
     \<and> es_sel (snd r) = 16 \<and> fs_sel (snd r) = 16
     \<and> list_all (\<lambda>w. seg_base w = 0 \<and> seg_limit w = 0xFFFFFFFF \<and> seg_user_type w \<and> \<not> seg_conforming_or_down w) [kc, kd, ud, uc]
     \<and> seg_present kc \<and> seg_user_type kc \<and> seg_exec kc \<and> seg_long kc \<and> \<not> seg_size32 kc \<and> seg_dpl kc = 0
     \<and> seg_present kd \<and> seg_user_type kd \<and> \<not> seg_exec kd \<and> seg_writable kd \<and> seg_dpl kd = 0
     \<and> seg_present ud \<and> \<not> seg_exec ud \<and> seg_writable ud \<and> seg_dpl ud = 3
     \<and> seg_present uc \<and> seg_exec uc \<and> seg_long uc \<and> \<not> seg_size32 uc \<and> seg_dpl uc = 3
     \<and> task_reg (snd r) = 40 \<and> tss_base ts = tss_addr \<and> tss_limit ts = tss_bytes - 1 \<and> tss_type ts = 9
     \<and> seg_present (fst ts)
     \<and> gdtr_offset (gdt_reg (snd r)) = table_addr \<and> unat (gdtr_size (gdt_reg (snd r))) = 63"
proof -
  have ts: "ts = tss_words (GDTtss_new tss_addr)"
    by (simp add: ts_def r_def bsp_gdt_init_def)
  have t: "tss_base ts = tss_addr" "tss_limit ts = tss_bytes - 1" "tss_type ts = 9" "seg_present (fst ts)"
    unfolding ts tss_base_new tss_fields_words
    by (simp_all add: GDTtss_new_def Let_def tss_bytes_def mask_eq_exp_minus_1 bit_simps)
  have d: "kc = 0xAF9B000000FFFF" "kd = 0xAF93000000FFFF" "ud = 0xAFF3000000FFFF" "uc = 0xAFFB000000FFFF"
    "seg_word (gdt_null (fst r)) = 0"
    unfolding kc_def kd_def ud_def uc_def r_def
    by (simp_all add: bsp_gdt_init_def GdtTable_new_def GDTdesc_new_def seg_word_def Let_def)
  show ?thesis
    unfolding d using t by (simp add: seg_dpl_def seg_base_def seg_limit_def bit_numeral_rec r_def bsp_gdt_init_def ltss_def load_segments_def off_kernelcode_def
        off_kerneldata_def off_tss_def GdtTable_bytes_def Let_def)
qed

text \<open>
  C35: \<^verbatim>\<open>idt_init\<close> enters all 256 stubs as present interrupt gates of the kernel code
  segment for ring 0, gives only the timer vector the interrupt stack, never
  trips its assertion, and loads the whole table.
\<close>

theorem idt_gates:
  "\<exists>es idtr. idt_init stub addr idt_static = Inr (es, idtr) \<and> length es = 256
     \<and> (\<forall>n<256. gate_offset (es ! n) = stub n \<and> seg_sel (es ! n) = off_kernelcode \<and> gate_present (es ! n)
          \<and> gate_type (es ! n) = 14 \<and> gate_dpl (es ! n) = 0 \<and> gd_ist (es ! n) = (if n = 0x21 then 1 else 0))
     \<and> idtr_offset idtr = addr \<and> unat (idtr_size idtr) = 256 * 16 - 1"
proof -
  let ?g = "\<lambda>n. GateDesc_new (stub n) off_kernelcode 0 INTERRUPT_GATE 0"
  let ?e = "map ?g [0..<256]"
  let ?es = "?e[0x21 := (?e ! 0x21)\<lparr>gd_ist := 1\<rparr>]"
  have e1: "fold (\<lambda>n es. es[n := ?g n]) [0..<256] idt_static = ?e"
    using fold_update [of 256 idt_static ?g] by (simp add: idt_static_def)
  have n0: "?es ! n = (if n = 0x21 then (?g n)\<lparr>gd_ist := 1\<rparr> else ?g n)" if "n < 256" for n
    using that by (simp add: nth_list_update)
  have "seg_sel (?es ! 0) = off_kernelcode"
    by (subst n0) (simp_all add: GateDesc_new_def)
  then have "idt_init stub addr idt_static = Inr (?es, idt_load addr)"
    unfolding idt_init_def Let_def e1 by simp
  moreover have "gate_offset (?g n) = stub n" "gate_offset ((?g n)\<lparr>gd_ist := 1\<rparr>) = stub n" for n
    using gate_offset_new [of "stub n" off_kernelcode 0 INTERRUPT_GATE 0] by (simp_all add: gate_offset_def)
  moreover have "gate_present (?g n) \<and> gate_type (?g n) = 14 \<and> gate_dpl (?g n) = 0 \<and> seg_sel (?g n) = off_kernelcode
      \<and> gd_ist (?g n) = 0" for n
    by (simp add: GateDesc_new_def INTERRUPT_GATE_def gate_type_def gate_dpl_def bit_numeral_rec)
  moreover have "idtr_offset (idt_load addr) = addr" "unat (idtr_size (idt_load addr)) = 256 * 16 - 1"
    by (simp_all add: idt_load_def IDT_bytes_def)
  ultimately show ?thesis
    by (intro exI [of _ ?es] exI [of _ "idt_load addr"]) (simp add: n0 gate_type_def gate_dpl_def)
qed

theorem idt_gates_witness:
  "\<exists>es idtr. idt_init (\<lambda>n. 0xffffffff80000000 + of_nat n * 16) 0xffffffff80010000 idt_static = Inr (es, idtr)
     \<and> gate_offset (es ! 0x21) = 0xffffffff80000210 \<and> gd_ist (es ! 0x21) = 1"
proof -
  let ?stub = "\<lambda>n. 0xffffffff80000000 + of_nat n * 16 :: u64"
  from idt_gates [of ?stub "0xffffffff80010000"] obtain es idtr where
    e: "idt_init ?stub 0xffffffff80010000 idt_static = Inr (es, idtr)" "\<forall>n<256. gate_offset (es ! n) = ?stub n \<and> seg_sel (es ! n) = off_kernelcode
      \<and> gate_present (es ! n) \<and> gate_type (es ! n) = 14 \<and> gate_dpl (es ! n) = 0
      \<and> gd_ist (es ! n) = (if n = 0x21 then 1 else 0)"
    by (elim exE conjE)
  from e(2) [rule_format, of "0x21"] e(1) show ?thesis
    by (intro exI [of _ es] exI [of _ idtr]) simp
qed

text \<open>
  Remark: the privilege level of a gate lands one bit too far left, in the present bit:
  a gate asked for ring 3 or ring 1 is one of ring 2, and one asked for ring 2 is one
  of ring 0. Only ring 0, the level \<^verbatim>\<open>idt_init\<close> asks for, comes out right.
\<close>

theorem gate_dpl_misplaced:
  "gate_dpl (GateDesc_new offset seg 0 ty ist) = 0 \<and> gate_dpl (GateDesc_new offset seg 1 ty ist) = 2
   \<and> gate_dpl (GateDesc_new offset seg 2 ty ist) = 0 \<and> gate_dpl (GateDesc_new offset seg 3 ty ist) = 2"
proof -
  have z: "drop_bit 5 (ty AND 0xF :: u8) = 0"
    by (rule bit_word_eqI) (auto simp: bit_simps bit_numeral_rec)
  show ?thesis
    unfolding gate_dpl_def GateDesc_new_def by (simp add: drop_bit_or z)
qed

text \<open>
  C6: an interrupt is transparent. For every vector, on the stack the processor makes
  for it (\<open>hw_frame\<close>, which says on its own account which vectors have an error
  code), the stub lays the registers out
  exactly as \<^verbatim>\<open>x86_64Context\<close> declares them, with the vector and the error code (0
  where the processor pushes none), and switches the \<^verbatim>\<open>gs\<close> base when user code was
  interrupted; whatever the handler does to the registers, the return path restores
  them all, switches \<^verbatim>\<open>gs\<close> back, and leaves the frame for \<^verbatim>\<open>iretq\<close>.
\<close>

theorem interrupt_transparent:
  fixes r r' :: cpu_regs and i :: nat and rip cs rflags rsp ss err :: u64
  defines "hw \<equiv> [rip, cs, rflags, rsp, ss]"
  assumes "inter_stub i r (hw_frame i err hw) = (r1, frame)" "gs_swapped r' = gs_swapped r1"
  shows "ctx_of_words frame = Some \<lparr>c_r15 = r_r15 r, c_r14 = r_r14 r, c_r13 = r_r13 r, c_r12 = r_r12 r, c_r11 = r_r11 r,
        c_r10 = r_r10 r, c_r9 = r_r9 r, c_r8 = r_r8 r, c_rsi = r_rsi r, c_rdi = r_rdi r, c_rbp = r_rbp r,
        c_rdx = r_rdx r, c_rcx = r_rcx r, c_rbx = r_rbx r, c_rax = r_rax r, c_int = of_nat i,
        c_error = (if i \<in> set hw_error_codes then err else 0), c_rip = rip, c_cs = cs, c_rflags = rflags, c_rsp = rsp, c_ss = ss\<rparr>
     \<and> gs_swapped r1 = (gs_swapped r \<noteq> (cs AND 3 \<noteq> 0))
     \<and> inter_return r' frame = (r, hw)"
proof -
  have st: "(if has_error_code i then hw_frame i err hw else 0 # hw_frame i err hw)
      = (if i \<in> set hw_error_codes then err else 0) # hw"
    by (auto simp: hw_frame_def has_error_code_eq)
  have f: "frame = [r_r15 r, r_r14 r, r_r13 r, r_r12 r, r_r11 r, r_r10 r, r_r9 r, r_r8 r, r_rsi r, r_rdi r, r_rbp r, r_rdx r,
      r_rcx r, r_rbx r, r_rax r, of_nat i, if i \<in> set hw_error_codes then err else 0, rip, cs, rflags, rsp, ss]"
    and r1: "r1 = (if cs AND 3 \<noteq> 0 then r\<lparr>gs_swapped := \<not> gs_swapped r\<rparr> else r)"
    using assms(2) unfolding inter_stub_def st Let_def by (simp_all add: hw_def)
  have gs: "gs_swapped r' = (gs_swapped r \<noteq> (cs AND 3 \<noteq> 0))"
    using assms(3) r1 by simp
  have "inter_return r' frame = (r, hw)"
    unfolding f hw_def inter_return_def Let_def using gs by (intro prod_eqI cpu_regs.equality) simp_all
  moreover have "gs_swapped r1 = (gs_swapped r \<noteq> (cs AND 3 \<noteq> 0))"
    using r1 by simp
  ultimately show ?thesis
    unfolding f by (simp add: ctx_of_words_def)
qed

text \<open>A page fault in user code.\<close>

theorem interrupt_transparent_witness:
  "\<exists>r1 frame. inter_stub 14 \<lparr>r_rax = 1, r_rbx = 2, r_rcx = 3, r_rdx = 4, r_rbp = 5, r_rdi = 6, r_rsi = 7, r_r8 = 8,
       r_r9 = 9, r_r10 = 10, r_r11 = 11, r_r12 = 12, r_r13 = 13, r_r14 = 14, r_r15 = 15, gs_swapped = False\<rparr>
       [2, 0x400000, 0x23, 0x202, 0x7000, 0x1b] = (r1, frame)
     \<and> gs_swapped r1
     \<and> inter_return (r1\<lparr>r_rax := 99\<rparr>) frame = (\<lparr>r_rax = 1, r_rbx = 2, r_rcx = 3, r_rdx = 4, r_rbp = 5, r_rdi = 6,
       r_rsi = 7, r_r8 = 8, r_r9 = 9, r_r10 = 10, r_r11 = 11, r_r12 = 12, r_r13 = 13, r_r14 = 14, r_r15 = 15,
       gs_swapped = False\<rparr>, [0x400000, 0x23, 0x202, 0x7000, 0x1b])"
proof -
  let ?r = "\<lparr>r_rax = 1, r_rbx = 2, r_rcx = 3, r_rdx = 4, r_rbp = 5, r_rdi = 6, r_rsi = 7, r_r8 = 8,
       r_r9 = 9, r_r10 = 10, r_r11 = 11, r_r12 = 12, r_r13 = 13, r_r14 = 14, r_r15 = 15, gs_swapped = False\<rparr>"
  obtain r1 frame where f: "inter_stub 14 ?r [2, 0x400000, 0x23, 0x202, 0x7000, 0x1b] = (r1, frame)"
    by (cases "inter_stub 14 ?r [2, 0x400000, 0x23, 0x202, 0x7000, 0x1b]")
  have e: "hw_frame 14 2 [0x400000, 0x23, 0x202, 0x7000, 0x1b] = [2, 0x400000, 0x23, 0x202, 0x7000, 0x1b]"
    by (simp add: hw_frame_def hw_error_codes_def)
  have "inter_stub 14 ?r (hw_frame 14 2 [0x400000, 0x23, 0x202, 0x7000, 0x1b]) = (r1, frame)"
    unfolding e by (rule f)
  from interrupt_transparent [OF this, of "r1\<lparr>r_rax := 99\<rparr>"] f show ?thesis
    by (intro exI [of _ r1] exI [of _ frame]) simp
qed

end
