(* ===== verification/Radix.thy ===== *)
theory Radix
  imports Interfaces
begin

text \<open>
  Radix page tables, as both architectures walk them: a tree of 4 KiB tables of
  512 entries, one level per 9 bits of the page number. The locale
  \<open>radix_table\<close> takes the table walk of an architecture (the recursion its
  \<^verbatim>\<open>get_table\<close> loop follows) over any page allocator, and proves once that the
  walk with allocation yields the entry of its address and disturbs no other.
  What a translation means is \<open>radix_walk\<close>, the walk of the hardware.
\<close>

section \<open>Indices\<close>

text \<open>The index into a table of level \<open>j\<close> (1 is the last), and the page number.\<close>

definition vidx :: "nat \<Rightarrow> u64 \<Rightarrow> nat" where
  "vidx j va = unat va div 4096 div 512 ^ (j - 1) mod 512"

definition vpn :: "nat \<Rightarrow> u64 \<Rightarrow> nat" where
  "vpn n va = unat va div 4096 mod 512 ^ n"

text \<open>Indices from the root down to the last level.\<close>

primrec vpath :: "nat \<Rightarrow> u64 \<Rightarrow> nat list" where
  "vpath 0 va = []"
| "vpath (Suc j) va = vidx (Suc j) va # vpath j va"

definition entry_at :: "u64 \<Rightarrow> nat \<Rightarrow> u64" where
  "entry_at T i = T + of_nat (8 * i)"

text \<open>
  The walk of the hardware: \<open>pres\<close>, \<open>leaf\<close> and \<open>nxt\<close> read an entry. The result
  is the entry that ends the walk.
\<close>

fun radix_walk ::
    "(u64 \<Rightarrow> bool) \<Rightarrow> (nat \<Rightarrow> u64 \<Rightarrow> bool) \<Rightarrow> (u64 \<Rightarrow> u64) \<Rightarrow> nat \<Rightarrow> u64 \<Rightarrow> u64 \<Rightarrow> memory \<Rightarrow> u64 option" where
  "radix_walk pres leaf nxt 0 T va m = None"
| "radix_walk pres leaf nxt (Suc j) T va m =
     (let e = m (entry_at T (vidx (Suc j) va))
      in if \<not> pres e then None
         else if j = 0 \<or> leaf (Suc j) e then Some e
         else radix_walk pres leaf nxt j (nxt e) va m)"

lemma vidx_lt [simp]: "vidx j va < 512"
  by (simp add: vidx_def)

lemma length_vpath [simp]: "length (vpath n va) = n"
  by (induction n) auto

lemma vpath_eq_Nil [simp]: "vpath n va = [] \<longleftrightarrow> n = 0"
  by (cases n) auto

lemma vpath_eq_vpn: "vpath n va = vpath n vb \<longleftrightarrow> vpn n va = vpn n vb"
proof (induction n)
  case (Suc n)
  have split: "vpn (Suc n) v = vpn n v + 512 ^ n * vidx (Suc n) v" for v
    using mod_mult2_eq [of "unat v div 4096" "512 ^ n" 512]
    by (simp only: vpn_def vidx_def power_Suc2 diff_Suc_1 add.commute)
  have lt: "vpn n v < 512 ^ n" for v
    by (simp add: vpn_def)
  have "vpn (Suc n) va = vpn (Suc n) vb \<longleftrightarrow> vpn n va = vpn n vb \<and> vidx (Suc n) va = vidx (Suc n) vb"
  proof
    assume "vpn (Suc n) va = vpn (Suc n) vb"
    then have eq: "vpn n va + 512 ^ n * vidx (Suc n) va = vpn n vb + 512 ^ n * vidx (Suc n) vb"
      by (simp only: split)
    from arg_cong [OF eq, of "\<lambda>x. x mod 512 ^ n"] have "vpn n va = vpn n vb"
      using lt by simp
    with eq show "vpn n va = vpn n vb \<and> vidx (Suc n) va = vidx (Suc n) vb"
      by simp
  qed (simp add: split)
  with Suc.IH show ?case by auto
qed (simp add: vpn_def)

lemma unat_entry_offset: "i < 512 \<Longrightarrow> unat (of_nat (8 * i) :: u64) = 8 * i"
  by (intro unat_of_nat_small) simp

text \<open>The index computed with shifts and masks.\<close>

lemma entry_at_shift:
  "T + (drop_bit (12 + 9 * j) va AND 0x1ff) * 8 = entry_at T (vidx (Suc j) va)"
proof -
  have "(0x1ff :: u64) = mask 9"
    by (simp add: mask_eq_exp_minus_1)
  then have "unat (drop_bit (12 + 9 * j) va AND 0x1ff) = unat (drop_bit (12 + 9 * j) va) mod 512"
    by (simp only: unat_and_mask) simp
  also have "unat (drop_bit (12 + 9 * j) va) = unat va div 2 ^ (12 + 9 * j)"
    by (subst unat_drop_bit_eq) (simp only: drop_bit_eq_div)
  also have "(2 :: nat) ^ (12 + 9 * j) = 4096 * 512 ^ j"
    by (simp add: power_add power_mult)
  finally have "unat (drop_bit (12 + 9 * j) va AND 0x1ff) = vidx (Suc j) va"
    by (simp only: vidx_def div_mult2_eq diff_Suc_1)
  moreover have "unat (of_nat (vidx (Suc j) va) :: u64) = vidx (Suc j) va"
    by (rule unat_of_nat_small) (rule less_trans [OF vidx_lt], simp)
  ultimately have "drop_bit (12 + 9 * j) va AND 0x1ff = of_nat (vidx (Suc j) va)"
    by (simp only: word_unat_eq_iff)
  then show ?thesis
    by (simp add: entry_at_def)
qed

lemma page_entry_at: "page_aligned T \<Longrightarrow> i < 512 \<Longrightarrow> page_of (entry_at T i) = T"
  unfolding entry_at_def by (rule page_of_add) (auto simp: unat_entry_offset simp del: of_nat_mult)

lemma entry_at_inj: "i < 512 \<Longrightarrow> j < 512 \<Longrightarrow> entry_at T i = entry_at T j \<longleftrightarrow> i = j"
  unfolding entry_at_def add_left_cancel
  by (metis mult_cancel1 unat_entry_offset zero_neq_numeral)

lemma frame_bits:
  assumes "page_aligned x" "unat x < 2 ^ 52"
  shows "bit x i \<Longrightarrow> 12 \<le> i \<and> i < 52"
proof -
  assume b: "bit x i"
  have "x AND mask 12 = 0"
    using assms(1) by (simp add: page_aligned_def mask_12_eq)
  then have "\<not> bit (x AND mask 12) i"
    by simp
  then have "12 \<le> i"
    using b bit_imp_le_length [OF b] by (auto simp: bit_and_iff bit_mask_iff)
  moreover have "drop_bit 52 x = 0"
  proof -
    have "unat (drop_bit 52 x) = unat x div 2 ^ 52"
      by (subst unat_drop_bit_eq) (simp only: drop_bit_eq_div)
    with assms(2) show ?thesis by (simp add: unat_eq_0)
  qed
  then have "\<not> bit (drop_bit 52 x) (i - 52)"
    by simp
  then have "i < 52"
    using b by (cases "i < 52") (auto simp: bit_drop_bit_eq)
  ultimately show "12 \<le> i \<and> i < 52" by simp
qed

text \<open>
  The addresses of the kernel's half: the last \<open>4096 * 512 ^ n\<close> bytes, in which the
  page number decides the page. Both targets place the kernel and its direct map
  there.
\<close>

definition high_half :: "nat \<Rightarrow> u64 \<Rightarrow> bool" where
  "high_half n a \<longleftrightarrow> 2 ^ 64 - 4096 * 512 ^ n \<le> unat a"

lemma mod_window_inj:
  fixes x y N B :: nat
  assumes "B \<le> x" "x < B + N" "B \<le> y" "y < B + N" "x mod N = y mod N"
  shows "x = y"
proof -
  have "x = y" if "x \<le> y" "y < B + N" "B \<le> x" "x mod N = y mod N" for x y
  proof -
    have "N dvd y - x"
      using that by (metis mod_eq_dvd_iff_nat)
    moreover have "y - x < N"
      using that by linarith
    ultimately have "y - x = 0"
      using dvd_imp_le not_less by blast
    with that(1) show ?thesis by simp
  qed
  from this [of x y] this [of y x] assms show ?thesis
    by (metis nat_le_linear)
qed

lemma vpn_high_half:
  assumes n: "4096 * 512 ^ n \<le> (2 :: nat) ^ 64" and a: "high_half n a" and b: "high_half n b"
  shows "vpn n a = vpn n b \<longleftrightarrow> page_of a = page_of b"
proof -
  let ?N = "512 ^ n :: nat" and ?B = "2 ^ 52 - 512 ^ n :: nat"
  have B: "(2 ^ 64 - 4096 * ?N) div 4096 = ?B"
    by (simp flip: diff_mult_distrib2)
  have N: "?N \<le> 2 ^ 52"
    using n by simp
  have win: "?B \<le> unat x div 4096 \<and> unat x div 4096 < ?B + ?N" if "high_half n x" for x :: u64
  proof
    show "?B \<le> unat x div 4096"
      using div_le_mono [OF that [unfolded high_half_def], of 4096] B by simp
    have "unat x div 4096 < 2 ^ 52"
      using unat_lt_64 [of x] by (simp add: less_mult_imp_div_less)
    with N show "unat x div 4096 < ?B + ?N" by simp
  qed
  from mod_window_inj [of ?B "unat a div 4096" ?N "unat b div 4096"] win [OF a] win [OF b]
  show ?thesis
    by (auto simp: vpn_def page_of_eq_iff)
qed

text \<open>The pages of a region.\<close>

lemma unat_range_nth:
  assumes "unat base + unat len < 2 ^ 64" "k < length (range_step base (base + len) 4096)"
  shows "unat (range_step base (base + len) 4096 ! k) = unat base + 4096 * k" "4096 * k < unat len"
proof -
  have e: "unat (base + len) = unat base + unat len"
    by (rule unat_add_no_wrap) (use assms(1) in simp)
  have "k < (unat len + 4095) div 4096"
    using assms(2) by (simp add: length_range_step e)
  then show k: "4096 * k < unat len"
    by linarith
  have "unat (of_nat (k * 4096) :: u64) = k * 4096"
    by (rule unat_of_nat_small) (use k assms(1) in simp)
  then show "unat (range_step base (base + len) 4096 ! k) = unat base + 4096 * k"
    using k assms(1) by (simp only: range_step_nth [OF assms(2)]) (subst unat_add_no_wrap; simp)
qed

lemma vpn_range_distinct:
  assumes n: "4096 * 512 ^ n \<le> (2 :: nat) ^ 64" and base: "page_aligned base" "high_half n base"
    and len: "unat base + unat len < 2 ^ 64"
  shows "distinct (map (vpn n) (range_step base (base + len) 4096))"
    and "x \<in> set (range_step base (base + len) 4096) \<Longrightarrow> high_half n x \<and> page_aligned x"
proof -
  let ?r = "range_step base (base + len) 4096"
  have hi: "high_half n (?r ! k) \<and> page_aligned (?r ! k)" if "k < length ?r" for k
    using unat_range_nth [OF len that] base by (simp add: high_half_def page_aligned_iff)
  then show "x \<in> set ?r \<Longrightarrow> high_half n x \<and> page_aligned x"
    by (auto simp: in_set_conv_nth)
  have "vpn n (?r ! i) \<noteq> vpn n (?r ! j)" if "i < length ?r" "j < length ?r" "i \<noteq> j" for i j
  proof -
    have "?r ! i \<noteq> ?r ! j"
      using unat_range_nth(1) [OF len that(1)] unat_range_nth(1) [OF len that(2)] that(3) by auto
    with hi [OF that(1)] hi [OF that(2)] show ?thesis
      by (simp add: vpn_high_half [OF n])
  qed
  then show "distinct (map (vpn n) ?r)"
    by (simp add: distinct_conv_nth)
qed

section \<open>The tree of tables\<close>

text \<open>
  \<open>t p\<close> is the table reached from the root by the indices \<open>p\<close>. In tables above
  the last level every entry is 0 or \<open>mk\<close> of the table below.
\<close>

definition tables_ok ::
    "(u64 \<Rightarrow> u64) \<Rightarrow> (u64 \<Rightarrow> bool) \<Rightarrow> nat \<Rightarrow> u64 \<Rightarrow> (nat list \<Rightarrow> u64 option) \<Rightarrow> memory \<Rightarrow> bool" where
  "tables_ok mk valid n root t m \<longleftrightarrow>
     t [] = Some root
     \<and> (\<forall>p q. t p = None \<longrightarrow> t (p @ q) = None)
     \<and> (\<forall>p T. t p = Some T \<longrightarrow> valid T \<and> length p < n)
     \<and> (\<forall>p q T. t p = Some T \<longrightarrow> t q = Some T \<longrightarrow> p = q)
     \<and> (\<forall>p T i. t p = Some T \<longrightarrow> length p + 1 < n \<longrightarrow> i < 512 \<longrightarrow>
          m (entry_at T i) = (case t (p @ [i]) of None \<Rightarrow> 0 | Some T' \<Rightarrow> mk T'))"

text \<open>The cell of the last-level entry of an address, when its table exists.\<close>

definition leaf_cell :: "nat \<Rightarrow> (nat list \<Rightarrow> u64 option) \<Rightarrow> u64 \<Rightarrow> u64 option" where
  "leaf_cell n t va = map_option (\<lambda>T. entry_at T (vidx 1 va)) (t (butlast (vpath n va)))"

text \<open>The tables an address needs, as paths from the root.\<close>

definition tpaths :: "nat \<Rightarrow> u64 \<Rightarrow> nat list set" where
  "tpaths n va = (\<lambda>k. take k (vpath n va)) ` {..<n}"

definition missing :: "nat \<Rightarrow> (nat list \<Rightarrow> u64 option) \<Rightarrow> u64 \<Rightarrow> nat list set" where
  "missing n t va = tpaths n va - dom t"

lemma finite_tpaths [simp]: "finite (tpaths n va)"
  by (simp add: tpaths_def)

lemma finite_missing [simp]: "finite (missing n t va)"
  by (simp add: missing_def)

definition missing_list :: "nat \<Rightarrow> (nat list \<Rightarrow> u64 option) \<Rightarrow> u64 list \<Rightarrow> nat list set" where
  "missing_list n t xs = (\<Union>x\<in>set xs. tpaths n x) - dom t"

lemma missing_list_Nil [simp]: "missing_list n t [] = {}"
  by (simp add: missing_list_def)

lemma card_missing_list_Cons:
  assumes "dom t' = dom t \<union> tpaths n x"
  shows "card (missing_list n t (x # xs)) = card (missing n t x) + card (missing_list n t' xs)"
proof -
  have "missing_list n t (x # xs) = missing n t x \<union> missing_list n t' xs"
    using assms by (auto simp: missing_list_def missing_def)
  moreover have "missing n t x \<inter> missing_list n t' xs = {}"
    using assms by (auto simp: missing_list_def missing_def)
  ultimately show ?thesis
    by (simp add: card_Un_disjoint missing_list_def)
qed

lemma card_missing_list_append:
  assumes "dom t' = dom t \<union> (\<Union>x\<in>set xs. tpaths n x)"
  shows "card (missing_list n t (xs @ ys)) = card (missing_list n t xs) + card (missing_list n t' ys)"
proof -
  have "missing_list n t (xs @ ys) = missing_list n t xs \<union> missing_list n t' ys"
    using assms by (auto simp: missing_list_def)
  moreover have "missing_list n t xs \<inter> missing_list n t' ys = {}"
    using assms by (auto simp: missing_list_def)
  ultimately show ?thesis
    by (simp add: card_Un_disjoint missing_list_def)
qed

lemma card_missing_root:
  assumes "0 < n"
  shows "card (missing_list n [[] \<mapsto> v] xs) \<le> card (\<Union>x\<in>set xs. tpaths n x) - 1"
proof (cases "xs = []")
  case False
  let ?A = "\<Union>x\<in>set xs. tpaths n x"
  have "[] \<in> tpaths n x" for x
    unfolding tpaths_def using assms by (intro image_eqI [of _ _ 0]) auto
  then have "[] \<in> ?A"
    using False by (cases xs) auto
  then show ?thesis
    by (simp add: missing_list_def card_Diff_singleton)
qed simp

lemma card_missing_Cons: "card (missing n t x) \<le> card (missing_list n t (x # xs))"
  by (rule card_mono) (auto simp: missing_list_def missing_def)

lemma map_le_Some: "m \<subseteq>\<^sub>m m' \<Longrightarrow> m k = Some v \<Longrightarrow> m' k = Some v"
  by (force simp: map_le_def)

lemma tables_ok_root: "tables_ok mk valid n root t m \<Longrightarrow> t [] = Some root"
  by (simp add: tables_ok_def)

lemma tables_ok_closed: "tables_ok mk valid n root t m \<Longrightarrow> t p = None \<Longrightarrow> t (p @ q) = None"
  unfolding tables_ok_def by blast

lemma tables_ok_valid: "tables_ok mk valid n root t m \<Longrightarrow> t p = Some T \<Longrightarrow> valid T"
  by (simp add: tables_ok_def)

lemma tables_ok_inj: "tables_ok mk valid n root t m \<Longrightarrow> t p = Some T \<Longrightarrow> t q = Some T \<Longrightarrow> p = q"
  by (auto simp: tables_ok_def)

lemma tables_ok_len: "tables_ok mk valid n root t m \<Longrightarrow> t p = Some T \<Longrightarrow> length p < n"
  by (simp add: tables_ok_def)

lemma tables_ok_entry:
  "tables_ok mk valid n root t m \<Longrightarrow> t p = Some T \<Longrightarrow> length p + 1 < n \<Longrightarrow> i < 512 \<Longrightarrow>
     m (entry_at T i) = (case t (p @ [i]) of None \<Rightarrow> 0 | Some T' \<Rightarrow> mk T')"
  unfolding tables_ok_def by blast

lemma tables_fresh:
  assumes "valid v" "0 < n" "\<And>a. page_of a = v \<Longrightarrow> m a = 0" "page_aligned v"
  shows "tables_ok mk valid n v [[] \<mapsto> v] m"
  using assms page_entry_at [OF assms(4)] by (auto simp: tables_ok_def split: if_splits)

lemma card_missing:
  assumes "tables_ok mk valid n root t m"
  shows "card (missing n t va) < n \<or> n = 0"
proof (cases n)
  case (Suc k)
  have "missing n t va \<subseteq> (\<lambda>k. take k (vpath n va)) ` {0<..<n}"
  proof
    fix q
    assume "q \<in> missing n t va"
    then obtain k where k: "k < n" "q = take k (vpath n va)" "t q = None"
      by (auto simp: missing_def tpaths_def)
    with tables_ok_root [OF assms] have "k \<noteq> 0"
      by (cases k) auto
    with k show "q \<in> (\<lambda>k. take k (vpath n va)) ` {0<..<n}" by auto
  qed
  then have "card (missing n t va) \<le> card ((\<lambda>k. take k (vpath n va)) ` {0<..<n})"
    by (intro card_mono) auto
  also have "\<dots> \<le> card {0<..<n}"
    by (rule card_image_le) simp
  finally have "card (missing n t va) \<le> card {0<..<n}" .
  with Suc show ?thesis by simp
qed simp

lemma tables_ok_prefix:
  assumes "tables_ok mk valid n root t m" "t p = Some T" "vpath n va = p @ q" "k \<le> length p"
  shows "take k (vpath n va) \<in> dom t"
proof -
  have "vpath n va = take k p @ drop k p @ q"
    using assms(3) by simp
  moreover have "t (take k p) \<noteq> None"
    using tables_ok_closed [OF assms(1), of "take k p" "drop k p"] assms(2) by auto
  ultimately show ?thesis
    using assms(3,4) by auto
qed

lemma vpath_last: "0 < n \<Longrightarrow> last (vpath n va) = vidx 1 va"
proof (induction n)
  case (Suc n)
  then show ?case by (cases n) auto
qed simp

locale radix_table = page_allocator al dl rd wr free valid
  for al :: "'s \<Rightarrow> panic + (u64 \<times> 's)"
    and dl :: "u64 \<Rightarrow> 's \<Rightarrow> panic + 's"
    and rd :: "'s \<Rightarrow> memory"
    and wr :: "memory \<Rightarrow> 's \<Rightarrow> 's"
    and free :: "'s \<Rightarrow> u64 list \<Rightarrow> bool"
    and valid :: "u64 \<Rightarrow> bool" +
  fixes n :: nat
    and mk :: "u64 \<Rightarrow> u64"
    and get :: "bool \<Rightarrow> nat \<Rightarrow> u64 \<Rightarrow> u64 \<Rightarrow> 's \<Rightarrow> panic + ((string + u64) \<times> 's)"
    and out :: "u64 \<Rightarrow> u64"
    and msg :: string
    and pres :: "u64 \<Rightarrow> bool"
    and leaf :: "nat \<Rightarrow> u64 \<Rightarrow> bool"
    and nxt :: "u64 \<Rightarrow> u64"
  assumes levels: "0 < n"
    and pres_mk: "valid T \<Longrightarrow> pres (mk T)"
    and pres_0: "\<not> pres 0"
    and leaf_mk: "valid T \<Longrightarrow> \<not> leaf j (mk T)"
    and nxt_mk: "valid T \<Longrightarrow> nxt (mk T) = T"
    and get_last: "valid T \<Longrightarrow> get a 1 T va s = Inr (Inr (out (entry_at T (vidx 1 va))), s)"
    and get_down: "valid T \<Longrightarrow> 0 < j \<Longrightarrow> j < n \<Longrightarrow> valid T' \<Longrightarrow>
       rd s (entry_at T (vidx (Suc j) va)) = mk T' \<Longrightarrow> get a (Suc j) T va s = get a j T' va s"
    and get_alloc: "valid T \<Longrightarrow> 0 < j \<Longrightarrow> j < n \<Longrightarrow> rd s (entry_at T (vidx (Suc j) va)) = 0 \<Longrightarrow>
       al s = Inr (T', s1) \<Longrightarrow> valid T' \<Longrightarrow>
       get True (Suc j) T va s
         = get True j T' va (wr ((rd s1)(entry_at T (vidx (Suc j) va) := mk T')) s1)"
    and get_absent: "valid T \<Longrightarrow> 0 < j \<Longrightarrow> j < n \<Longrightarrow> rd s (entry_at T (vidx (Suc j) va)) = 0 \<Longrightarrow>
       get False (Suc j) T va s = Inr (Inl msg, s)"
begin

abbreviation "tables root t m \<equiv> tables_ok mk valid n root t m"
abbreviation "cell t va \<equiv> leaf_cell n t va"

lemma aligned: "tables root t m \<Longrightarrow> t p = Some T \<Longrightarrow> page_aligned T"
  by (metis tables_ok_valid valid_aligned)

lemma cell_table:
  assumes "tables root t m" "cell t va = Some c"
  shows "\<exists>T. t (butlast (vpath n va)) = Some T \<and> c = entry_at T (vidx 1 va) \<and> page_of c = T"
  using assms aligned [OF assms(1)] by (auto simp: leaf_cell_def page_entry_at)

lemma cell_inj:
  assumes ok: "tables root t m" and c: "cell t va = Some c" "cell t vb = Some c"
  shows "vpn n va = vpn n vb"
proof -
  from cell_table [OF ok c(1)] cell_table [OF ok c(2)] obtain T where
    T: "t (butlast (vpath n va)) = Some T" "t (butlast (vpath n vb)) = Some T"
      "entry_at T (vidx 1 va) = entry_at T (vidx 1 vb)"
    by auto
  have "butlast (vpath n va) = butlast (vpath n vb)"
    by (rule tables_ok_inj [OF ok T(1,2)])
  moreover have "last (vpath n va) = last (vpath n vb)"
    using T(3) levels by (simp add: vpath_last entry_at_inj)
  ultimately have "vpath n va = vpath n vb"
    using levels by (metis append_butlast_last_id length_greater_0_conv length_vpath)
  then show ?thesis
    by (simp add: vpath_eq_vpn)
qed

lemma walk_from:
  assumes ok: "tables root t m"
  shows "t p = Some T \<Longrightarrow> vpath n va = p @ vpath j va \<Longrightarrow> 0 < j \<Longrightarrow>
    radix_walk pres leaf nxt j T va m =
      (case cell t va of None \<Rightarrow> None | Some c \<Rightarrow> if pres (m c) then Some (m c) else None)"
proof (induction j arbitrary: p T)
  case (Suc j)
  show ?case
  proof (cases "j = 0")
    case True
    then have "butlast (vpath n va) = p"
      using Suc.prems(2) by simp
    with True Suc.prems(1) show ?thesis
      by (simp add: leaf_cell_def Let_def)
  next
    case False
    have len: "length p + 1 < n"
      using arg_cong [OF Suc.prems(2), of length] False by simp
    let ?e = "m (entry_at T (vidx (Suc j) va))"
    have path: "vpath n va = (p @ [vidx (Suc j) va]) @ vpath j va"
      using Suc.prems(2) by simp
    note e = tables_ok_entry [OF ok Suc.prems(1) len, of "vidx (Suc j) va"]
    show ?thesis
    proof (cases "t (p @ [vidx (Suc j) va])")
      case None
      have "butlast (vpath n va) = (p @ [vidx (Suc j) va]) @ butlast (vpath j va)"
        unfolding path using False by (simp add: butlast_append)
      then have "cell t va = None"
        using tables_ok_closed [OF ok None] by (simp add: leaf_cell_def)
      then show ?thesis
        using e None by (simp add: Let_def pres_0)
    next
      case (Some T')
      have v: "valid T'"
        by (rule tables_ok_valid [OF ok Some])
      have "?e = mk T'"
        using e Some by simp
      with Suc.IH [OF Some path] False v show ?thesis
        by (simp add: Let_def pres_mk leaf_mk nxt_mk)
    qed
  qed
qed simp

lemma walk_eq:
  "tables root t m \<Longrightarrow> radix_walk pres leaf nxt n root va m =
     (case cell t va of None \<Rightarrow> None | Some c \<Rightarrow> if pres (m c) then Some (m c) else None)"
  using walk_from [of root t m "[]" root va n] levels by (simp add: tables_ok_root)

text \<open>A last-level entry is not an entry of an upper table.\<close>

lemma cell_not_upper:
  assumes ok: "tables root t m" and c: "cell t va = Some c"
    and p: "t p = Some T" "length p + 1 < n"
  shows "page_of c \<noteq> T"
proof
  assume "page_of c = T"
  with cell_table [OF ok c] have "t (butlast (vpath n va)) = Some T"
    by auto
  then have "p = butlast (vpath n va)"
    using tables_ok_inj [OF ok p(1)] by simp
  with p(2) show False by simp
qed

lemma tables_write_leaf:
  assumes ok: "tables root t m" and c: "cell t va = Some c"
  shows "tables root t (m(c := v))"
proof -
  have "entry_at T i \<noteq> c" if "t p = Some T" "length p + 1 < n" "i < 512" for p T i
    using cell_not_upper [OF ok c that(1,2)] page_entry_at [OF aligned [OF ok that(1)] that(3)] by auto
  then have "(m(c := v)) (entry_at T i) = m (entry_at T i)"
    if "t p = Some T" "length p + 1 < n" "i < 512" for p T i
    using that by simp
  with ok show ?thesis
    unfolding tables_ok_def by simp
qed

lemma tables_frame:
  assumes ok: "tables root t m" and ag: "agree_on (ran t) m m'"
  shows "tables root t m'"
proof -
  have "m' (entry_at T i) = m (entry_at T i)" if "t p = Some T" "i < 512" for p T i
    using ag page_entry_at [OF aligned [OF ok that(1)] that(2)] that(1)
    by (metis agree_on_def ranI)
  with ok show ?thesis
    unfolding tables_ok_def by simp
qed

text \<open>A new, zeroed table below an empty entry.\<close>

lemma tables_extend:
  assumes ok: "tables root t m" and p: "t p = Some T" "length p + 1 < n" and i: "i < 512"
    and none: "t (p @ [i]) = None" and v: "valid v" "v \<notin> ran t"
  defines "m' \<equiv> (zero_bytes v 4096 m)(entry_at T i := mk v)"
  shows "tables root (t(p @ [i] \<mapsto> v)) m'"
    and "\<And>vb d. cell t vb = Some d \<Longrightarrow> m' d = m d"
    and "\<And>vb d. cell t vb = None \<Longrightarrow> cell (t(p @ [i] \<mapsto> v)) vb = Some d \<Longrightarrow> m' d = 0"
    and "agree_on (- insert v (ran t)) m m'"
proof -
  let ?c = "entry_at T i" and ?t = "t(p @ [i] \<mapsto> v)"
  have al: "page_aligned v" "page_aligned T"
    using valid_aligned v(1) aligned [OF ok p(1)] by auto
  have ne: "U \<noteq> v" if "t q = Some U" for q U
    using v(2) that by (auto simp: ran_def)
  have pc: "page_of ?c = T"
    by (rule page_entry_at [OF al(2) i])
  have zero: "m' a = (if a = ?c then mk v else if page_of a = v then 0 else m a)" for a
    by (simp add: m'_def zero_bytes_page [OF al(1)])
  have entry: "m' (entry_at U k) = (case ?t (q @ [k]) of None \<Rightarrow> 0 | Some T' \<Rightarrow> mk T')"
    if q: "?t q = Some U" "length q + 1 < n" "k < 512" for q U k
  proof (cases "q = p @ [i]")
    case True
    then have U: "U = v" using q(1) by simp
    have "t (q @ [k]) = None"
      using tables_ok_closed [OF ok none, of "[k]"] True by simp
    moreover have "q @ [k] \<noteq> p @ [i]"
      using True by simp
    moreover have "entry_at U k \<noteq> ?c"
      using page_entry_at [OF al(1) q(3)] pc ne [OF p(1)] U by auto
    ultimately show ?thesis
      using page_entry_at [OF al(1) q(3)] U by (auto simp: zero)
  next
    case False
    then have U: "t q = Some U" using q(1) by simp
    have pU: "page_of (entry_at U k) = U"
      by (rule page_entry_at [OF aligned [OF ok U] q(3)])
    have "entry_at U k = ?c \<longleftrightarrow> q @ [k] = p @ [i]"
    proof
      assume eq: "entry_at U k = ?c"
      then have "U = T" using pU pc by simp
      then show "q @ [k] = p @ [i]"
        using tables_ok_inj [OF ok U, of p] p(1) eq entry_at_inj [OF q(3) i] by simp
    next
      assume "q @ [k] = p @ [i]"
      then show "entry_at U k = ?c" using U p(1) by simp
    qed
    then show ?thesis
      using tables_ok_entry [OF ok U q(2,3)] ne [OF U] pU by (auto simp: zero)
  qed
  have inj: "q = r" if "?t q = Some U" "?t r = Some U" for q r U
    using that ne tables_ok_inj [OF ok] by (auto split: if_splits)
  have closed: "?t (q @ r) = None" if "?t q = None" for q r
  proof -
    have q: "t q = None" "q \<noteq> p @ [i]"
      using that by (auto split: if_splits)
    have "q @ r \<noteq> p @ [i]"
    proof
      assume eq: "q @ r = p @ [i]"
      then have "r \<noteq> []" using q(2) by auto
      with eq have "p = q @ butlast r"
        by (metis butlast_append butlast_snoc)
      with tables_ok_closed [OF ok q(1)] p(1) show False by simp
    qed
    with tables_ok_closed [OF ok q(1)] show ?thesis by simp
  qed
  have range: "valid U \<and> length q < n" if "?t q = Some U" for q U
    using that v(1) p(2) tables_ok_valid [OF ok, of q U] tables_ok_len [OF ok, of q U]
    by (cases "q = p @ [i]") auto
  have root: "?t [] = Some root"
    using tables_ok_root [OF ok] by simp
  show "tables root ?t m'"
    unfolding tables_ok_def
  proof (intro conjI)
    show "\<forall>q r. ?t q = None \<longrightarrow> ?t (q @ r) = None"
      using closed by (intro allI impI)
    show "\<forall>q U. ?t q = Some U \<longrightarrow> valid U \<and> length q < n"
      using range by (intro allI impI)
    show "\<forall>q r U. ?t q = Some U \<longrightarrow> ?t r = Some U \<longrightarrow> q = r"
      using inj by (intro allI impI)
    show "\<forall>q U k. ?t q = Some U \<longrightarrow> length q + 1 < n \<longrightarrow> k < 512 \<longrightarrow>
        m' (entry_at U k) = (case ?t (q @ [k]) of None \<Rightarrow> 0 | Some T' \<Rightarrow> mk T')"
      using entry by (intro allI impI)
  qed (rule root)
  show "m' d = m d" if "cell t vb = Some d" for vb d
    using cell_not_upper [OF ok that p] cell_table [OF ok that] ne pc by (auto simp: zero)
  show "m' d = 0" if d: "cell t vb = None" "cell ?t vb = Some d" for vb d
  proof -
    have "d = entry_at v (vidx 1 vb)"
      using d by (auto simp: leaf_cell_def split: if_splits)
    moreover have "page_of (entry_at v (vidx 1 vb)) = v"
      by (rule page_entry_at [OF al(1)]) simp
    ultimately show ?thesis
      using ne [OF p(1)] pc by (auto simp: zero)
  qed
  show "agree_on (- insert v (ran t)) m m'"
    using p(1) pc by (auto simp: agree_on_def zero ran_def)
qed

lemma get_alloc_from:
  "\<lbrakk>tables root t (rd s); t p = Some T; vpath n va = p @ vpath j va; 0 < j; free s vs;
    ran t \<inter> set vs = {}; card (missing n t va) \<le> length vs\<rbrakk> \<Longrightarrow>
   \<exists>t' s' us vs' c. get True j T va s = Inr (Inr (out c), s') \<and> vs = us @ vs' \<and> length us = card (missing n t va)
     \<and> dom t' = dom t \<union> tpaths n va \<and> free s' vs'
     \<and> tables root t' (rd s') \<and> cell t' va = Some c \<and> t \<subseteq>\<^sub>m t' \<and> ran t' = ran t \<union> set us
     \<and> agree_on (- ran t') (rd s) (rd s') \<and> (\<forall>vb d. cell t vb = Some d \<longrightarrow> rd s' d = rd s d)
     \<and> (\<forall>vb d. cell t vb = None \<longrightarrow> cell t' vb = Some d \<longrightarrow> rd s' d = 0)"
proof (induction j arbitrary: p T t s vs)
  case (Suc j)
  note ok = Suc.prems(1)
  have vT: "valid T"
    by (rule tables_ok_valid [OF ok Suc.prems(2)])
  show ?case
  proof (cases "j = 0")
    case True
    then have "butlast (vpath n va) = p"
      using Suc.prems(3) by simp
    then have "get True (Suc j) T va s = Inr (Inr (out (entry_at T (vidx 1 va))), s)"
      "cell t va = Some (entry_at T (vidx 1 va))"
      using True get_last [OF vT] Suc.prems(2) by (simp_all add: leaf_cell_def)
    moreover have "tpaths n va \<subseteq> dom t"
    proof -
      have "n = Suc (length p)"
        using arg_cong [OF Suc.prems(3), of length] True by simp
      then show ?thesis
        unfolding tpaths_def using tables_ok_prefix [OF ok Suc.prems(2,3)] by (intro image_subsetI) simp
    qed
    then have "missing n t va = {}" "dom t = dom t \<union> tpaths n va"
      by (auto simp: missing_def)
    ultimately show ?thesis
      using Suc.prems(1,5)
      by (intro exI [of _ t] exI [of _ s] exI [of _ "[]"] exI [of _ vs]
          exI [of _ "entry_at T (vidx 1 va)"]) simp
  next
    case False
    let ?i = "vidx (Suc j) va"
    have len: "length p + 1 < n" "j < n"
      using arg_cong [OF Suc.prems(3), of length] False by auto
    have path: "vpath n va = (p @ [?i]) @ vpath j va"
      using Suc.prems(3) by simp
    have j: "0 < j" using False by simp
    note e = tables_ok_entry [OF ok Suc.prems(2) len(1) vidx_lt, of "Suc j" va]
    show ?thesis
    proof (cases "t (p @ [?i])")
      case (Some T')
      have g: "get True (Suc j) T va s = get True j T' va s"
        using e Some by (intro get_down [OF vT j len(2)] tables_ok_valid [OF ok Some]) simp
      from Suc.IH [OF ok Some path j Suc.prems(5,6,7)] show ?thesis
        unfolding g .
    next
      case None
      have "p @ [?i] = take (Suc (length p)) (vpath n va)"
        unfolding path by simp
      then have "p @ [?i] \<in> tpaths n va"
        using len(1) unfolding tpaths_def by (intro image_eqI) auto
      then have mis: "p @ [?i] \<in> missing n t va"
        using None by (auto simp: missing_def)
      then have pos: "0 < card (missing n t va)"
        by (auto simp: card_gt_0_iff)
      then obtain v vs1 where vs: "vs = v # vs1"
        using Suc.prems(7) by (cases vs) auto
      have v: "valid v" "v \<notin> ran t" "v \<notin> set vs1"
        using Suc.prems(5,6) free_valid free_distinct vs by fastforce+
      from al_ok [OF Suc.prems(5) [unfolded vs]] obtain s1 where
        s1: "al s = Inr (v, s1)" "free s1 vs1" "rd s1 = zero_bytes v 4096 (rd s)"
        by blast
      let ?c = "entry_at T ?i"
      define t1 where "t1 = t(p @ [?i] \<mapsto> v)"
      define s2 where "s2 = wr ((rd s1)(?c := mk v)) s1"
      have rd2: "rd s2 = (rd s1)(?c := mk v)"
        unfolding s2_def by (rule rd_wr)
      note ext = tables_extend [OF ok Suc.prems(2) len(1) vidx_lt None v(1,2), folded s1(3) t1_def rd2]
      have "page_of ?c = T"
        by (rule page_entry_at [OF valid_aligned [OF vT] vidx_lt])
      then have free2: "free s2 vs1"
        unfolding s2_def using Suc.prems(2,6) vs
        by (intro free_wr [OF s1(2)] agree_on_upd) (auto simp: ran_def)
      have ran: "ran t1 = insert v (ran t)" and t1: "t1 (p @ [?i]) = Some v" and sub: "t \<subseteq>\<^sub>m t1"
        using None by (auto simp: t1_def map_le_def)
      have g: "get True (Suc j) T va s = get True j v va s2"
        unfolding s2_def using e None by (intro get_alloc [OF vT j len(2) _ s1(1) v(1)]) simp
      have "missing n t1 va = missing n t va - {p @ [?i]}"
        by (auto simp: missing_def t1_def)
      then have card: "Suc (card (missing n t1 va)) = card (missing n t va)"
        using mis pos by (simp add: card_Diff_singleton)
      have dis: "ran t1 \<inter> set vs1 = {}" "card (missing n t1 va) \<le> length vs1"
        using Suc.prems(6,7) v(3) vs ran card by auto
      from Suc.IH [OF ext(1) t1 path j free2 dis] obtain t' s' us vs' c where
        r: "get True j v va s2 = Inr (Inr (out c), s')" "vs1 = us @ vs'" "free s' vs'"
          "tables root t' (rd s')" "cell t' va = Some c" "t1 \<subseteq>\<^sub>m t'" "ran t' = ran t1 \<union> set us"
          "agree_on (- ran t') (rd s2) (rd s')" "\<forall>vb d. cell t1 vb = Some d \<longrightarrow> rd s' d = rd s2 d"
          "\<forall>vb d. cell t1 vb = None \<longrightarrow> cell t' vb = Some d \<longrightarrow> rd s' d = 0" "length us = card (missing n t1 va)"
          "dom t' = dom t1 \<union> tpaths n va"
        by (elim exE conjE)
      have old: "cell t1 vb = Some d" if "cell t vb = Some d" for vb d
        using that None by (auto simp: leaf_cell_def t1_def)
      have keep: "rd s' d = rd s d" if "cell t vb = Some d" for vb d
        using r(9) old [OF that] ext(2) [OF that] by simp
      have fresh: "rd s' d = 0" if "cell t vb = None" "cell t' vb = Some d" for vb d
      proof (cases "cell t1 vb")
        case None
        with r(10) that(2) show ?thesis by blast
      next
        case (Some d')
        then obtain U where "t1 (butlast (vpath n vb)) = Some U" "d' = entry_at U (vidx 1 vb)"
          by (auto simp: leaf_cell_def)
        with map_le_Some [OF r(6)] have "cell t' vb = Some d'"
          by (simp add: leaf_cell_def)
        with that Some ext(3) [OF that(1)] r(9) show ?thesis by simp
      qed
      have "agree_on (- ran t') (rd s) (rd s2)"
        by (rule agree_on_mono [OF ext(4)]) (use r(7) ran in auto)
      then have ag: "agree_on (- ran t') (rd s) (rd s')"
        using r(8) by (rule agree_on_trans)
      have "t \<subseteq>\<^sub>m t'"
        using sub r(6) by (rule map_le_trans)
      moreover have "dom t' = dom t \<union> tpaths n va"
        using r(12) \<open>p @ [?i] \<in> tpaths n va\<close> by (auto simp: t1_def)
      ultimately show ?thesis
        using r(1-5,7,11) keep fresh ag ran vs card
        unfolding g by (intro exI [of _ t'] exI [of _ s'] exI [of _ "v # us"] exI [of _ vs'] exI [of _ c]) auto
    qed
  qed
qed simp

lemma get_lookup_from:
  "\<lbrakk>tables root t (rd s); t p = Some T; vpath n va = p @ vpath j va; 0 < j\<rbrakk> \<Longrightarrow>
   get False j T va s =
     Inr (case cell t va of None \<Rightarrow> Inl msg | Some c \<Rightarrow> Inr (out c), s)"
proof (induction j arbitrary: p T)
  case (Suc j)
  note ok = Suc.prems(1)
  have vT: "valid T"
    by (rule tables_ok_valid [OF ok Suc.prems(2)])
  show ?case
  proof (cases "j = 0")
    case True
    then have "butlast (vpath n va) = p"
      using Suc.prems(3) by simp
    with True get_last [OF vT] Suc.prems(2) show ?thesis
      by (simp add: leaf_cell_def)
  next
    case False
    have len: "length p + 1 < n" "j < n"
      using arg_cong [OF Suc.prems(3), of length] False by auto
    have path: "vpath n va = (p @ [vidx (Suc j) va]) @ vpath j va"
      using Suc.prems(3) by simp
    have j: "0 < j" using False by simp
    note e = tables_ok_entry [OF ok Suc.prems(2) len(1) vidx_lt, of "Suc j" va]
    show ?thesis
    proof (cases "t (p @ [vidx (Suc j) va])")
      case (Some T')
      have "get False (Suc j) T va s = get False j T' va s"
        using e Some by (intro get_down [OF vT j len(2)] tables_ok_valid [OF ok Some]) simp
      with Suc.IH [OF ok Some path j] show ?thesis by simp
    next
      case None
      have "butlast (vpath n va) = (p @ [vidx (Suc j) va]) @ butlast (vpath j va)"
        unfolding path using False by (simp add: butlast_append)
      then have "cell t va = None"
        using tables_ok_closed [OF ok None] by (simp add: leaf_cell_def)
      with get_absent [OF vT j len(2)] e None show ?thesis by simp
    qed
  qed
qed simp

lemma get_alloc_ok:
  assumes "tables root t (rd s)" "free s vs" "ran t \<inter> set vs = {}" "card (missing n t va) \<le> length vs"
  shows "\<exists>t' s' us vs' c. get True n root va s = Inr (Inr (out c), s') \<and> vs = us @ vs' \<and> length us = card (missing n t va)
     \<and> dom t' = dom t \<union> tpaths n va \<and> free s' vs'
     \<and> tables root t' (rd s') \<and> cell t' va = Some c \<and> t \<subseteq>\<^sub>m t' \<and> ran t' = ran t \<union> set us
     \<and> agree_on (- ran t') (rd s) (rd s') \<and> (\<forall>vb d. cell t vb = Some d \<longrightarrow> rd s' d = rd s d)
     \<and> (\<forall>vb d. cell t vb = None \<longrightarrow> cell t' vb = Some d \<longrightarrow> rd s' d = 0)"
  using get_alloc_from [OF assms(1) tables_ok_root [OF assms(1)] _ levels assms(2-4)] by simp

lemma get_lookup_ok:
  "tables root t (rd s) \<Longrightarrow>
   get False n root va s = Inr (case cell t va of None \<Rightarrow> Inl msg | Some c \<Rightarrow> Inr (out c), s)"
  using get_lookup_from [of root t s "[]" root va n] levels by (simp add: tables_ok_root)

lemma cell_vpn: "vpn n va = vpn n vb \<Longrightarrow> cell t va = cell t vb"
  unfolding vpath_eq_vpn [symmetric] leaf_cell_def
  using vpath_last [OF levels, of va] vpath_last [OF levels, of vb] by simp

abbreviation "walk root va m \<equiv> radix_walk pres leaf nxt n root va m"

text \<open>Writing the entry of one address changes its translation only.\<close>

lemma walk_write:
  assumes ok: "tables root t m" and c: "cell t va = Some c"
  shows "walk root vb (m(c := v)) =
     (if vpn n vb = vpn n va then (if pres v then Some v else None) else walk root vb m)"
proof (cases "vpn n vb = vpn n va")
  case True
  with c show ?thesis
    by (simp add: walk_eq [OF tables_write_leaf [OF ok c]] cell_vpn [OF True])
next
  case False
  then have "cell t vb \<noteq> Some c"
    using cell_inj [OF ok c] by auto
  with False show ?thesis
    by (auto simp: walk_eq [OF tables_write_leaf [OF ok c]] walk_eq [OF ok] split: option.split)
qed

text \<open>New tables change no translation.\<close>

lemma walk_extend:
  assumes ok: "tables root t m" "tables root t' m'" and sub: "t \<subseteq>\<^sub>m t'"
    and keep: "\<forall>vb d. cell t vb = Some d \<longrightarrow> m' d = m d"
    and fresh: "\<forall>vb d. cell t vb = None \<longrightarrow> cell t' vb = Some d \<longrightarrow> m' d = 0"
  shows "walk root vb m' = walk root vb m"
proof (cases "cell t vb")
  case None
  with fresh show ?thesis
    by (auto simp: walk_eq [OF ok(1)] walk_eq [OF ok(2)] pres_0 split: option.split)
next
  case (Some c)
  then obtain U where "t (butlast (vpath n vb)) = Some U" "c = entry_at U (vidx 1 vb)"
    by (auto simp: leaf_cell_def)
  with map_le_Some [OF sub] have "cell t' vb = Some c"
    by (simp add: leaf_cell_def)
  with Some keep show ?thesis
    by (simp add: walk_eq [OF ok(1)] walk_eq [OF ok(2)])
qed

lemma walk_frame:
  assumes ok: "tables root t m" and ag: "agree_on (ran t) m m'"
  shows "walk root va m' = walk root va m"
proof -
  have "m' c = m c" if "cell t va = Some c" for c
    using cell_table [OF ok that] ag by (auto simp: agree_on_def ran_def)
  then show ?thesis
    by (auto simp: walk_eq [OF ok] walk_eq [OF tables_frame [OF ok ag]] split: option.split)
qed

lemma walk_cell:
  assumes "tables root t m" "walk root va m = Some e"
  shows "\<exists>c. cell t va = Some c \<and> m c = e \<and> pres e"
  using assms(2) by (auto simp: walk_eq [OF assms(1)] split: option.splits if_splits)

end

section \<open>Mapping and unmapping\<close>

text \<open>
  \<open>mapv root va v\<close> enters \<open>v\<close> for \<open>va\<close>; \<open>unmapv\<close> gives the frame of an entry back
  and clears it. \<open>frame\<close> is the page an entry points to.
\<close>

locale page_mapper = radix_table +
  fixes mapv :: "u64 \<Rightarrow> u64 \<Rightarrow> u64 \<Rightarrow> 's \<Rightarrow> panic + ((string + unit) \<times> 's)"
    and unmapv :: "u64 \<Rightarrow> u64 \<Rightarrow> 's \<Rightarrow> panic + 's"
    and frame :: "u64 \<Rightarrow> u64"
  assumes mapv_eq: "valid root \<Longrightarrow> get True n root va s = Inr (Inr (out c), s1) \<Longrightarrow>
       mapv root va v s = Inr (Inr (), wr ((rd s1)(c := v)) s1)"
    and unmapv_eq: "valid root \<Longrightarrow> get True n root va s = Inr (Inr (out c), s) \<Longrightarrow>
       get False n root va s = Inr (Inr (out c), s) \<Longrightarrow> c \<noteq> 0 \<Longrightarrow>
       unmapv root va s = and_then (dl (frame (rd s c)) s) (\<lambda>s1. Inr (wr ((rd s1)(c := 0)) s1))"
    and valid_nonzero: "\<not> valid 0"
begin

lemma map_ok:
  assumes ok: "tables root t (rd s)" and free: "free s vs" and dis: "ran t \<inter> set vs = {}"
    and room: "card (missing n t va) \<le> length vs"
  shows "\<exists>t' s' us vs'. mapv root va v s = Inr (Inr (), s') \<and> vs = us @ vs' \<and> length us = card (missing n t va)
     \<and> dom t' = dom t \<union> tpaths n va \<and> free s' vs'
     \<and> tables root t' (rd s') \<and> t \<subseteq>\<^sub>m t' \<and> ran t' = ran t \<union> set us
     \<and> agree_on (- ran t') (rd s) (rd s')
     \<and> (\<forall>vb. walk root vb (rd s') =
          (if vpn n vb = vpn n va then (if pres v then Some v else None) else walk root vb (rd s)))"
proof -
  from get_alloc_ok [OF assms] obtain t' s1 us vs' c where
    r: "get True n root va s = Inr (Inr (out c), s1)" "vs = us @ vs'" "free s1 vs'"
      "tables root t' (rd s1)" "cell t' va = Some c" "t \<subseteq>\<^sub>m t'" "ran t' = ran t \<union> set us"
      "agree_on (- ran t') (rd s) (rd s1)" "\<forall>vb d. cell t vb = Some d \<longrightarrow> rd s1 d = rd s d"
      "\<forall>vb d. cell t vb = None \<longrightarrow> cell t' vb = Some d \<longrightarrow> rd s1 d = 0" "length us = card (missing n t va)"
      "dom t' = dom t \<union> tpaths n va"
    by (elim exE conjE)
  let ?s = "wr ((rd s1)(c := v)) s1"
  have rd: "rd ?s = (rd s1)(c := v)"
    by (rule rd_wr)
  have c: "page_of c \<in> ran t'"
    using cell_table [OF r(4,5)] by (auto simp: ran_def)
  have "set vs' \<inter> ran t' = {}"
    using dis r(2,7) free_distinct [OF free] by auto
  then have "free ?s vs'"
    using c by (intro free_wr [OF r(3)] agree_on_upd) auto
  moreover have "tables root t' (rd ?s)"
    unfolding rd by (rule tables_write_leaf [OF r(4,5)])
  moreover have "agree_on (- ran t') (rd s) (rd ?s)"
    unfolding rd using r(8) c by (auto simp: agree_on_def)
  moreover have "walk root vb (rd ?s) =
      (if vpn n vb = vpn n va then (if pres v then Some v else None) else walk root vb (rd s))" for vb
    unfolding rd by (simp add: walk_write [OF r(4,5)] walk_extend [OF ok r(4,6,9,10)])
  ultimately show ?thesis
    using mapv_eq [OF tables_ok_valid [OF ok tables_ok_root [OF ok]] r(1), of v] r(2,6,7,11,12)
    by (intro exI [of _ t'] exI [of _ ?s] exI [of _ us] exI [of _ vs']) simp
qed

lemma get_present:
  assumes "tables root t (rd s)" "cell t va = Some c"
  shows "get a n root va s = Inr (Inr (out c), s)"
proof (cases a)
  case False
  with get_lookup_ok [OF assms(1)] assms(2) show ?thesis by simp
next
  case True
  have "t p = Some T \<Longrightarrow> vpath n va = p @ vpath j va \<Longrightarrow> 0 < j \<Longrightarrow>
      get True j T va s = Inr (Inr (out c), s)" for p T j
  proof (induction j arbitrary: p T)
    case (Suc j)
    have vT: "valid T"
      by (rule tables_ok_valid [OF assms(1) Suc.prems(1)])
    show ?case
    proof (cases "j = 0")
      case True
      then have "butlast (vpath n va) = p"
        using Suc.prems(2) by simp
      with True get_last [OF vT] Suc.prems(1) assms(2) show ?thesis
        by (simp add: leaf_cell_def)
    next
      case False
      let ?q = "p @ [vidx (Suc j) va]"
      have len: "length p + 1 < n" "j < n"
        using arg_cong [OF Suc.prems(2), of length] False by auto
      have path: "vpath n va = ?q @ vpath j va"
        using Suc.prems(2) by simp
      have "butlast (vpath n va) = ?q @ butlast (vpath j va)"
        unfolding path using False by (simp add: butlast_append)
      then obtain T' where T': "t ?q = Some T'"
        using tables_ok_closed [OF assms(1), of ?q "butlast (vpath j va)"] assms(2)
        by (cases "t ?q") (auto simp: leaf_cell_def)
      have "get True (Suc j) T va s = get True j T' va s"
        using tables_ok_entry [OF assms(1) Suc.prems(1) len(1) vidx_lt, of "Suc j" va] T' False
        by (intro get_down [OF vT _ len(2)] tables_ok_valid [OF assms(1) T']) simp_all
      with Suc.IH [OF T' path] False show ?thesis by simp
    qed
  qed simp
  from this [OF tables_ok_root [OF assms(1)], of n] levels True show ?thesis by simp
qed

lemma unmap_ok:
  assumes ok: "tables root t (rd s)" and free: "free s vs" and w: "walk root va (rd s) = Some e"
    and f: "valid (frame e)" "frame e \<notin> set vs" "frame e \<notin> ran t" and dis: "ran t \<inter> set vs = {}"
  shows "\<exists>s'. unmapv root va s = Inr s' \<and> free s' (frame e # vs) \<and> tables root t (rd s')
     \<and> agree_on (- insert (frame e) (ran t)) (rd s) (rd s')
     \<and> (\<forall>vb. walk root vb (rd s') = (if vpn n vb = vpn n va then None else walk root vb (rd s)))"
proof -
  from walk_cell [OF ok w] obtain c where c: "cell t va = Some c" "rd s c = e"
    by blast
  from cell_table [OF ok c(1)] obtain T where T: "page_of c = T" "t (butlast (vpath n va)) = Some T"
    by blast
  have "c \<noteq> 0"
    using T tables_ok_valid [OF ok T(2)] valid_nonzero by (auto simp: page_of_def)
  from dl_ok [OF free f(1,2)] obtain s1 where
    s1: "dl (frame e) s = Inr s1" "free s1 (frame e # vs)" "agree_on (- {frame e}) (rd s) (rd s1)"
    by blast
  have ag: "agree_on (ran t) (rd s) (rd s1)"
    by (rule agree_on_mono [OF s1(3)]) (use f(3) in auto)
  note ok1 = tables_frame [OF ok ag]
  let ?s = "wr ((rd s1)(c := 0)) s1"
  have rd: "rd ?s = (rd s1)(c := 0)"
    by (rule rd_wr)
  have Tran: "T \<in> ran t"
    using T(2) by (auto simp: ran_def)
  have "free ?s (frame e # vs)"
    using T(1) Tran f(3) dis by (intro free_wr [OF s1(2)] agree_on_upd) auto
  moreover have "unmapv root va s = Inr ?s"
    using unmapv_eq [OF tables_ok_valid [OF ok tables_ok_root [OF ok]] get_present [OF ok c(1)] get_present [OF ok c(1)] \<open>c \<noteq> 0\<close>] s1(1) c(2) by simp
  moreover have "tables root t (rd ?s)"
    unfolding rd by (rule tables_write_leaf [OF ok1 c(1)])
  moreover have "agree_on (- insert (frame e) (ran t)) (rd s) (rd ?s)"
    unfolding rd using s1(3) T(1) Tran by (auto simp: agree_on_def)
  moreover have "walk root vb (rd ?s) = (if vpn n vb = vpn n va then None else walk root vb (rd s))" for vb
    unfolding rd by (simp add: walk_write [OF ok1 c(1)] pres_0 walk_frame [OF ok ag])
  ultimately show ?thesis by blast
qed

text \<open>
  The loops over a region: one fresh frame per page, given frames, and the
  release of all of them. \<open>val\<close> makes the entry of a frame.
\<close>

lemma map_alloc_list:
  assumes "tables root t (rd s)" "free s vs" "ran t \<inter> set vs = {}"
    and "length xs + card (missing_list n t xs) \<le> length vs"
    and "distinct (map (vpn n) xs)" "\<And>p. valid p \<Longrightarrow> pres (val p)"
  shows "\<exists>t' s' ps us vs'.
     for_each (\<lambda>i s. and_then (al s) (\<lambda>(p, s1). and_then (mapv root i (val p) s1)
       (\<lambda>(r, s2). and_then (unwrap_res r) (\<lambda>_. Inr s2)))) xs s = Inr s'
     \<and> length ps = length xs \<and> distinct (ps @ us @ vs') \<and> set (ps @ us @ vs') = set vs \<and> free s' vs'
     \<and> (\<exists>ws. vs = ws @ vs') \<and> length us = card (missing_list n t xs)
     \<and> dom t' = dom t \<union> (\<Union>x\<in>set xs. tpaths n x)
     \<and> tables root t' (rd s') \<and> ran t' = ran t \<union> set us \<and> agree_on (- (ran t' \<union> set ps)) (rd s) (rd s')
     \<and> (\<forall>k<length xs. walk root (xs ! k) (rd s') = Some (val (ps ! k)))
     \<and> (\<forall>vb. vpn n vb \<notin> vpn n ` set xs \<longrightarrow> walk root vb (rd s') = walk root vb (rd s))"
  using assms(1-5)
proof (induction xs arbitrary: t s vs)
  case Nil
  then show ?case
    by (intro exI [of _ t] exI [of _ s] exI [of _ "[]"] exI [of _ vs]) (simp add: free_distinct)
next
  case (Cons x xs)
  note ok = Cons.prems(1)
  have "0 < length vs"
    using Cons.prems(4) by auto
  then obtain p vs1 where vs: "vs = p # vs1"
    by (cases vs) auto
  have p: "valid p" "p \<notin> ran t" "p \<notin> set vs1" "page_aligned p"
    using Cons.prems(2,3) free_valid free_distinct valid_aligned vs by fastforce+
  from al_ok [OF Cons.prems(2) [unfolded vs]] obtain s1 where
    s1: "al s = Inr (p, s1)" "free s1 vs1" "rd s1 = zero_bytes p 4096 (rd s)"
    by blast
  have ag1: "agree_on (- {p}) (rd s) (rd s1)"
    using p(4) by (simp add: s1(3) agree_on_zero_bytes)
  then have agt: "agree_on (ran t) (rd s) (rd s1)"
    by (rule agree_on_mono) (use p(2) in auto)
  note ok1 = tables_frame [OF ok agt]
  have "ran t \<inter> set vs1 = {}" "card (missing n t x) \<le> length vs1"
    using Cons.prems(3,4) vs card_missing_Cons [of n t x xs] by auto
  from map_ok [OF ok1 s1(2) this, of "val p"] obtain t2 s2 us2 vs2 where
    2: "mapv root x (val p) s1 = Inr (Inr (), s2)" "vs1 = us2 @ vs2" "free s2 vs2" "tables root t2 (rd s2)"
      "ran t2 = ran t \<union> set us2" "agree_on (- ran t2) (rd s1) (rd s2)"
      "\<forall>vb. walk root vb (rd s2) =
          (if vpn n vb = vpn n x then (if pres (val p) then Some (val p) else None) else walk root vb (rd s1))"
    and us2: "length us2 = card (missing n t x)" "dom t2 = dom t \<union> tpaths n x"
    by blast
  note card = card_missing_list_Cons [OF us2(2), of xs]
  have w2: "walk root x (rd s2) = Some (val p)"
    using 2(7) assms(6) [OF p(1)] by simp
  have dvs: "distinct (p # us2 @ vs2)"
    using free_distinct [OF Cons.prems(2)] vs 2(2) by simp
  have room: "length xs + card (missing_list n t2 xs) \<le> length vs2"
    using Cons.prems(4) us2 vs 2(2) card by simp
  have dis: "ran t2 \<inter> set vs2 = {}"
    using Cons.prems(3) 2(2,5) vs dvs by auto
  have "distinct (map (vpn n) xs)"
    using Cons.prems(5) by simp
  from Cons.IH [OF 2(4,3) dis room this] obtain t' s' ps us vs' ws where
    3: "for_each (\<lambda>i s. and_then (al s) (\<lambda>(p, s1). and_then (mapv root i (val p) s1)
       (\<lambda>(r, s2). and_then (unwrap_res r) (\<lambda>_. Inr s2)))) xs s2 = Inr s'" "length ps = length xs"
      "distinct (ps @ us @ vs')" "set (ps @ us @ vs') = set vs2" "free s' vs'" "vs2 = ws @ vs'"
      and us: "length us = card (missing_list n t2 xs)" "dom t' = dom t2 \<union> (\<Union>x\<in>set xs. tpaths n x)"
      and 4:
      "tables root t' (rd s')" "ran t' = ran t2 \<union> set us" "agree_on (- (ran t' \<union> set ps)) (rd s2) (rd s')"
      "\<forall>k<length xs. walk root (xs ! k) (rd s') = Some (val (ps ! k))"
      "\<forall>vb. vpn n vb \<notin> vpn n ` set xs \<longrightarrow> walk root vb (rd s') = walk root vb (rd s2)"
    by (elim exE conjE)
  have x: "vpn n x \<notin> vpn n ` set xs"
    using Cons.prems(5) by simp
  have "walk root ((x # xs) ! k) (rd s') = Some (val ((p # ps) ! k))" if "k < length (x # xs)" for k
    using that 4(4,5) x w2 by (cases k) auto
  moreover have "walk root vb (rd s') = walk root vb (rd s)" if "vpn n vb \<notin> vpn n ` set (x # xs)" for vb
    using that 4(5) 2(7) walk_frame [OF ok agt] by simp
  moreover have "agree_on (- (ran t' \<union> set (p # ps))) (rd s) (rd s')"
    using ag1 2(6) 4(2,3) by (auto simp: agree_on_def)
  moreover have sets: "set ps \<union> (set us \<union> set vs') = set vs2"
    using 3(4) by simp
  then have "p \<notin> set ps \<union> (set us \<union> set vs')" "set us2 \<inter> (set ps \<union> (set us \<union> set vs')) = {}"
    using dvs by simp_all
  then have "distinct ((p # ps) @ (us2 @ us) @ vs')"
    using dvs 3(3) by (simp only: distinct_append distinct.simps set_append append_Cons) blast
  moreover have "set ((p # ps) @ (us2 @ us) @ vs') = set vs"
    using sets vs 2(2) by (simp add: Un_left_commute [of "set us2"] flip: sets)
  moreover have "length (us2 @ us) = card (missing_list n t (x # xs))"
      "dom t' = dom t \<union> (\<Union>x\<in>set (x # xs). tpaths n x)"
    using us us2 card by auto
  moreover have "vs = (p # us2 @ ws) @ vs'"
    using vs 2(2) 3(6) by simp
  moreover have "ran t' = ran t \<union> set (us2 @ us)"
    using 4(2) 2(5) by auto
  moreover have "for_each (\<lambda>i s. and_then (al s) (\<lambda>(p, s1). and_then (mapv root i (val p) s1)
       (\<lambda>(r, s2). and_then (unwrap_res r) (\<lambda>_. Inr s2)))) (x # xs) s = Inr s'"
    using s1(1) 2(1) 3(1) by simp
  ultimately show ?case
    using 3(2,5) 4(1) by (intro exI [of _ t'] exI [of _ s'] exI [of _ "p # ps"] exI [of _ "us2 @ us"] exI [of _ vs'])
      (intro conjI; (assumption | simp | blast))
qed

lemma map_list:
  assumes "tables root t (rd s)" "free s vs" "ran t \<inter> set vs = {}"
    and "card (missing_list n t (map fst xs)) \<le> length vs"
    and "distinct (map (\<lambda>x. vpn n (fst x)) xs)" "\<forall>x\<in>set xs. pres (snd x)"
  shows "\<exists>t' s' us vs'.
     for_each (\<lambda>(i, v) s. and_then (mapv root i v s)
       (\<lambda>(r, s2). and_then (unwrap_res r) (\<lambda>_. Inr s2))) xs s = Inr s'
     \<and> vs = us @ vs' \<and> free s' vs' \<and> length us = card (missing_list n t (map fst xs))
     \<and> dom t' = dom t \<union> (\<Union>x\<in>set xs. tpaths n (fst x))
     \<and> tables root t' (rd s') \<and> ran t' = ran t \<union> set us \<and> agree_on (- ran t') (rd s) (rd s')
     \<and> (\<forall>x\<in>set xs. walk root (fst x) (rd s') = Some (snd x))
     \<and> (\<forall>vb. vpn n vb \<notin> (\<lambda>x. vpn n (fst x)) ` set xs \<longrightarrow> walk root vb (rd s') = walk root vb (rd s))"
  using assms
proof (induction xs arbitrary: t s vs)
  case Nil
  then show ?case
    by (intro exI [of _ t] exI [of _ s] exI [of _ "[]"] exI [of _ vs]) simp
next
  case (Cons x xs)
  note ok = Cons.prems(1)
  have "card (missing n t (fst x)) \<le> length vs"
    using Cons.prems(4) card_missing_Cons [of n t "fst x" "map fst xs"] by simp
  from map_ok [OF ok Cons.prems(2,3) this, of "snd x"] obtain t2 s2 us2 vs2 where
    2: "mapv root (fst x) (snd x) s = Inr (Inr (), s2)" "vs = us2 @ vs2" "free s2 vs2" "tables root t2 (rd s2)"
      "ran t2 = ran t \<union> set us2" "agree_on (- ran t2) (rd s) (rd s2)"
      "\<forall>vb. walk root vb (rd s2) = (if vpn n vb = vpn n (fst x)
         then (if pres (snd x) then Some (snd x) else None) else walk root vb (rd s))"
    and us2: "length us2 = card (missing n t (fst x))" "dom t2 = dom t \<union> tpaths n (fst x)"
    by blast
  note card = card_missing_list_Cons [OF us2(2), of "map fst xs"]
  have room: "card (missing_list n t2 (map fst xs)) \<le> length vs2"
    using Cons.prems(4) us2 2(2) card by simp
  have dis: "ran t2 \<inter> set vs2 = {}"
    using Cons.prems(3) 2(2,5) free_distinct [OF Cons.prems(2)] by auto
  have "distinct (map (\<lambda>x. vpn n (fst x)) xs)" "\<forall>x\<in>set xs. pres (snd x)"
    using Cons.prems(5,6) by auto
  from Cons.IH [OF 2(4,3) dis room this] obtain t' s' us vs' where
    3: "for_each (\<lambda>(i, v) s. and_then (mapv root i v s)
       (\<lambda>(r, s2). and_then (unwrap_res r) (\<lambda>_. Inr s2))) xs s2 = Inr s'"
      "vs2 = us @ vs'" "free s' vs'" "tables root t' (rd s')" "ran t' = ran t2 \<union> set us"
      "agree_on (- ran t') (rd s2) (rd s')" "\<forall>x\<in>set xs. walk root (fst x) (rd s') = Some (snd x)"
      "\<forall>vb. vpn n vb \<notin> (\<lambda>x. vpn n (fst x)) ` set xs \<longrightarrow> walk root vb (rd s') = walk root vb (rd s2)"
      and us: "length us = card (missing_list n t2 (map fst xs))"
        "dom t' = dom t2 \<union> (\<Union>x\<in>set xs. tpaths n (fst x))"
    by (elim exE conjE)
  have x: "vpn n (fst x) \<notin> (\<lambda>x. vpn n (fst x)) ` set xs"
    using Cons.prems(5) by simp
  then have "\<forall>y\<in>set (x # xs). walk root (fst y) (rd s') = Some (snd y)"
    using 2(7) 3(7,8) Cons.prems(6) by simp
  moreover have "walk root vb (rd s') = walk root vb (rd s)" if "vpn n vb \<notin> (\<lambda>x. vpn n (fst x)) ` set (x # xs)" for vb
    using that 3(8) 2(7) by simp
  moreover have "agree_on (- ran t') (rd s) (rd s')"
    using 2(6) 3(5,6) by (auto simp: agree_on_def)
  moreover have "for_each (\<lambda>(i, v) s. and_then (mapv root i v s)
       (\<lambda>(r, s2). and_then (unwrap_res r) (\<lambda>_. Inr s2))) (x # xs) s = Inr s'"
    using 2(1) 3(1) by (simp add: case_prod_beta)
  moreover have "length (us2 @ us) = card (missing_list n t (map fst (x # xs)))"
      "dom t' = dom t \<union> (\<Union>x\<in>set (x # xs). tpaths n (fst x))"
    using us us2 card by auto
  moreover have "ran t' = ran t \<union> set (us2 @ us)"
    using 3(5) 2(5) by auto
  ultimately show ?case
    using 3(2,3,4) 2(2) by (intro exI [of _ t'] exI [of _ s'] exI [of _ "us2 @ us"] exI [of _ vs'])
      (intro conjI; (assumption | simp))
qed

lemma unmap_list:
  assumes "tables root t (rd s)" "free s vs" "ran t \<inter> set vs = {}" "length es = length xs"
    and "distinct (map (vpn n) xs)" "\<forall>k<length xs. walk root (xs ! k) (rd s) = Some (es ! k)"
    and "distinct (map frame es)" "\<forall>e\<in>set es. valid (frame e) \<and> frame e \<notin> set vs \<and> frame e \<notin> ran t"
  shows "\<exists>s'. for_each (unmapv root) xs s = Inr s' \<and> free s' (rev (map frame es) @ vs)
     \<and> tables root t (rd s') \<and> agree_on (- (ran t \<union> frame ` set es)) (rd s) (rd s')
     \<and> (\<forall>vb. walk root vb (rd s') = (if vpn n vb \<in> vpn n ` set xs then None else walk root vb (rd s)))"
  using assms
proof (induction xs arbitrary: s vs es)
  case Nil
  then show ?case by auto
next
  case (Cons x xs)
  from Cons.prems(4) obtain e es' where es: "es = e # es'" "length es' = length xs"
    by (cases es) auto
  have w: "walk root x (rd s) = Some e"
    using Cons.prems(6) es by auto
  have f: "valid (frame e)" "frame e \<notin> set vs" "frame e \<notin> ran t"
    using Cons.prems(8) es by auto
  from unmap_ok [OF Cons.prems(1,2) w f Cons.prems(3)] obtain s1 where
    1: "unmapv root x s = Inr s1" "free s1 (frame e # vs)" "tables root t (rd s1)"
      "agree_on (- insert (frame e) (ran t)) (rd s) (rd s1)"
      "\<forall>vb. walk root vb (rd s1) = (if vpn n vb = vpn n x then None else walk root vb (rd s))"
    by blast
  have "walk root (xs ! k) (rd s1) = Some (es' ! k)" if "k < length xs" for k
  proof -
    have "vpn n (xs ! k) \<noteq> vpn n x"
      using Cons.prems(5) nth_mem [OF that] by (metis distinct.simps(2) imageI list.set_map list.simps(9))
    with Cons.prems(6) es that 1(5) show ?thesis by auto
  qed
  moreover have "ran t \<inter> set (frame e # vs) = {}" "distinct (map (vpn n) xs)" "distinct (map frame es')"
    "\<forall>e'\<in>set es'. valid (frame e') \<and> frame e' \<notin> set (frame e # vs) \<and> frame e' \<notin> ran t"
    using Cons.prems(3,5,7,8) f(3) es by (auto dest: image_eqI [OF sym])
  ultimately obtain s' where
    2: "for_each (unmapv root) xs s1 = Inr s'" "free s' (rev (map frame es') @ frame e # vs)"
      "tables root t (rd s')" "agree_on (- (ran t \<union> frame ` set es')) (rd s1) (rd s')"
      "\<forall>vb. walk root vb (rd s') = (if vpn n vb \<in> vpn n ` set xs then None else walk root vb (rd s1))"
    using Cons.IH [OF 1(3,2) _ es(2)] by blast
  have "agree_on (- (ran t \<union> frame ` set es)) (rd s) (rd s')"
    using 1(4) 2(4) es(1) by (auto simp: agree_on_def)
  with 1(1,5) 2 es(1) show ?case by simp
qed

end

end
