(* ===== verification/PtX86.thy ===== *)
theory PtX86
  imports Pmm Radix
begin

text \<open>
  The x86_64 page tables, \<^verbatim>\<open>kernel/src/arch/x86_64/pt/mod.rs\<close>: the flag sets of
  the VMM and of page table entries, the table walk \<^verbatim>\<open>PTENT::get_table\<close>, mapping,
  unmapping and the loops over regions. \<open>x86_mmu\<close> is the walk of the processor,
  against which they are judged.
\<close>

section \<open>Flags\<close>

text \<open>\<^verbatim>\<open>VMMFlags\<close> of \<^verbatim>\<open>kernel/src/memory/vmm/mod.rs\<close>.\<close>

definition VMM_WRITE :: u8 where "VMM_WRITE = 1"
definition VMM_EXECUTABLE :: u8 where "VMM_EXECUTABLE = 2"
definition VMM_GLOBAL :: u8 where "VMM_GLOBAL = 4"
definition VMM_USER :: u8 where "VMM_USER = 8"
definition VMM_NOCACHE :: u8 where "VMM_NOCACHE = 16"

text \<open>The bitflags type \<^verbatim>\<open>PT\<close>.\<close>

definition PT_PRESENT :: u16 where "PT_PRESENT = 1"
definition PT_WRITE :: u16 where "PT_WRITE = 2"
definition PT_USER :: u16 where "PT_USER = 4"
definition PT_NEXEC :: u16 where "PT_NEXEC = 8"
definition PT_GLOBAL :: u16 where "PT_GLOBAL = 16"
definition PT_GIGAPAGE :: u16 where "PT_GIGAPAGE = 32"
definition PT_MEGAPAGE :: u16 where "PT_MEGAPAGE = 64"
definition PT_PWT :: u16 where "PT_PWT = 128"
definition PT_PCD :: u16 where "PT_PCD = 256"
definition PT_PAT :: u16 where "PT_PAT = 512"

definition x86_from_vmmflags :: "u8 \<Rightarrow> u16" where
  "x86_from_vmmflags fla =
     (let val = PT_PRESENT;
          val = (if contains fla VMM_WRITE then val OR PT_WRITE else val);
          val = (if \<not> contains fla VMM_EXECUTABLE then val OR PT_NEXEC else val);
          val = (if contains fla VMM_GLOBAL then val OR PT_GLOBAL else val);
          val = (if contains fla VMM_USER then val OR PT_USER else val);
          val = (if contains fla VMM_NOCACHE then val OR (PT_PCD OR PT_PWT) else val)
      in val)"

text \<open>\<^verbatim>\<open>PT::new\<close>: the flags an entry of level \<open>lvl\<close> carries.\<close>

definition x86_pt_new :: "u64 \<Rightarrow> nat \<Rightarrow> u16" where
  "x86_pt_new check lvl =
     (let r = (0 :: u16);
          r = (if check AND 1 \<noteq> 0 then r OR PT_PRESENT else r);
          r = (if check AND 2 \<noteq> 0 then r OR PT_WRITE else r);
          r = (if check AND 4 \<noteq> 0 then r OR PT_USER else r);
          r = (if check AND 8 \<noteq> 0 then r OR PT_PWT else r);
          r = (if check AND 16 \<noteq> 0 then r OR PT_PCD else r);
          r = (if check AND 0x8000000000000000 \<noteq> 0 then r OR PT_NEXEC else r)
      in if lvl = 3 then
           if check AND 0x80 \<noteq> 0 then
             let r = r OR PT_GIGAPAGE;
                 r = (if check AND 0x100 \<noteq> 0 then r OR PT_GLOBAL else r)
             in if check AND 0x1000 \<noteq> 0 then r OR PT_PAT else r
           else r
         else if lvl = 2 then
           if check AND 0x80 \<noteq> 0 then
             let r = r OR PT_MEGAPAGE;
                 r = (if check AND 0x100 \<noteq> 0 then r OR PT_GLOBAL else r)
             in if check AND 0x1000 \<noteq> 0 then r OR PT_PAT else r
           else r
         else if lvl = 1 then
           let r = (if check AND 0x100 \<noteq> 0 then r OR PT_GLOBAL else r)
           in if check AND 0x80 \<noteq> 0 then r OR PT_PAT else r
         else r)"

definition x86_build_permissions :: "u16 \<Rightarrow> nat \<Rightarrow> u64" where
  "x86_build_permissions self lvl =
     (let v = (0 :: u64);
          v = (if contains self PT_PRESENT then v OR 1 else v);
          v = (if contains self PT_USER then v OR 4 else v);
          v = (if contains self PT_WRITE then v OR 2 else v);
          v = (if contains self PT_PWT then v OR 8 else v);
          v = (if contains self PT_PCD then v OR 16 else v);
          v = (if contains self PT_NEXEC then v OR 0x8000000000000000 else v)
      in if lvl = 3 then
           if contains self PT_GIGAPAGE then
             let v = v OR 0x80;
                 v = (if contains self PT_GLOBAL then v OR 0x100 else v)
             in if contains self PT_PAT then v OR 0x1000 else v
           else v
         else if lvl = 2 then
           if contains self PT_MEGAPAGE then
             let v = v OR 0x80;
                 v = (if contains self PT_GLOBAL then v OR 0x100 else v)
             in if contains self PT_PAT then v OR 0x1000 else v
           else v
         else if lvl = 1 then
           let v = (if contains self PT_GLOBAL then v OR 0x100 else v)
           in if contains self PT_PAT then v OR 0x80 else v
         else v)"

section \<open>Walking\<close>

definition x86_extract_phys_from_pte :: "u64 \<Rightarrow> u64" where
  "x86_extract_phys_from_pte pte = pte AND 0x000FFFFFFFFFF000"

text \<open>The table an entry points to: \<open>((e & !0xFFF) & !(1 << 63)) + hhdm\<close>.\<close>

definition x86_table_of :: "u64 \<Rightarrow> u64 \<Rightarrow> u64" where
  "x86_table_of hh e = (page_of e AND 0x7FFFFFFFFFFFFFFF) + hh"

definition x86_level_shift :: "nat \<Rightarrow> nat option" where
  "x86_level_shift j =
     (if j = 4 then Some 39 else if j = 3 then Some 30 else if j = 2 then Some 21
      else if j = 1 then Some 12 else if j = 0 then Some 0 else None)"

text \<open>
  The loop \<^verbatim>\<open>for j in (1..=4).rev()\<close> of \<^verbatim>\<open>get_table\<close>, from level \<open>j\<close> on, at the
  table \<open>T\<close>. The entry is returned as its physical address.
\<close>

primrec x86_get_table_from ::
    "u64 \<Rightarrow> bool \<Rightarrow> nat \<Rightarrow> u64 \<Rightarrow> u64 \<Rightarrow> 'z pmm_state_scheme \<Rightarrow> panic + ((string + u64) \<times> 'z pmm_state_scheme)" where
  "x86_get_table_from hh alloc 0 T virt s = Inr (Inl ''fuck'', s)"
| "x86_get_table_from hh alloc (Suc j) T virt s =
     (case x86_level_shift (Suc j) of
        None \<Rightarrow> Inl (PanicMsg ''unexpected page level'')
      | Some sh \<Rightarrow>
          let vi = drop_bit sh virt AND 0x1ff;
              c = T + vi * 8;
              nxt = mem s c;
              perm = x86_pt_new nxt (Suc j)
          in if contains perm PT_MEGAPAGE \<or> contains perm PT_GIGAPAGE \<or> Suc j = 1
             then Inr (Inr (c - hh), s)
             else if nxt = 0 then
               if alloc then
                 and_then (allocate_page hh s) (\<lambda>(page, s1).
                   let m1 = (mem s1)(c := (page - hh) OR ucast (PT_PRESENT OR PT_USER OR PT_WRITE));
                       T' = x86_table_of hh (m1 c)
                   in if T' = 0 then Inl UnwrapNone
                      else x86_get_table_from hh alloc j T' virt (s1\<lparr>mem := m1\<rparr>))
               else Inr (Inl ''bru'', s)
             else
               let T' = x86_table_of hh nxt
               in if T' = 0 then Inl UnwrapNone
                  else x86_get_table_from hh alloc j T' virt s)"

definition x86_get_table ::
    "u64 \<Rightarrow> u64 \<Rightarrow> u64 \<Rightarrow> bool \<Rightarrow> 'z pmm_state_scheme \<Rightarrow> panic + ((string + u64) \<times> 'z pmm_state_scheme)" where
  "x86_get_table hh self virt alloc s =
     (let T = x86_table_of hh self
      in if T = 0 then Inl UnwrapNone else x86_get_table_from hh alloc 4 T virt s)"

text \<open>The TLB flush \<^verbatim>\<open>invlpg\<close> has no effect on memory.\<close>

definition x86_unmap ::
    "u64 \<Rightarrow> u64 \<Rightarrow> u64 \<Rightarrow> 'z pmm_state_scheme \<Rightarrow> panic + 'z pmm_state_scheme" where
  "x86_unmap hh self virt s =
     and_then (x86_get_table hh self virt False s) (\<lambda>(bro, s1).
       case bro of
         Inl _ \<Rightarrow> Inr s1
       | Inr p \<Rightarrow>
           let h = p + hh
           in if h \<noteq> 0 then
                and_then (deallocate_page hh (x86_extract_phys_from_pte (mem s1 h) + hh) s1) (\<lambda>s2.
                  Inr (s2\<lparr>mem := (mem s2)(h := 0)\<rparr>))
              else Inr s1)"

definition x86_map_entry ::
    "u64 \<Rightarrow> u64 \<Rightarrow> u64 \<Rightarrow> u64 \<Rightarrow> 'z pmm_state_scheme \<Rightarrow> panic + ((string + unit) \<times> 'z pmm_state_scheme)" where
  "x86_map_entry hh self virt val s =
     and_then (x86_get_table hh self virt True s) (\<lambda>(answer, s1).
       case answer of
         Inl e \<Rightarrow> Inr (Inl e, s1)
       | Inr p_t \<Rightarrow> Inr (Inr (), s1\<lparr>mem := (mem s1)(p_t + hh := val)\<rparr>))"

definition x86_map4kib ::
    "u64 \<Rightarrow> u64 \<Rightarrow> u64 \<Rightarrow> u64 \<Rightarrow> u16 \<Rightarrow> 'z pmm_state_scheme
      \<Rightarrow> panic + ((string + unit) \<times> 'z pmm_state_scheme)" where
  "x86_map4kib hh self virt phys flags s =
     x86_map_entry hh self virt (x86_extract_phys_from_pte phys OR x86_build_permissions flags 1) s"

section \<open>Regions\<close>

text \<open>\<open>map4kib(...).unwrap()\<close>\<close>

definition x86_map4kib_unwrap ::
    "u64 \<Rightarrow> u64 \<Rightarrow> u64 \<Rightarrow> u64 \<Rightarrow> u16 \<Rightarrow> 'z pmm_state_scheme \<Rightarrow> panic + 'z pmm_state_scheme" where
  "x86_map4kib_unwrap hh self virt phys flags s =
     and_then (x86_map4kib hh self virt phys flags s) (\<lambda>(r, s1). and_then (unwrap_res r) (\<lambda>_. Inr s1))"

definition x86_arch_map_region_alloc ::
    "u64 \<Rightarrow> u64 \<Rightarrow> usize \<Rightarrow> usize \<Rightarrow> u8 \<Rightarrow> 'z pmm_state_scheme \<Rightarrow> panic + 'z pmm_state_scheme" where
  "x86_arch_map_region_alloc hh arch_page base len flags s =
     for_each (\<lambda>i s.
         and_then (allocate_page hh s) (\<lambda>(page, s1).
           x86_map4kib_unwrap hh arch_page i (page - hh) (x86_from_vmmflags flags) s1))
       (range_step base (base + len) 4096) s"

definition x86_arch_map_region ::
    "u64 \<Rightarrow> u64 \<Rightarrow> usize \<Rightarrow> usize \<Rightarrow> u64 list \<Rightarrow> u8 \<Rightarrow> 'z pmm_state_scheme \<Rightarrow> panic + 'z pmm_state_scheme" where
  "x86_arch_map_region hh arch_page base len phys flags s =
     for_each (\<lambda>(idx, i) s.
         if idx < length phys
         then x86_map4kib_unwrap hh arch_page i (phys ! idx) (x86_from_vmmflags flags) s
         else Inl OutOfBounds)
       (let r = range_step base (base + len) 4096 in zip [0..<length r] r) s"

definition x86_arch_unmap_region ::
    "u64 \<Rightarrow> u64 \<Rightarrow> usize \<Rightarrow> usize \<Rightarrow> 'z pmm_state_scheme \<Rightarrow> panic + 'z pmm_state_scheme" where
  "x86_arch_unmap_region hh arch_page base len s =
     for_each (x86_unmap hh arch_page) (range_step base (base + len) 4096) s"

definition x86_arch_map4kib ::
    "u64 \<Rightarrow> u64 \<Rightarrow> usize \<Rightarrow> usize \<Rightarrow> u8 \<Rightarrow> 'z pmm_state_scheme \<Rightarrow> panic + 'z pmm_state_scheme" where
  "x86_arch_map4kib hh arch_page va pa flags s =
     x86_map4kib_unwrap hh arch_page va pa (x86_from_vmmflags flags) s"

section \<open>Initialisation\<close>

text \<open>
  The extent of the direct map and the frame buffer, from the memory map:
  \<open>(max_hhdm_phys, memmap_fb_info)\<close>.
\<close>

definition x86_memmap_step :: "memmap_entry \<Rightarrow> usize \<times> usize \<times> usize \<Rightarrow> usize \<times> usize \<times> usize" where
  "x86_memmap_step i acc =
     (case acc of (max_hhdm_phys, fb) \<Rightarrow>
        if me_type i \<in> {MEMMAP_MAPPED_RESERVED, MEMMAP_USABLE, MEMMAP_BOOTLOADER_RECLAIMABLE,
                        MEMMAP_EXECUTABLE_AND_MODULES, MEMMAP_ACPI_NVS, MEMMAP_ACPI_RECLAIMABLE}
        then (max (me_base i + me_length i) max_hhdm_phys, fb)
        else if me_type i = MEMMAP_FRAMEBUFFER
        then (max (me_base i + me_length i) max_hhdm_phys, (me_base i, me_length i))
        else acc)"

definition x86_memmap_extent :: "memmap_entry list option \<Rightarrow> usize \<times> usize \<times> usize" where
  "x86_memmap_extent resp =
     (case resp of
        None \<Rightarrow> (0, 0, 0)
      | Some es \<Rightarrow> fold x86_memmap_step es (0, 0, 0))"

definition x86_hhdm_flags :: "usize \<times> usize \<Rightarrow> usize \<Rightarrow> u16" where
  "x86_hhdm_flags fb i =
     (if fst fb \<le> i \<and> i < fst fb + snd fb
      then PT_GLOBAL OR PT_PRESENT OR PT_WRITE OR PT_NEXEC OR PT_PAT OR PT_PWT
      else PT_GLOBAL OR PT_PRESENT OR PT_WRITE)"

text \<open>
  The two mapping loops of \<^verbatim>\<open>pt_init\<close>: the kernel image at its link address and
  all of physical memory at the direct map offset.
\<close>

definition x86_map_kernel ::
    "u64 \<Rightarrow> u64 \<Rightarrow> usize \<Rightarrow> usize \<Rightarrow> usize \<Rightarrow> 'z pmm_state_scheme \<Rightarrow> panic + 'z pmm_state_scheme" where
  "x86_map_kernel hh pml4 kaddrv kaddrp kernel_size s =
     for_each (\<lambda>i. x86_map4kib_unwrap hh pml4 (kaddrv + i) (kaddrp + i) (PT_GLOBAL OR PT_PRESENT OR PT_WRITE))
       (range_step 0 kernel_size 4096) s"

definition x86_map_hhdm ::
    "u64 \<Rightarrow> u64 \<Rightarrow> usize \<Rightarrow> usize \<times> usize \<Rightarrow> 'z pmm_state_scheme \<Rightarrow> panic + 'z pmm_state_scheme" where
  "x86_map_hhdm hh pml4 max_hhdm_phys fb s =
     for_each (\<lambda>i. x86_map4kib_unwrap hh pml4 (hh + i) i (x86_hhdm_flags fb i))
       (range_step 0 max_hhdm_phys 4096) s"

text \<open>
  \<^verbatim>\<open>pt_init\<close>. The CPU's \<open>cr3\<close>, the linker's \<open>KERNEL_START\<close> and \<open>KERNEL_END\<close> and the
  boot loader's answers are arguments; the result is \<open>(max_hhdm_phys, kernel_size)\<close>
  and the value written to \<open>cr3\<close>.
\<close>

definition x86_pt_init ::
    "u64 \<Rightarrow> u64 \<Rightarrow> u64 \<Rightarrow> u64 \<Rightarrow> unit option \<Rightarrow> (u64 \<times> u64) option \<Rightarrow> memmap_entry list option \<Rightarrow>
      'z pmm_state_scheme \<Rightarrow> panic + ((usize \<times> usize) \<times> u64 \<times> 'z pmm_state_scheme)" where
  "x86_pt_init hh cr3 kstart kend paging kaddr memmap s =
     (let kernel_size = align_up (kend - kstart) PAGE_SIZE
      in and_then (unwrap_opt paging) (\<lambda>_.
         and_then (x86_get_table hh (page_of cr3 AND 0x7FFFFFFFFFFFFFFF) 0xffffffff80015000 False s) (\<lambda>(r, s0).
         and_then (unwrap_res r) (\<lambda>_.
         and_then (allocate_page hh s0) (\<lambda>(page, s1).
         and_then (unwrap_opt kaddr) (\<lambda>(kaddrv, kaddrp).
         and_then (x86_map_kernel hh (page - hh) kaddrv kaddrp kernel_size s1) (\<lambda>s2.
           let (mx, fb) = x86_memmap_extent memmap;
               max_hhdm_phys = align_up mx PAGE_SIZE
           in and_then (x86_map_hhdm hh (page - hh) max_hhdm_phys fb s2) (\<lambda>s3.
                Inr ((max_hhdm_phys, kernel_size), page - hh, s3)))))))))"

section \<open>The processor's view\<close>

text \<open>
  A walk of the processor through 4-level tables whose root is the page at the
  virtual address \<open>T\<close>: an entry is present when bit 0 is set, ends the walk at
  level 3 or 2 when bit 7 is set, and holds the next table in bits 12 to 51.
\<close>

definition x86_present :: "u64 \<Rightarrow> bool" where
  "x86_present e \<longleftrightarrow> e AND 1 \<noteq> 0"

definition x86_large :: "nat \<Rightarrow> u64 \<Rightarrow> bool" where
  "x86_large j e \<longleftrightarrow> (j = 3 \<or> j = 2) \<and> e AND 0x80 \<noteq> 0"

definition x86_next :: "u64 \<Rightarrow> u64 \<Rightarrow> u64" where
  "x86_next hh e = x86_extract_phys_from_pte e + hh"

definition x86_mmu :: "u64 \<Rightarrow> u64 \<Rightarrow> u64 \<Rightarrow> memory \<Rightarrow> u64 option" where
  "x86_mmu hh T va m = radix_walk x86_present x86_large (x86_next hh) 4 T va m"

text \<open>An entry of an upper table.\<close>

definition x86_mk :: "u64 \<Rightarrow> u64 \<Rightarrow> u64" where
  "x86_mk hh T = (T - hh) OR 7"

subsection \<open>Bits of entries\<close>

lemma x86_addr_mask: "(0x000FFFFFFFFFF000 :: u64) = push_bit 12 (mask 40)"
  by (simp add: mask_eq_exp_minus_1 push_bit_eq_mult)

lemma x86_sign_mask: "(0x7FFFFFFFFFFFFFFF :: u64) = mask 63"
  by (simp add: mask_eq_exp_minus_1)

lemma x86_mk_bits:
  assumes "phys_frame hh T"
  shows "bit (x86_mk hh T) i \<longleftrightarrow> bit (T - hh) i \<or> i < 3" "bit (T - hh) i \<Longrightarrow> 12 \<le> i \<and> i < 52"
proof -
  have "x86_mk hh T = (T - hh) OR mask 3"
    by (simp add: x86_mk_def mask_eq_exp_minus_1)
  then show "bit (x86_mk hh T) i \<longleftrightarrow> bit (T - hh) i \<or> i < 3"
    by (simp only: bit_or_iff bit_mask_iff) auto
  show "bit (T - hh) i \<Longrightarrow> 12 \<le> i \<and> i < 52"
    using assms frame_bits unfolding phys_frame_def by blast
qed

lemma x86_mk_facts:
  assumes T: "phys_frame hh T"
  shows "x86_present (x86_mk hh T)" "\<not> x86_large j (x86_mk hh T)" "x86_next hh (x86_mk hh T) = T"
    "x86_table_of hh (x86_mk hh T) = T" "x86_mk hh T \<noteq> 0" "x86_mk hh T AND 0x80 = 0"
proof -
  note b = x86_mk_bits [OF T]
  have 0: "bit (x86_mk hh T) 0"
    by (simp add: b(1))
  then show "x86_present (x86_mk hh T)"
    using and_exp_eq_0_iff_not_bit [of "x86_mk hh T" 0] by (simp add: x86_present_def)
  show "x86_mk hh T \<noteq> 0"
    using 0 by auto
  have "\<not> bit (x86_mk hh T) 7"
    using b(1) [of 7] b(2) [of 7] by auto
  then show 7: "x86_mk hh T AND 0x80 = 0"
    using and_exp_eq_0_iff_not_bit [of "x86_mk hh T" 7] by simp
  then show "\<not> x86_large j (x86_mk hh T)"
    by (simp add: x86_large_def)
  have "x86_mk hh T AND push_bit 12 (mask 40) = T - hh"
    using b(1) by (intro bit_eqI) (fastforce simp: bit_simps dest: b(2))
  then show "x86_next hh (x86_mk hh T) = T"
    by (simp add: x86_next_def x86_extract_phys_from_pte_def x86_addr_mask)
  have "(x86_mk hh T AND NOT (mask 12)) AND mask 63 = T - hh"
    using b(1) by (intro bit_eqI) (fastforce simp: bit_simps dest: b(2))
  then show "x86_table_of hh (x86_mk hh T) = T"
    by (simp only: x86_table_of_def page_of_def mask_12_eq x86_sign_mask) simp
qed

section \<open>The contract\<close>

lemma x86_get_table_step:
  fixes T va :: u64
  assumes "0 < j" "j < 4"
  defines "c \<equiv> entry_at T (vidx (Suc j) va)"
  shows "mem s c = 0 \<Longrightarrow> x86_get_table_from hh False (Suc j) T va s = Inr (Inl ''bru'', s)"
    and "mem s c = 0 \<Longrightarrow> allocate_page hh s = Inr (p, s1) \<Longrightarrow> phys_frame hh p \<Longrightarrow>
      x86_get_table_from hh True (Suc j) T va s
        = x86_get_table_from hh True j p va (s1\<lparr>mem := (mem s1)(c := x86_mk hh p)\<rparr>)"
    and "mem s c = x86_mk hh p \<Longrightarrow> phys_frame hh p \<Longrightarrow>
      x86_get_table_from hh a (Suc j) T va s = x86_get_table_from hh a j p va s"
proof -
  have sh: "x86_level_shift (Suc j) = Some (12 + 9 * j)"
    using assms(1,2) by (auto simp: x86_level_shift_def less_Suc_eq numeral_eq_Suc)
  have small: "\<not> contains (x86_pt_new e (Suc j)) PT_MEGAPAGE" "\<not> contains (x86_pt_new e (Suc j)) PT_GIGAPAGE"
    if "e AND 0x80 = 0" for e
    using that assms(1)
    by (simp_all add: x86_pt_new_def contains_def PT_PRESENT_def PT_WRITE_def PT_USER_def PT_PWT_def
        PT_PCD_def PT_NEXEC_def PT_MEGAPAGE_def PT_GIGAPAGE_def Let_def)
  have nz: "p \<noteq> 0" if "phys_frame hh p" for p
    using that by (simp add: phys_frame_def valid_frame_def)
  have bits: "(ucast (PT_PRESENT OR PT_USER OR PT_WRITE) :: u64) = 7"
    by (simp add: PT_PRESENT_def PT_USER_def PT_WRITE_def)
  show "mem s c = 0 \<Longrightarrow> x86_get_table_from hh False (Suc j) T va s = Inr (Inl ''bru'', s)"
    using assms(1) small [of 0] by (simp add: sh Let_def entry_at_shift c_def)
  show "mem s c = 0 \<Longrightarrow> allocate_page hh s = Inr (p, s1) \<Longrightarrow> phys_frame hh p \<Longrightarrow>
      x86_get_table_from hh True (Suc j) T va s
        = x86_get_table_from hh True j p va (s1\<lparr>mem := (mem s1)(c := x86_mk hh p)\<rparr>)"
    using assms(1) small [of 0] x86_mk_facts(4) [of hh p] nz [of p]
    by (simp add: sh Let_def entry_at_shift c_def bits x86_mk_def)
  show "mem s c = x86_mk hh p \<Longrightarrow> phys_frame hh p \<Longrightarrow>
      x86_get_table_from hh a (Suc j) T va s = x86_get_table_from hh a j p va s"
    using assms(1) small [of "x86_mk hh p"] x86_mk_facts(4-6) [of hh p] nz [of p]
    by (simp add: sh Let_def entry_at_shift c_def)
qed

lemma x86_get_table_last:
  "x86_get_table_from hh a 1 T va s = Inr (Inr (entry_at T (vidx 1 va) - hh), s)"
  using entry_at_shift [of T 0 va] by (simp add: x86_level_shift_def Let_def)

declare x86_get_table_from.simps [simp del]

lemma x86_table_of_root: "phys_frame hh T \<Longrightarrow> x86_table_of hh (T - hh) = T"
proof -
  assume T: "phys_frame hh T"
  then have "((T - hh) AND NOT (mask 12)) AND mask 63 = T - hh"
    using x86_mk_bits(2) [OF T] by (intro bit_eqI) (fastforce simp: bit_simps)
  then show ?thesis
    by (simp only: x86_table_of_def page_of_def mask_12_eq x86_sign_mask) simp
qed

lemma x86_get_table_eq:
  "phys_frame hh T \<Longrightarrow> x86_get_table hh (T - hh) va a s = x86_get_table_from hh a 4 T va s"
  by (auto simp: x86_get_table_def x86_table_of_root Let_def phys_frame_def valid_frame_def)

interpretation x86: page_mapper "allocate_page hh" "deallocate_page hh" mem set_mem
  "pmm_phys hh" "phys_frame hh" 4 "x86_mk hh" "x86_get_table_from hh" "\<lambda>c. c - hh" "''bru''"
  x86_present x86_large "x86_next hh" "\<lambda>T. x86_map_entry hh (T - hh)" "\<lambda>T. x86_unmap hh (T - hh)"
  "x86_next hh" for hh :: u64
proof (unfold_locales, goal_cases)
  case (2 T) then show ?case by (rule x86_mk_facts)
next
  case (4 T j) then show ?case by (rule x86_mk_facts)
next
  case (5 T) then show ?case by (rule x86_mk_facts)
next
  case 6 show ?case by (rule x86_get_table_last)
next
  case (7 T j T' s va a) then show ?case by (intro x86_get_table_step(3))
next
  case (8 T j s va T' s1) then show ?case using x86_get_table_step(2) by (simp add: set_mem_def)
next
  case (9 T j s va) then show ?case by (intro x86_get_table_step(1))
next
  case (10 root va s c s1 v)
  then show ?case
    by (simp add: x86_map_entry_def x86_get_table_eq set_mem_def)
next
  case (11 root va s c)
  then show ?case
    by (simp add: x86_unmap_def x86_get_table_eq set_mem_def x86_next_def Let_def)
qed (auto simp: x86_present_def phys_frame_def valid_frame_def)

section \<open>Entries of the last level\<close>

definition x86_pte :: "u64 \<Rightarrow> u16 \<Rightarrow> u64" where
  "x86_pte phys flags = x86_extract_phys_from_pte phys OR x86_build_permissions flags 1"

lemmas PT_defs = PT_PRESENT_def PT_WRITE_def PT_USER_def PT_NEXEC_def PT_GLOBAL_def PT_GIGAPAGE_def
  PT_MEGAPAGE_def PT_PWT_def PT_PCD_def PT_PAT_def

lemma bit_build_permissions:
  "bit (x86_build_permissions f 1) i \<longleftrightarrow>
     i = 0 \<and> bit f 0 \<or> i = 2 \<and> bit f 2 \<or> i = 1 \<and> bit f 1 \<or> i = 3 \<and> bit f 7 \<or> i = 4 \<and> bit f 8
     \<or> i = 63 \<and> bit f 3 \<or> i = 8 \<and> bit f 4 \<or> i = 7 \<and> bit f 9"
  unfolding x86_build_permissions_def Let_def PT_defs
  by (simp only: bit_if_or contains_16 bit_flag_64 bit_0_eq bot_apply one_eq_numeral_iff
      num.distinct simp_thms if_True if_False) auto

lemma bit_pt_new:
  "bit (x86_pt_new e 1) i \<longleftrightarrow>
     i = 0 \<and> bit e 0 \<or> i = 1 \<and> bit e 1 \<or> i = 2 \<and> bit e 2 \<or> i = 7 \<and> bit e 3 \<or> i = 8 \<and> bit e 4
     \<or> i = 3 \<and> bit e 63 \<or> i = 4 \<and> bit e 8 \<or> i = 9 \<and> bit e 7"
  unfolding x86_pt_new_def Let_def PT_defs
  by (simp only: bit_if_or and_flag_64 bit_flag_16 bit_0_eq bot_apply one_eq_numeral_iff
      num.distinct simp_thms if_True if_False) auto

lemma x86_pte_present [simp]: "x86_present (x86_pte p f) \<longleftrightarrow> bit f 0"
proof -
  have "\<not> bit (x86_extract_phys_from_pte p) 0"
    by (simp only: x86_extract_phys_from_pte_def x86_addr_mask) (simp add: bit_simps)
  then show ?thesis
    by (simp only: x86_present_def and_flag_64 x86_pte_def bit_or_iff bit_build_permissions) simp
qed

lemma x86_pte_extract [simp]:
  "x86_extract_phys_from_pte (x86_pte p f) = x86_extract_phys_from_pte p"
  unfolding x86_pte_def x86_extract_phys_from_pte_def x86_addr_mask
  by (rule bit_eqI) (simp only: bit_and_iff bit_or_iff bit_push_bit_iff bit_mask_iff bit_build_permissions, auto)

lemma x86_pte_flags: "x86_pt_new (x86_pte p f) 1 = f AND 0x39F"
proof (rule bit_eqI)
  fix i
  have "\<not> bit (x86_extract_phys_from_pte p) j" if "j \<in> {0, 1, 2, 3, 4, 7, 8, 63}" for j
    using that by (simp only: x86_extract_phys_from_pte_def x86_addr_mask) (auto simp: bit_simps)
  then have e: "bit (x86_pte p f) j \<longleftrightarrow> bit (x86_build_permissions f 1) j" if "j \<in> {0, 1, 2, 3, 4, 7, 8, 63}" for j
    using that by (simp only: x86_pte_def bit_or_iff simp_thms)
  have "(0x39F :: u16) = mask 5 OR push_bit 7 (mask 3)"
    by (simp add: mask_eq_exp_minus_1 push_bit_eq_mult)
  then have "bit (0x39F :: u16) i \<longleftrightarrow> i < 5 \<or> 7 \<le> i \<and> i < 10"
    by (simp only: bit_or_iff bit_push_bit_iff bit_mask_iff) auto
  then have m: "bit (0x39F :: u16) i \<longleftrightarrow> i \<in> {0, 1, 2, 3, 4, 7, 8, 9}"
    by auto
  show "bit (x86_pt_new (x86_pte p f) 1) i \<longleftrightarrow> bit (f AND 0x39F) i"
    by (simp only: bit_pt_new bit_and_iff m e insert_iff empty_iff simp_thms bit_build_permissions) auto
qed

lemma x86_from_vmmflags_present: "bit (x86_from_vmmflags f) 0"
  by (simp add: x86_from_vmmflags_def PT_defs Let_def bit_or_iff)

lemma x86_next_pte: "phys_frame hh p \<Longrightarrow> x86_next hh (x86_pte (p - hh) f) = p"
proof -
  assume p: "phys_frame hh p"
  have "x86_extract_phys_from_pte (p - hh) = p - hh"
    unfolding x86_extract_phys_from_pte_def x86_addr_mask
    using x86_mk_bits(2) [OF p] by (intro bit_eqI) (fastforce simp: bit_simps)
  then show ?thesis
    by (simp add: x86_next_def)
qed

section \<open>Mapping lists of pages\<close>

abbreviation x86_tables :: "u64 \<Rightarrow> u64 \<Rightarrow> (nat list \<Rightarrow> u64 option) \<Rightarrow> memory \<Rightarrow> bool" where
  "x86_tables hh \<equiv> tables_ok (x86_mk hh) (phys_frame hh) 4"

lemma x86_map4kib_entry: "x86_map4kib hh self va pa f s = x86_map_entry hh self va (x86_pte pa f) s"
  by (simp add: x86_map4kib_def x86_pte_def)

lemma x86_map_pages:
  assumes "x86_tables hh root t (mem s)" "pmm_phys hh s vs" "ran t \<inter> set vs = {}"
    and "card (missing_list 4 t (map f xs)) \<le> length vs" "distinct (map (\<lambda>x. vpn 4 (f x)) xs)"
    and "\<forall>x\<in>set xs. bit (fl x) 0"
  shows "\<exists>t' s' us vs'. for_each (\<lambda>x. x86_map4kib_unwrap hh (root - hh) (f x) (g x) (fl x)) xs s = Inr s'
     \<and> vs = us @ vs' \<and> pmm_phys hh s' vs' \<and> length us = card (missing_list 4 t (map f xs))
     \<and> dom t' = dom t \<union> (\<Union>x\<in>set xs. tpaths 4 (f x)) \<and> x86_tables hh root t' (mem s')
     \<and> ran t' = ran t \<union> set us \<and> agree_on (- ran t') (mem s) (mem s')
     \<and> (\<forall>x\<in>set xs. x86_mmu hh root (f x) (mem s') = Some (x86_pte (g x) (fl x)))
     \<and> (\<forall>vb. vpn 4 vb \<notin> (\<lambda>x. vpn 4 (f x)) ` set xs \<longrightarrow> x86_mmu hh root vb (mem s') = x86_mmu hh root vb (mem s))"
proof -
  let ?xs = "map (\<lambda>x. (f x, x86_pte (g x) (fl x))) xs"
  have eq: "for_each (\<lambda>x. x86_map4kib_unwrap hh (root - hh) (f x) (g x) (fl x)) xs s =
      for_each (\<lambda>(i, v) s. and_then (x86_map_entry hh (root - hh) i v s)
        (\<lambda>(r, s2). and_then (unwrap_res r) (\<lambda>_. Inr s2))) ?xs s"
    unfolding for_each_map prod.case
    by (rule for_each_cong) (simp_all add: x86_map4kib_unwrap_def x86_map4kib_entry)
  have "distinct (map (\<lambda>x. vpn 4 (fst x)) ?xs)" "card (missing_list 4 t (map fst ?xs)) \<le> length vs"
    using assms(4,5) by (simp_all add: comp_def)
  from x86.map_list [OF assms(1-3) this(2,1)] assms(6) show ?thesis
    unfolding eq x86_mmu_def by (simp add: comp_def image_image)
qed

section \<open>Properties\<close>

text \<open>
  C10: in well-formed tables with three free frames left, \<^verbatim>\<open>map4kib\<close> succeeds and
  makes the processor translate exactly the page of \<open>va\<close> to the frame and flags
  asked for; every other translation, the well-formedness of the tables and all
  memory outside the tables is left as it was, and new tables come from the page
  allocator only.
\<close>

theorem x86_map4kib_maps:
  assumes "x86_tables hh root t (mem s)" "pmm_phys hh s vs" "ran t \<inter> set vs = {}" "3 \<le> length vs"
    and "contains flags PT_PRESENT"
  shows "\<exists>t' s' vs'. x86_map4kib hh (root - hh) va pa flags s = Inr (Inr (), s')
     \<and> x86_tables hh root t' (mem s') \<and> pmm_phys hh s' vs'
     \<and> ran t' \<union> set vs' = ran t \<union> set vs \<and> ran t' \<inter> set vs' = {}
     \<and> agree_on (- ran t') (mem s) (mem s')
     \<and> (\<forall>vb. x86_mmu hh root vb (mem s') =
          (if vpn 4 vb = vpn 4 va then Some (x86_pte pa flags) else x86_mmu hh root vb (mem s)))"
proof -
  have "card (missing 4 t va) \<le> length vs"
    using card_missing [OF assms(1), of va] assms(4) by simp
  from x86.map_ok [OF assms(1-3) this, of "x86_pte pa flags"] obtain t' s' us vs' where
    r: "x86_map4kib hh (root - hh) va pa flags s = Inr (Inr (), s')" "vs = us @ vs'" "pmm_phys hh s' vs'"
      "x86_tables hh root t' (mem s')" "ran t' = ran t \<union> set us" "agree_on (- ran t') (mem s) (mem s')"
      "\<forall>vb. x86_mmu hh root vb (mem s') = (if vpn 4 vb = vpn 4 va
        then (if x86_present (x86_pte pa flags) then Some (x86_pte pa flags) else None)
        else x86_mmu hh root vb (mem s))"
    unfolding x86_mmu_def x86_map4kib_entry by blast
  have "bit flags 0"
    using assms(5) by (simp add: PT_PRESENT_def contains_16)
  moreover have "distinct vs"
    using assms(2) by (auto simp: pmm_phys_def dest: pmm_free_distinct)
  ultimately show ?thesis
    using r assms(3) by (intro exI [of _ t'] exI [of _ s'] exI [of _ vs']) auto
qed

text \<open>A root table and three free frames.\<close>

definition example_pt :: pmm_state where
  "example_pt = \<lparr>mem = (\<lambda>_. 0)(0x102000 := 0x3000, 0x103000 := 0x4000), FREELIST = Some 0x2000\<rparr>"

lemma example_pt_free: "pmm_phys 0x100000 example_pt [0x102000, 0x103000, 0x104000]"
  by (simp add: pmm_phys_def pmm_free_def phys_frame_def valid_frame_def page_aligned_def example_pt_def)

lemma example_pt_tables: "x86_tables 0x100000 0x101000 [[] \<mapsto> 0x101000] (mem example_pt)"
  by (rule tables_fresh)
    (auto simp: phys_frame_def valid_frame_def page_aligned_def example_pt_def page_of_def)

theorem x86_map4kib_maps_witness:
  "\<exists>s'. x86_map4kib 0x100000 0x1000 0xffff900000000000 0xB8000 (PT_PRESENT OR PT_WRITE) example_pt
       = Inr (Inr (), s')
     \<and> x86_mmu 0x100000 0x101000 0xffff900000000000 (mem s') = Some 0xB8003"
proof -
  have "ran [[] \<mapsto> (0x101000 :: u64)] = {0x101000}"
    by (auto simp: ran_def)
  moreover have "contains (PT_PRESENT OR PT_WRITE) PT_PRESENT"
    by (simp add: contains_def PT_defs)
  moreover have "x86_pte 0xB8000 (PT_PRESENT OR PT_WRITE) = 0xB8003"
    by (simp add: x86_pte_def x86_extract_phys_from_pte_def x86_build_permissions_def contains_def PT_defs)
  ultimately show ?thesis
    using x86_map4kib_maps [OF example_pt_tables example_pt_free, of "PT_PRESENT OR PT_WRITE"
        "0xffff900000000000" "0xB8000"]
    by auto
qed

text \<open>
  C38: an entry built from a frame address and a flag set gives back the frame
  address, and its flags (all but the two that say "large page", which have no
  meaning in a last-level entry).
\<close>

theorem x86_pte_roundtrip:
  "x86_extract_phys_from_pte (x86_pte phys f) = x86_extract_phys_from_pte phys
   \<and> x86_pt_new (x86_pte phys f) 1 = f AND NOT (PT_GIGAPAGE OR PT_MEGAPAGE) AND mask 10"
proof -
  have "(0x39F :: u16) = NOT (PT_GIGAPAGE OR PT_MEGAPAGE) AND mask 10"
    by (simp add: PT_defs mask_eq_exp_minus_1)
  then show ?thesis
    by (simp only: x86_pte_extract x86_pte_flags and.assoc)
qed

text \<open>
  C11: unmapping a mapped page gives its frame back to the page allocator and
  makes the processor fault on that page; every other translation stays.
\<close>

theorem x86_unmap_unmaps:
  assumes "x86_tables hh root t (mem s)" "pmm_phys hh s vs" "ran t \<inter> set vs = {}"
    and "x86_mmu hh root va (mem s) = Some (x86_pte (p - hh) flags)"
    and "phys_frame hh p" "p \<notin> set vs" "p \<notin> ran t"
  shows "\<exists>s'. x86_unmap hh (root - hh) va s = Inr s' \<and> pmm_phys hh s' (p # vs)
     \<and> x86_tables hh root t (mem s') \<and> agree_on (- insert p (ran t)) (mem s) (mem s')
     \<and> (\<forall>vb. x86_mmu hh root vb (mem s') =
          (if vpn 4 vb = vpn 4 va then None else x86_mmu hh root vb (mem s)))"
proof -
  have f: "x86_next hh (x86_pte (p - hh) flags) = p"
    by (rule x86_next_pte [OF assms(5)])
  from x86.unmap_ok [OF assms(1,2) assms(4) [unfolded x86_mmu_def], unfolded f, OF assms(5-7) assms(3)]
  show ?thesis
    unfolding x86_mmu_def .
qed

theorem x86_unmap_unmaps_witness:
  "\<exists>s1 s2. x86_map4kib 0x100000 0x1000 0xffff900000000000 0x50000 (PT_PRESENT OR PT_WRITE) example_pt
       = Inr (Inr (), s1)
     \<and> x86_unmap 0x100000 0x1000 0xffff900000000000 s1 = Inr s2
     \<and> FREELIST s2 = Some 0x50000 \<and> x86_mmu 0x100000 0x101000 0xffff900000000000 (mem s2) = None"
proof -
  let ?va = "0xffff900000000000" and ?v = "x86_pte 0x50000 (PT_PRESENT OR PT_WRITE)"
  have ran: "ran [[] \<mapsto> (0x101000 :: u64)] = {0x101000}"
    by (auto simp: ran_def)
  have "card (missing 4 [[] \<mapsto> 0x101000] ?va) \<le> 3"
    using card_missing [OF example_pt_tables, of ?va] by simp
  then obtain t s us vs where
    r: "x86_map_entry 0x100000 0x1000 ?va ?v example_pt = Inr (Inr (), s)"
      "[0x102000, 0x103000, 0x104000] = us @ vs" "pmm_phys 0x100000 s vs" "x86_tables 0x100000 0x101000 t (mem s)"
      "ran t = {0x101000} \<union> set us"
      "\<forall>vb. radix_walk x86_present x86_large (x86_next 0x100000) 4 0x101000 vb (mem s) =
        (if vpn 4 vb = vpn 4 ?va then (if x86_present ?v then Some ?v else None)
         else radix_walk x86_present x86_large (x86_next 0x100000) 4 0x101000 vb (mem example_pt))"
    using x86.map_ok [OF example_pt_tables example_pt_free, of ?va ?v] ran by auto
  have sub: "set us \<subseteq> {0x102000, 0x103000, 0x104000}" "set vs \<subseteq> {0x102000, 0x103000, 0x104000}"
    using arg_cong [OF r(2), of set] by auto
  have w: "x86_mmu 0x100000 0x101000 ?va (mem s) = Some (x86_pte (0x150000 - 0x100000) (PT_PRESENT OR PT_WRITE))"
    using r(6) by (simp add: x86_mmu_def PT_defs bit_or_iff)
  have "distinct (us @ vs)"
    using r(2) [symmetric] by simp
  then have "ran t \<inter> set vs = {}"
    using r(5) sub by auto
  moreover have "phys_frame 0x100000 0x150000"
    by (simp add: phys_frame_def valid_frame_def page_aligned_def)
  moreover have "(0x150000 :: u64) \<notin> set vs" "(0x150000 :: u64) \<notin> ran t"
    using sub r(5) by auto
  ultimately obtain s2 where s2: "x86_unmap 0x100000 (0x101000 - 0x100000) ?va s = Inr s2"
    "pmm_phys 0x100000 s2 (0x150000 # vs)" "x86_mmu 0x100000 0x101000 ?va (mem s2) = None"
    using x86_unmap_unmaps [OF r(4,3) _ w] by auto
  have "FREELIST s2 = Some 0x50000"
    using s2(2) by (auto simp: pmm_phys_def pmm_free_def)
  with r(1) s2 show ?thesis
    by (simp add: x86_map4kib_entry)
qed

lemma x86_pt_init_ok:
  fixes hh cr3 kstart kend kv kp :: u64 and memmap :: "memmap_entry list option"
  defines "ksize \<equiv> align_up (kend - kstart) PAGE_SIZE"
    and "mx \<equiv> align_up (fst (x86_memmap_extent memmap)) PAGE_SIZE"
    and "fb \<equiv> snd (x86_memmap_extent memmap)"
  defines "kpages \<equiv> range_step kv (kv + ksize) 4096" and "hpages \<equiv> range_step hh (hh + mx) 4096"
  assumes free: "pmm_phys hh s (v # vs)"
    and room: "card (\<Union>x\<in>set kpages \<union> set hpages. tpaths 4 x) \<le> length vs + 1"
    and boot: "x86_get_table hh (page_of cr3 AND 0x7FFFFFFFFFFFFFFF) 0xffffffff80015000 False s = Inr (Inr p, s)"
    and k: "page_aligned kv" "high_half 4 kv" "unat kv + unat ksize < 2 ^ 64"
    and h: "page_aligned hh" "high_half 4 hh" "unat hh + unat mx < 2 ^ 64"
    and dis: "set kpages \<inter> set hpages = {}"
  shows "\<exists>s' t us vs'. x86_pt_init hh cr3 kstart kend (Some ()) (Some (kv, kp)) memmap s = Inr ((mx, ksize), v - hh, s')
     \<and> (\<forall>i\<in>set (range_step 0 ksize 4096).
          x86_mmu hh v (kv + i) (mem s') = Some (x86_pte (kp + i) (PT_GLOBAL OR PT_PRESENT OR PT_WRITE)))
     \<and> (\<forall>i\<in>set (range_step 0 mx 4096). x86_mmu hh v (hh + i) (mem s') = Some (x86_pte i (x86_hhdm_flags fb i)))
     \<and> (\<forall>vb. vpn 4 vb \<notin> vpn 4 ` (set kpages \<union> set hpages) \<longrightarrow> x86_mmu hh v vb (mem s') = None)
     \<and> vs = us @ vs' \<and> pmm_phys hh s' vs' \<and> x86_tables hh v t (mem s') \<and> ran t = insert v (set us)
     \<and> agree_on (- ran t) (mem s) (mem s')
     \<and> length us \<le> card (\<Union>x\<in>set kpages \<union> set hpages. tpaths 4 x)"
proof -
  let ?kr = "range_step 0 ksize 4096" and ?hr = "range_step 0 mx 4096"
  have four: "4096 * 512 ^ 4 \<le> (2 :: nat) ^ 64" by simp
  have kp: "kpages = map (\<lambda>i. kv + i) ?kr" and hp: "hpages = map (\<lambda>i. hh + i) ?hr"
    unfolding kpages_def hpages_def by (rule range_step_shift [OF k(3)], rule range_step_shift [OF h(3)])
  note kd = vpn_range_distinct [OF four k, folded kpages_def]
  note hd = vpn_range_distinct [OF four h, folded hpages_def]
  have sep: "vpn 4 ` set kpages \<inter> vpn 4 ` set hpages = {}"
  proof -
    have "vpn 4 x \<noteq> vpn 4 y" if "x \<in> set kpages" "y \<in> set hpages" for x y
    proof -
      have "x \<noteq> y" using that dis by auto
      with kd(2) [OF that(1)] hd(2) [OF that(2)] show ?thesis
        by (simp add: vpn_high_half [OF four])
    qed
    then show ?thesis by blast
  qed
  have v: "phys_frame hh v" "page_aligned v" "v \<notin> set vs" "pmm_free hh s (v # vs)"
    using free by (auto simp: pmm_phys_def phys_frame_def dest: pmm_free_distinct)
  from pmm_ph.al_ok [OF free] obtain s1 where
    s1: "allocate_page hh s = Inr (v, s1)" "pmm_phys hh s1 vs" "mem s1 = zero_bytes v 4096 (mem s)"
    by blast
  let ?t = "[[] \<mapsto> v]"
  have t0: "x86_tables hh v ?t (mem s1)"
    by (rule tables_fresh) (use v s1(3) in \<open>auto simp: zero_bytes_page\<close>)
  have none: "x86_mmu hh v vb (mem s1) = None" for vb
  proof -
    have "length (butlast (vpath 4 vb)) = 3" by simp
    then have "butlast (vpath 4 vb) \<noteq> []" by fastforce
    then show ?thesis
      unfolding x86_mmu_def x86.walk_eq [OF t0] by (simp add: leaf_cell_def)
  qed
  have ran0: "ran ?t \<inter> set vs = {}"
    using v(3) by (auto simp: ran_def)
  have all: "card (missing_list 4 ?t (kpages @ hpages)) \<le> length vs"
    using card_missing_root [of 4 v "kpages @ hpages"] room by simp
  have "card (missing_list 4 ?t kpages) \<le> card (missing_list 4 ?t (kpages @ hpages))"
    by (rule card_mono) (auto simp: missing_list_def)
  with all have kroom: "card (missing_list 4 ?t (map (\<lambda>i. kv + i) ?kr)) \<le> length vs"
    by (simp add: kp)
  have kdist: "distinct (map (\<lambda>i. vpn 4 (kv + i)) ?kr)" and hdist: "distinct (map (\<lambda>i. vpn 4 (hh + i)) ?hr)"
    using kd(1) hd(1) by (simp_all add: kp hp comp_def)
  have kf: "\<forall>i\<in>set ?kr. bit (PT_GLOBAL OR PT_PRESENT OR PT_WRITE) 0"
    and hf: "\<forall>i\<in>set ?hr. bit (x86_hhdm_flags fb i) 0"
    by (simp_all add: PT_defs bit_or_iff x86_hhdm_flags_def)
  from x86_map_pages [OF t0 s1(2) ran0 kroom kdist kf, of "\<lambda>i. kp + i"] obtain t2 s2 us2 vs2 where
    2: "x86_map_kernel hh (v - hh) kv kp ksize s1 = Inr s2" "vs = us2 @ vs2" "pmm_phys hh s2 vs2"
      "length us2 = card (missing_list 4 ?t kpages)" "dom t2 = dom ?t \<union> (\<Union>x\<in>set kpages. tpaths 4 x)"
      "x86_tables hh v t2 (mem s2)" "ran t2 = ran ?t \<union> set us2" "agree_on (- ran t2) (mem s1) (mem s2)"
      "\<forall>i\<in>set ?kr. x86_mmu hh v (kv + i) (mem s2) = Some (x86_pte (kp + i) (PT_GLOBAL OR PT_PRESENT OR PT_WRITE))"
      "\<forall>vb. vpn 4 vb \<notin> vpn 4 ` set kpages \<longrightarrow> x86_mmu hh v vb (mem s2) = None"
    unfolding x86_map_kernel_def none by (auto simp: kp image_image)
  have "card (missing_list 4 t2 (map (\<lambda>i. hh + i) ?hr)) \<le> length vs2"
    using all card_missing_list_append [OF 2(5), of hpages] 2(2,4) by (simp add: hp)
  moreover have "ran t2 \<inter> set vs2 = {}"
  proof -
    have "distinct vs"
      using s1(2) by (auto simp: pmm_phys_def dest: pmm_free_distinct)
    with 2(2,7) ran0 show ?thesis by auto
  qed
  ultimately obtain s3 t3 us3 vs3 where
    3: "x86_map_hhdm hh (v - hh) mx fb s2 = Inr s3"
      "\<forall>i\<in>set ?hr. x86_mmu hh v (hh + i) (mem s3) = Some (x86_pte i (x86_hhdm_flags fb i))"
      "\<forall>vb. vpn 4 vb \<notin> vpn 4 ` set hpages \<longrightarrow> x86_mmu hh v vb (mem s3) = x86_mmu hh v vb (mem s2)"
      "vs2 = us3 @ vs3" "pmm_phys hh s3 vs3" "x86_tables hh v t3 (mem s3)" "ran t3 = ran t2 \<union> set us3"
      "agree_on (- ran t3) (mem s2) (mem s3)" "length us3 = card (missing_list 4 t2 hpages)"
    using x86_map_pages [OF 2(6,3) _ _ hdist hf, of "\<lambda>i. i"]
    unfolding x86_map_hhdm_def by (auto simp: hp image_image)
  have "x86_mmu hh v (kv + i) (mem s3) = Some (x86_pte (kp + i) (PT_GLOBAL OR PT_PRESENT OR PT_WRITE))"
    if "i \<in> set ?kr" for i
  proof -
    have "kv + i \<in> set kpages"
      using that by (simp add: kp)
    with sep have "vpn 4 (kv + i) \<notin> vpn 4 ` set hpages"
      by blast
    with 2(9) 3(3) that show ?thesis by simp
  qed
  moreover have "x86_mmu hh v vb (mem s3) = None" if "vpn 4 vb \<notin> vpn 4 ` (set kpages \<union> set hpages)" for vb
    using that 2(10) 3(3) by (simp add: image_Un)
  moreover have "x86_pt_init hh cr3 kstart kend (Some ()) (Some (kv, kp)) memmap s = Inr ((mx, ksize), v - hh, s3)"
    using boot s1(1) 2(1) 3(1) unfolding ksize_def mx_def fb_def
    by (simp add: x86_pt_init_def Let_def case_prod_beta)
  moreover have vs3: "vs = (us2 @ us3) @ vs3" and t3: "ran t3 = insert v (set (us2 @ us3))" "ran t2 = insert v (set us2)"
    using 2(2,7) 3(4,7) by auto
  moreover have "agree_on (- ran t3) (mem s) (mem s3)"
    using s1(3) 2(8) 3(8) unfolding t3 agree_on_def zero_bytes_page [OF v(2)] by simp
  moreover have "length (us2 @ us3) \<le> card (\<Union>x\<in>set kpages \<union> set hpages. tpaths 4 x)"
    using card_missing_list_append [OF 2(5), of hpages] card_missing_root [of 4 v "kpages @ hpages"] 2(4) 3(9) by simp
  ultimately show ?thesis
    using 3(2,5,6) by blast
qed


subsection \<open>What the direct map has to contain\<close>

text \<open>
  The memory a kernel reaches through the direct map is everything the boot loader
  reports except what it calls reserved or bad. The direct map ends at the first
  page boundary behind all of it. \<open>x86_leaf\<close> is what the processor reads out of a
  last-level entry: a present, writable, global page of the kernel at \<open>pa\<close>; for a
  frame buffer (\<open>wc\<close>) also not executable and write-combining, which is selected
  by bits 3 and 7.
\<close>

definition direct_mapped :: "memmap_type \<Rightarrow> bool" where
  "direct_mapped ty \<longleftrightarrow> ty \<noteq> MEMMAP_RESERVED \<and> ty \<noteq> MEMMAP_BAD_MEMORY"

definition entry_end :: "memmap_entry \<Rightarrow> nat" where
  "entry_end e = unat (me_base e) + unat (me_length e)"

definition direct_map_end :: "memmap_entry list \<Rightarrow> nat" where
  "direct_map_end es = Max (insert 0 (entry_end ` {e \<in> set es. direct_mapped (me_type e)}))"

definition direct_map_size :: "memmap_entry list \<Rightarrow> u64" where
  "direct_map_size es = of_nat ((direct_map_end es + 4095) div 4096 * 4096)"

text \<open>The last entry for a frame buffer; maps with several are not told apart further.\<close>

definition in_framebuffer :: "memmap_entry list \<Rightarrow> u64 \<Rightarrow> bool" where
  "in_framebuffer es i =
     (case rev (filter (\<lambda>e. me_type e = MEMMAP_FRAMEBUFFER) es) of
        [] \<Rightarrow> False
      | e # _ \<Rightarrow> unat (me_base e) \<le> unat i \<and> unat i < entry_end e)"

text \<open>Physical addresses have 52 bits.\<close>

definition memmap_ok :: "memmap_entry list \<Rightarrow> bool" where
  "memmap_ok es \<longleftrightarrow> (\<forall>e\<in>set es. entry_end e \<le> 2 ^ 52)"

definition x86_leaf :: "u64 \<Rightarrow> bool \<Rightarrow> u64 \<Rightarrow> bool" where
  "x86_leaf pa wc e \<longleftrightarrow> e AND 0x000FFFFFFFFFF000 = pa \<and> bit e 0 \<and> bit e 1 \<and> \<not> bit e 2 \<and> \<not> bit e 4 \<and> bit e 8
     \<and> bit e 3 = wc \<and> bit e 7 = wc \<and> bit e 63 = wc"

lemma direct_map_end_simps:
  "direct_map_end [] = 0"
  "direct_map_end (e # es) = (if direct_mapped (me_type e) then max (entry_end e) (direct_map_end es) else direct_map_end es)"
proof -
  show "direct_map_end [] = 0"
    by (simp add: direct_map_end_def)
  have "{x \<in> set (e # es). direct_mapped (me_type x)} =
      (if direct_mapped (me_type e) then insert e {x \<in> set es. direct_mapped (me_type x)} else {x \<in> set es. direct_mapped (me_type x)})"
    by auto
  then show "direct_map_end (e # es) = (if direct_mapped (me_type e) then max (entry_end e) (direct_map_end es) else direct_map_end es)"
    unfolding direct_map_end_def by (simp add: insert_commute [of 0])
qed

lemma memmap_fold_both:
  assumes "memmap_ok es"
  shows "unat (fst (fold x86_memmap_step es (m, fb))) = max (unat m) (direct_map_end es) \<and>
    snd (fold x86_memmap_step es (m, fb)) = (case rev (filter (\<lambda>e. me_type e = MEMMAP_FRAMEBUFFER) es) of
      [] \<Rightarrow> fb | e # _ \<Rightarrow> (me_base e, me_length e))"
  using assms
proof (induction es arbitrary: m fb)
  case Nil
  then show ?case
    by (simp add: direct_map_end_simps)
next
  case (Cons e es)
  have e: "entry_end e \<le> 2 ^ 52" and es: "memmap_ok es"
    using Cons.prems by (simp_all add: memmap_ok_def)
  have sum: "unat (me_base e + me_length e) = entry_end e"
    using e by (simp add: entry_end_def unat_add_no_wrap)
  have mx: "unat (max (me_base e + me_length e) m) = max (entry_end e) (unat m)"
    "unat (max m (me_base e + me_length e)) = max (entry_end e) (unat m)"
    by (simp_all add: max_def word_le_nat_alt sum)
  obtain m' fb' where st: "x86_memmap_step e (m, fb) = (m', fb')"
    by (cases "x86_memmap_step e (m, fb)")
  have m': "unat m' = (if direct_mapped (me_type e) then max (entry_end e) (unat m) else unat m)"
    using st mx by (cases "me_type e") (auto simp: x86_memmap_step_def direct_mapped_def)
  have fb': "fb' = (if me_type e = MEMMAP_FRAMEBUFFER then (me_base e, me_length e) else fb)"
    using st by (cases "me_type e") (auto simp: x86_memmap_step_def)
  show ?case
    using Cons.IH [OF es, of m' fb'] st m' fb'
    by (auto simp: direct_map_end_simps split: list.splits)
qed

lemmas memmap_fold = memmap_fold_both [THEN conjunct1] memmap_fold_both [THEN conjunct2]

lemma direct_map_end_le: "memmap_ok es \<Longrightarrow> direct_map_end es \<le> 2 ^ 52"
  by (induction es) (auto simp: direct_map_end_simps memmap_ok_def)

lemma entry_le_direct_map_end: "e \<in> set es \<Longrightarrow> direct_mapped (me_type e) \<Longrightarrow> entry_end e \<le> direct_map_end es"
  unfolding direct_map_end_def by (rule Max_ge) auto

lemma x86_extent_size:
  assumes ok: "memmap_ok es"
  shows "align_up (fst (x86_memmap_extent (Some es))) PAGE_SIZE = direct_map_size es"
    and "unat (direct_map_size es) = (direct_map_end es + 4095) div 4096 * 4096"
    and "unat (direct_map_size es) \<le> 2 ^ 52"
proof -
  let ?m = "fst (x86_memmap_extent (Some es))"
  have m: "unat ?m = direct_map_end es"
    using memmap_fold(1) [OF ok, of 0 "(0, 0)"] by (simp add: x86_memmap_extent_def)
  have e: "direct_map_end es \<le> 2 ^ 52"
    by (rule direct_map_end_le [OF ok])
  then have le: "(direct_map_end es + 4095) div 4096 * 4096 \<le> 2 ^ 52"
    by (simp add: div_le_mono [of _ "2 ^ 52 + 4095" 4096, simplified])
  then show size: "unat (direct_map_size es) = (direct_map_end es + 4095) div 4096 * 4096"
    unfolding direct_map_size_def by (subst unat_of_nat) (simp add: take_bit_eq_mod)
  with le show "unat (direct_map_size es) \<le> 2 ^ 52"
    by simp
  have "unat (align_up ?m (2 ^ 12)) = (direct_map_end es + 2 ^ 12 - 1) div 2 ^ 12 * 2 ^ 12"
    using unat_align_up [of 12 ?m] m e by simp
  then show "align_up ?m PAGE_SIZE = direct_map_size es"
    using size by (simp add: word_unat_eq_iff PAGE_SIZE_def)
qed

lemma x86_hhdm_flags_spec:
  assumes ok: "memmap_ok es"
  shows "x86_hhdm_flags (snd (x86_memmap_extent (Some es))) i =
    (if in_framebuffer es i then PT_GLOBAL OR PT_PRESENT OR PT_WRITE OR PT_NEXEC OR PT_PAT OR PT_PWT
     else PT_GLOBAL OR PT_PRESENT OR PT_WRITE)"
proof (cases "rev (filter (\<lambda>e. me_type e = MEMMAP_FRAMEBUFFER) es)")
  case Nil
  then show ?thesis
    using memmap_fold(2) [OF ok, of 0 "(0, 0)"] by (simp add: x86_memmap_extent_def x86_hhdm_flags_def in_framebuffer_def)
next
  case (Cons e rest)
  then have "e \<in> set (filter (\<lambda>e. me_type e = MEMMAP_FRAMEBUFFER) es)"
    by (metis list.set_intros(1) set_rev)
  then have "entry_end e \<le> 2 ^ 52"
    using ok by (simp add: memmap_ok_def)
  then have "unat (me_base e + me_length e) = entry_end e"
    by (simp add: entry_end_def unat_add_no_wrap)
  then show ?thesis
    using memmap_fold(2) [OF ok, of 0 "(0, 0)"] Cons
    by (simp add: x86_memmap_extent_def x86_hhdm_flags_def in_framebuffer_def word_le_nat_alt word_less_nat_alt)
qed

lemma x86_leaf_pte:
  assumes "page_aligned pa" "unat pa < 2 ^ 52"
  shows "x86_leaf pa True (x86_pte pa (PT_GLOBAL OR PT_PRESENT OR PT_WRITE OR PT_NEXEC OR PT_PAT OR PT_PWT))"
    "x86_leaf pa False (x86_pte pa (PT_GLOBAL OR PT_PRESENT OR PT_WRITE))"
proof -
  have c: "x86_build_permissions (PT_GLOBAL OR PT_PRESENT OR PT_WRITE OR PT_NEXEC OR PT_PAT OR PT_PWT) 1 = 0x800000000000018B"
    "x86_build_permissions (PT_GLOBAL OR PT_PRESENT OR PT_WRITE) 1 = 0x103"
    by (simp_all add: x86_build_permissions_def contains_def PT_defs)
  have fr: "pa AND 0x000FFFFFFFFFF000 = pa"
  proof (rule bit_word_eqI)
    fix n
    show "bit (pa AND 0x000FFFFFFFFFF000) n \<longleftrightarrow> bit pa n"
      using frame_bits [OF assms, of n] unfolding x86_addr_mask
      by (auto simp: bit_and_iff bit_push_bit_iff bit_mask_iff)
  qed
  have lo: "\<not> bit pa n" if "n < 12 \<or> 52 \<le> n" for n
    using frame_bits [OF assms, of n] that by auto
  show "x86_leaf pa True (x86_pte pa (PT_GLOBAL OR PT_PRESENT OR PT_WRITE OR PT_NEXEC OR PT_PAT OR PT_PWT))"
    "x86_leaf pa False (x86_pte pa (PT_GLOBAL OR PT_PRESENT OR PT_WRITE))"
    unfolding x86_leaf_def x86_pte_def c x86_extract_phys_from_pte_def fr
    by (simp_all add: bit_or_iff lo bit.conj_disj_distrib2 fr)
qed

lemma set_range_step_pages: "set (range_step 0 n 4096) = {i. page_aligned i \<and> unat i < unat n}"
proof (intro set_eqI iffI)
  fix i :: u64
  assume "i \<in> set (range_step 0 n 4096)"
  then obtain k where k: "k < (unat n + 4096 - 1) div 4096" and i: "i = of_nat (k * 4096)"
    by (auto simp: range_step_def)
  have "Suc k * 4096 \<le> unat n + 4096 - 1"
    using k by (simp only: less_eq_div_iff_mult_less_eq [symmetric] Suc_le_eq zero_less_numeral)
  then have lt: "k * 4096 < unat n"
    by simp
  moreover have "unat n < 2 ^ 64"
    by (rule unat_lt_64)
  ultimately have "k * 4096 < 2 ^ 64"
    by simp
  then have u: "unat i = k * 4096"
    unfolding i by (subst unat_of_nat) (simp add: take_bit_eq_mod)
  show "i \<in> {i. page_aligned i \<and> unat i < unat n}"
    using lt by (simp add: page_aligned_iff u)
next
  fix i :: u64
  assume "i \<in> {i. page_aligned i \<and> unat i < unat n}"
  then have al: "unat i mod 4096 = 0" and lt: "unat i < unat n"
    by (simp_all add: page_aligned_iff)
  have q: "unat i div 4096 * 4096 = unat i"
    using al div_mult_mod_eq [of "unat i" 4096] by simp
  then have "Suc (unat i div 4096) * 4096 \<le> unat n + 4096 - 1"
    using lt by simp
  then have "unat i div 4096 < (unat n + 4096 - 1) div 4096"
    by (simp only: less_eq_div_iff_mult_less_eq [symmetric] Suc_le_eq zero_less_numeral)
  moreover have "i = 0 + of_nat (unat i div 4096 * 4096)"
    using q by (simp only: of_nat_unat ucast_id add_0)
  ultimately show "i \<in> set (range_step 0 n 4096)"
    unfolding range_step_def by (auto intro!: image_eqI [of _ _ "unat i div 4096"])
qed

lemma page_in_direct_map:
  assumes "memmap_ok es" and "e \<in> set es" "direct_mapped (me_type e)" "unat a < entry_end e"
  shows "unat (page_of a) < unat (direct_map_size es)"
proof -
  have "unat a < direct_map_end es"
    using entry_le_direct_map_end [OF assms(2,3)] assms(4) by simp
  then have "unat a < (direct_map_end es + 4095) div 4096 * 4096"
    using div_mult_mod_eq [of "direct_map_end es + 4095" 4096] mod_less_divisor [of 4096 "direct_map_end es + 4095"] by linarith
  then show ?thesis
    by (simp add: x86_extent_size(2) [OF assms(1)] unat_page_of)
qed

text \<open>
  C9: \<^verbatim>\<open>pt_init\<close>, given enough frames for the tables the two ranges need, builds
  tables in which the processor finds the kernel image at its link address and
  physical memory at the direct map offset, up to the first page boundary behind
  everything that is neither reserved nor bad; so every byte of every such
  entry of the memory map is reached. The pages are present, writable and global,
  those of the frame buffer also write-combining and not executable. Nothing else
  is mapped.
\<close>

theorem x86_pt_init_maps:
  fixes hh cr3 kstart kend kv kp :: u64 and es :: "memmap_entry list"
  defines "ksize \<equiv> align_up (kend - kstart) PAGE_SIZE" and "mx \<equiv> direct_map_size es"
  defines "kpages \<equiv> range_step kv (kv + ksize) 4096" and "hpages \<equiv> range_step hh (hh + mx) 4096"
  assumes free: "pmm_phys hh s (v # vs)"
    and room: "card (\<Union>x\<in>set kpages \<union> set hpages. tpaths 4 x) \<le> length vs + 1"
    and boot: "x86_get_table hh (page_of cr3 AND 0x7FFFFFFFFFFFFFFF) 0xffffffff80015000 False s = Inr (Inr p, s)"
    and map: "memmap_ok es"
    and k: "page_aligned kv" "high_half 4 kv" "unat kv + unat ksize < 2 ^ 64"
    and kp: "page_aligned kp" "unat kp + unat ksize \<le> 2 ^ 52"
    and h: "page_aligned hh" "high_half 4 hh" "unat hh + unat mx < 2 ^ 64"
    and dis: "set kpages \<inter> set hpages = {}"
  shows "\<exists>s'. x86_pt_init hh cr3 kstart kend (Some ()) (Some (kv, kp)) (Some es) s = Inr ((mx, ksize), v - hh, s')
     \<and> (\<forall>i. page_aligned i \<and> unat i < unat ksize \<longrightarrow>
          (\<exists>e. x86_mmu hh v (kv + i) (mem s') = Some e \<and> x86_leaf (kp + i) False e))
     \<and> (\<forall>i. page_aligned i \<and> unat i < unat mx \<longrightarrow>
          (\<exists>e. x86_mmu hh v (hh + i) (mem s') = Some e \<and> x86_leaf i (in_framebuffer es i) e))
     \<and> (\<forall>r\<in>set es. \<forall>a. direct_mapped (me_type r) \<and> unat (me_base r) \<le> unat a \<and> unat a < entry_end r \<longrightarrow>
          (\<exists>e. x86_mmu hh v (hh + page_of a) (mem s') = Some e \<and> x86_leaf (page_of a) (in_framebuffer es (page_of a)) e))
     \<and> (\<forall>vb. vpn 4 vb \<notin> vpn 4 ` (set kpages \<union> set hpages) \<longrightarrow> x86_mmu hh v vb (mem s') = None)"
proof -
  note size = x86_extent_size [OF map]
  let ?fb = "snd (x86_memmap_extent (Some es))"
  obtain s' where init: "x86_pt_init hh cr3 kstart kend (Some ()) (Some (kv, kp)) (Some es) s = Inr ((mx, ksize), v - hh, s')"
    and kern: "\<forall>i\<in>set (range_step 0 ksize 4096).
      x86_mmu hh v (kv + i) (mem s') = Some (x86_pte (kp + i) (PT_GLOBAL OR PT_PRESENT OR PT_WRITE))"
    and direct: "\<forall>i\<in>set (range_step 0 mx 4096). x86_mmu hh v (hh + i) (mem s') = Some (x86_pte i (x86_hhdm_flags ?fb i))"
    and none: "\<forall>vb. vpn 4 vb \<notin> vpn 4 ` (set kpages \<union> set hpages) \<longrightarrow> x86_mmu hh v vb (mem s') = None"
    using x86_pt_init_ok [where memmap = "Some es" and kp = kp and kstart = kstart and kend = kend and kv = kv and hh = hh, unfolded size(1),
        folded ksize_def mx_def, folded kpages_def hpages_def, OF free room boot k h dis] by (elim exE conjE) rule
  have K: "\<exists>e. x86_mmu hh v (kv + i) (mem s') = Some e \<and> x86_leaf (kp + i) False e"
    if "page_aligned i" "unat i < unat ksize" for i
  proof -
    have "unat (kp + i) < 2 ^ 52"
      using kp(2) that(2) by (simp add: unat_add_no_wrap)
    then show ?thesis
      using kern that x86_leaf_pte(2) [OF page_aligned_add [OF kp(1) that(1)]] by (simp add: set_range_step_pages)
  qed
  have D: "\<exists>e. x86_mmu hh v (hh + i) (mem s') = Some e \<and> x86_leaf i (in_framebuffer es i) e"
    if "page_aligned i" "unat i < unat mx" for i
  proof -
    have "unat i < 2 ^ 52"
      using that(2) size(3) by (simp add: mx_def)
    then show ?thesis
      using direct that x86_leaf_pte [OF that(1)] by (simp add: set_range_step_pages x86_hhdm_flags_spec [OF map])
  qed
  show ?thesis
    by (intro exI [of _ s'] conjI init none allI impI ballI K D) (auto simp: mx_def intro: page_in_direct_map [OF map])
qed

text \<open>
  A boot state: thirteen free frames, and loader tables whose entry for the
  address that \<^verbatim>\<open>pt_init\<close> prints is a 1 GiB page.
\<close>

definition example_boot_pt :: pmm_state where
  "example_boot_pt = \<lparr>mem = (\<lambda>_. 0)(
      0xffff800000001000 := 0x2000, 0xffff800000002000 := 0x3000, 0xffff800000003000 := 0x4000,
      0xffff800000004000 := 0x5000, 0xffff800000005000 := 0x6000, 0xffff800000006000 := 0x7000,
      0xffff800000007000 := 0x8000, 0xffff800000008000 := 0x9000, 0xffff800000009000 := 0xa000,
      0xffff80000000a000 := 0xb000, 0xffff80000000b000 := 0xc000, 0xffff80000000c000 := 0xd000,
      0xffff800000100ff8 := 0x101003, 0xffff800000101ff0 := 0x83),
    FREELIST = Some 0x1000\<rparr>"

definition example_boot_map :: "memmap_entry list" where
  "example_boot_map =
     [\<lparr>me_base = 0, me_length = 0x800, me_type = MEMMAP_USABLE\<rparr>,
      \<lparr>me_base = 0x1000, me_length = 0x234, me_type = MEMMAP_FRAMEBUFFER\<rparr>,
      \<lparr>me_base = 0x9000, me_length = 0x1000, me_type = MEMMAP_RESERVED\<rparr>]"

lemma example_boot_pt_free:
  "pmm_phys 0xffff800000000000 example_boot_pt
     [0xffff800000001000, 0xffff800000002000, 0xffff800000003000, 0xffff800000004000,
      0xffff800000005000, 0xffff800000006000, 0xffff800000007000, 0xffff800000008000,
      0xffff800000009000, 0xffff80000000a000, 0xffff80000000b000, 0xffff80000000c000,
      0xffff80000000d000]"
  by (simp add: pmm_phys_def pmm_free_def phys_frame_def valid_frame_def page_aligned_def example_boot_pt_def)

lemma example_boot_cells:
  "mem example_boot_pt 0xffff800000100ff8 = 0x101003" "mem example_boot_pt 0xffff800000101ff0 = 0x83"
  by (simp_all add: example_boot_pt_def)

lemma example_boot_perms:
  "x86_pt_new 0x101003 4 = 3" "x86_pt_new 0x83 3 = 0x23"
  by (simp_all add: x86_pt_new_def PT_defs)

lemma example_boot_lookup:
  assumes "mem s 0xffff800000100ff8 = 0x101003" "mem s 0xffff800000101ff0 = 0x83"
  shows "x86_get_table 0xffff800000000000 (page_of 0x100000 AND 0x7FFFFFFFFFFFFFFF) 0xffffffff80015000 False s = Inr (Inr 0x101ff0, s)"
proof -
  have T: "x86_table_of 0xffff800000000000 (page_of 0x100000 AND 0x7FFFFFFFFFFFFFFF) = 0xffff800000100000"
    "x86_table_of 0xffff800000000000 0x101003 = 0xffff800000101000"
    by (simp_all add: x86_table_of_def page_of_def)
  have i: "0xffff800000100000 + (drop_bit 39 0xffffffff80015000 AND 0x1ff) * 8 = (0xffff800000100ff8 :: u64)"
    "0xffff800000101000 + (drop_bit 30 0xffffffff80015000 AND 0x1ff) * 8 = (0xffff800000101ff0 :: u64)"
    by simp_all
  have sh: "x86_level_shift 4 = Some 39" "x86_level_shift 3 = Some 30"
    by (simp_all add: x86_level_shift_def)
  have "x86_get_table_from 0xffff800000000000 False 4 0xffff800000100000 0xffffffff80015000 s
      = x86_get_table_from 0xffff800000000000 False 3 0xffff800000101000 0xffffffff80015000 s"
    by (subst x86_get_table_from.simps(2) [where j = 3, simplified])
      (simp add: sh i assms example_boot_perms T Let_def contains_def PT_defs)
  also have "\<dots> = Inr (Inr 0x101ff0, s)"
    by (subst x86_get_table_from.simps(2) [where j = 2, simplified])
      (simp add: sh i assms example_boot_perms Let_def contains_def PT_defs)
  finally show ?thesis
    by (simp add: x86_get_table_def T Let_def)
qed

lemma example_boot_map_facts:
  "memmap_ok example_boot_map" "direct_map_size example_boot_map = 0x2000"
  "in_framebuffer example_boot_map 0x1000"
  by (simp_all add: example_boot_map_def memmap_ok_def entry_end_def direct_map_size_def direct_map_end_simps
      direct_mapped_def in_framebuffer_def)

theorem x86_pt_init_maps_witness:
  "\<exists>s'. x86_pt_init 0xffff800000000000 0x100000 0xffffffff80000000 0xffffffff80000abc (Some ())
        (Some (0xffffffff80000000, 0x7000000)) (Some example_boot_map) example_boot_pt
        = Inr ((0x2000, 0x1000), 0x1000, s')
     \<and> (\<exists>e. x86_mmu 0xffff800000000000 0xffff800000001000 0xffffffff80000000 (mem s') = Some e \<and> x86_leaf 0x7000000 False e)
     \<and> (\<exists>e. x86_mmu 0xffff800000000000 0xffff800000001000 0xffff800000001000 (mem s') = Some e \<and> x86_leaf 0x1000 True e)
     \<and> x86_mmu 0xffff800000000000 0xffff800000001000 0x1000 (mem s') = None"
proof -
  have size: "align_up (0xffffffff80000abc - 0xffffffff80000000) PAGE_SIZE = 0x1000"
    by (simp add: align_up_def PAGE_SIZE_def)
  have pages: "range_step 0xffffffff80000000 0xffffffff80001000 4096 = [0xffffffff80000000]"
    "range_step 0xffff800000000000 0xffff800000002000 4096 = [0xffff800000000000, 0xffff800000001000]"
    by (simp_all add: range_step_def upt_rec)
  have card4: "card (tpaths 4 x) \<le> 4" for x
    unfolding tpaths_def by (rule order_trans [OF card_image_le]) auto
  have twelve: "card (tpaths 4 a \<union> (tpaths 4 b \<union> tpaths 4 c)) \<le> 4 + (4 + 4)" for a b c
    by (rule order_trans [OF card_Un_le] add_mono card4)+
  have room: "card (tpaths 4 a \<union> (tpaths 4 b \<union> tpaths 4 c)) \<le> k" if "12 \<le> k" for a b c k
    by (rule order_trans [OF twelve]) (use that in simp)
  have al: "page_aligned 0xffffffff80000000" "page_aligned 0xffff800000000000" "page_aligned 0x7000000"
    "page_aligned 0" "page_aligned 0x1000" "high_half 4 0xffffffff80000000" "high_half 4 0xffff800000000000"
    by (simp_all add: page_aligned_def high_half_def)
  have vpn: "vpn 4 0x1000 \<noteq> vpn 4 0xffff800000000000" "vpn 4 0x1000 \<noteq> vpn 4 0xffff800000001000"
    "vpn 4 0x1000 \<noteq> vpn 4 0xffffffff80000000"
    by (simp_all add: vpn_def)
  note maps = x86_pt_init_maps [OF example_boot_pt_free _ example_boot_lookup [OF example_boot_cells] example_boot_map_facts(1),
      where kstart = "0xffffffff80000000" and kend = "0xffffffff80000abc" and kv = "0xffffffff80000000" and kp = "0x7000000",
      unfolded size example_boot_map_facts(2)]
  have ends: "0xffffffff80000000 + 0x1000 = (0xffffffff80001000 :: u64)"
    "0xffff800000000000 + 0x2000 = (0xffff800000002000 :: u64)" "0xffff800000001000 - 0xffff800000000000 = (0x1000 :: u64)"
    by simp_all
  have need: "card (\<Union>x\<in>set [0xffffffff80000000] \<union> set [0xffff800000000000, 0xffff800000001000]. tpaths 4 x)
      \<le> length [0xffff800000002000 :: u64, 0xffff800000003000, 0xffff800000004000, 0xffff800000005000, 0xffff800000006000,
        0xffff800000007000, 0xffff800000008000, 0xffff800000009000, 0xffff80000000a000, 0xffff80000000b000,
        0xffff80000000c000, 0xffff80000000d000] + 1"
    by (simp add: room)
  have small: "unat (0xffffffff80000000 :: u64) + unat (0x1000 :: u64) < 2 ^ 64"
    "unat (0x7000000 :: u64) + unat (0x1000 :: u64) \<le> 2 ^ 52" "unat (0xffff800000000000 :: u64) + unat (0x2000 :: u64) < 2 ^ 64"
    by simp_all
  have dis: "set [0xffffffff80000000 :: u64] \<inter> set [0xffff800000000000, 0xffff800000001000] = {}"
    by simp
  obtain s' where init: "x86_pt_init 0xffff800000000000 0x100000 0xffffffff80000000 0xffffffff80000abc (Some ())
        (Some (0xffffffff80000000, 0x7000000)) (Some example_boot_map) example_boot_pt
        = Inr ((0x2000, 0x1000), 0x1000, s')"
    and K: "\<forall>i. page_aligned i \<and> unat i < unat (0x1000 :: u64) \<longrightarrow> (\<exists>e. x86_mmu 0xffff800000000000 0xffff800000001000
      (0xffffffff80000000 + i) (mem s') = Some e \<and> x86_leaf (0x7000000 + i) False e)"
    and D: "\<forall>i. page_aligned i \<and> unat i < unat (0x2000 :: u64) \<longrightarrow> (\<exists>e. x86_mmu 0xffff800000000000 0xffff800000001000
      (0xffff800000000000 + i) (mem s') = Some e \<and> x86_leaf i (in_framebuffer example_boot_map i) e)"
    and N: "\<forall>vb. vpn 4 vb \<notin> vpn 4 ` (set [0xffffffff80000000] \<union> set [0xffff800000000000, 0xffff800000001000]) \<longrightarrow>
      x86_mmu 0xffff800000000000 0xffff800000001000 vb (mem s') = None"
    using maps [unfolded ends pages, OF need al(1,6) small(1) al(3) small(2) al(2,7) small(3) dis] by blast
  have "x86_mmu 0xffff800000000000 0xffff800000001000 0x1000 (mem s') = None"
    using vpn N by simp
  moreover have "\<exists>e. x86_mmu 0xffff800000000000 0xffff800000001000 0xffffffff80000000 (mem s') = Some e \<and> x86_leaf 0x7000000 False e"
    using spec [OF K, of "0"] al(4) by simp
  moreover have "\<exists>e. x86_mmu 0xffff800000000000 0xffff800000001000 0xffff800000001000 (mem s') = Some e \<and> x86_leaf 0x1000 True e"
    using spec [OF D, of "0x1000"] al(5) example_boot_map_facts(3) by simp
  ultimately show ?thesis
    using init by blast
qed

end
