(* ===== verification/PtRiscv.thy ===== *)
theory PtRiscv
  imports PtX86
begin

text \<open>
  The riscv64 page tables, \<^verbatim>\<open>kernel/src/arch/risc_v/pt/mod.rs\<close>: the Sv39, Sv48 and
  Sv57 tables with \<open>lv\<close> levels (\<^verbatim>\<open>SV_LEVELS\<close>), judged against \<open>rv_mmu\<close>, the walk
  of the hardware.
\<close>

section \<open>Flags and entries\<close>

definition RV_VALID :: u8 where "RV_VALID = 1"
definition RV_READ :: u8 where "RV_READ = 2"
definition RV_WRITE :: u8 where "RV_WRITE = 4"
definition RV_EXECUTE :: u8 where "RV_EXECUTE = 8"
definition RV_USER :: u8 where "RV_USER = 16"
definition RV_GLOBAL :: u8 where "RV_GLOBAL = 32"

definition rv_phys_to_virt :: "u64 \<Rightarrow> u64 \<Rightarrow> u64" where
  "rv_phys_to_virt hh phys = phys + hh"

definition rv_extract_phys_from_pte :: "u64 \<Rightarrow> u64" where
  "rv_extract_phys_from_pte pte = push_bit 12 (drop_bit 10 pte AND 0xFFFFFFFFFFF)"

definition rv_from_vmmflags :: "u8 \<Rightarrow> u8" where
  "rv_from_vmmflags fla =
     (let val = RV_VALID OR RV_READ;
          val = (if contains fla VMM_WRITE then val OR RV_WRITE else val);
          val = (if contains fla VMM_EXECUTABLE then val OR RV_EXECUTE else val);
          val = (if contains fla VMM_GLOBAL then val OR RV_GLOBAL else val);
          val = (if contains fla VMM_USER then val OR RV_USER else val)
      in val)"

definition rv_pt_new :: "u64 \<Rightarrow> u8" where
  "rv_pt_new see =
     (let p = (0 :: u8);
          p = (if see AND 1 \<noteq> 0 then p OR RV_VALID else p);
          p = (if see AND 2 \<noteq> 0 then p OR RV_READ else p);
          p = (if see AND 4 \<noteq> 0 then p OR RV_WRITE else p);
          p = (if see AND 8 \<noteq> 0 then p OR RV_EXECUTE else p);
          p = (if see AND 16 \<noteq> 0 then p OR RV_USER else p);
          p = (if see AND 32 \<noteq> 0 then p OR RV_GLOBAL else p)
      in p)"

definition rv_build_permissions :: "u8 \<Rightarrow> u64" where
  "rv_build_permissions self =
     (let v = (0 :: u64);
          v = (if contains self RV_VALID then v OR 1 else v);
          v = (if contains self RV_READ then v OR 2 else v);
          v = (if contains self RV_WRITE then v OR 4 else v);
          v = (if contains self RV_EXECUTE then v OR 8 else v);
          v = (if contains self RV_USER then v OR 16 else v);
          v = (if contains self RV_GLOBAL then v OR 32 else v)
      in v)"

section \<open>Walking, mapping, unmapping\<close>

text \<open>
  The loop \<^verbatim>\<open>for level in (target_level..levels).rev()\<close> of \<^verbatim>\<open>get_table\<close>, with \<open>k\<close>
  levels of indices left.
\<close>

primrec rv_get_table_from ::
    "u64 \<Rightarrow> nat \<Rightarrow> bool \<Rightarrow> nat \<Rightarrow> u64 \<Rightarrow> u64 \<Rightarrow> 'z pmm_state_scheme \<Rightarrow> panic + ((string + u64) \<times> 'z pmm_state_scheme)" where
  "rv_get_table_from hh target alloc 0 T virt s = Inr (Inl ''failed'', s)"
| "rv_get_table_from hh target alloc (Suc level) T virt s =
     (if level < target then Inr (Inl ''failed'', s)
      else
        let index = drop_bit (12 + level * 9) virt AND 0x1FF;
            ble = T + index * 8;
            data = mem s ble;
            perm = rv_pt_new data
        in if level = target \<or> intersects perm (RV_READ OR RV_WRITE OR RV_EXECUTE) \<and> contains perm RV_VALID
           then Inr (Inr ble, s)
           else if \<not> contains perm RV_VALID then
             if alloc then
               and_then (allocate_page hh s) (\<lambda>(p, s1).
                 let page = p - hh;
                     ppn = drop_bit 12 page;
                     m1 = (mem s1)(ble := push_bit 10 ppn OR 1);
                     T' = rv_phys_to_virt hh (rv_extract_phys_from_pte (m1 ble))
                 in rv_get_table_from hh target alloc level T' virt (s1\<lparr>mem := m1\<rparr>))
             else Inr (Inl ''gg broski'', s)
           else rv_get_table_from hh target alloc level (rv_phys_to_virt hh (rv_extract_phys_from_pte data)) virt s)"

definition rv_get_table ::
    "u64 \<Rightarrow> u64 \<Rightarrow> u64 \<Rightarrow> nat \<Rightarrow> nat \<Rightarrow> bool \<Rightarrow> 'z pmm_state_scheme \<Rightarrow> panic + ((string + u64) \<times> 'z pmm_state_scheme)" where
  "rv_get_table hh self virt levels target alloc s =
     rv_get_table_from hh target alloc levels (rv_phys_to_virt hh self) virt s"

definition rv_map_entry ::
    "u64 \<Rightarrow> nat \<Rightarrow> u64 \<Rightarrow> u64 \<Rightarrow> u64 \<Rightarrow> 'z pmm_state_scheme \<Rightarrow> panic + ((string + unit) \<times> 'z pmm_state_scheme)" where
  "rv_map_entry hh lv self virt val s =
     and_then (rv_get_table hh self virt lv 0 True s) (\<lambda>(r, s1).
       case r of
         Inl e \<Rightarrow> Inr (Inl e, s1)
       | Inr yum \<Rightarrow> Inr (Inr (), s1\<lparr>mem := (mem s1)(yum := val)\<rparr>))"

definition rv_pte :: "u64 \<Rightarrow> u8 \<Rightarrow> u64" where
  "rv_pte phys flags = push_bit 10 (drop_bit 12 phys) OR rv_build_permissions flags"

definition rv_map4kib ::
    "u64 \<Rightarrow> nat \<Rightarrow> u64 \<Rightarrow> u64 \<Rightarrow> u64 \<Rightarrow> u8 \<Rightarrow> 'z pmm_state_scheme
      \<Rightarrow> panic + ((string + unit) \<times> 'z pmm_state_scheme)" where
  "rv_map4kib hh lv self virt phys flags s = rv_map_entry hh lv self virt (rv_pte phys flags) s"

text \<open>The fence \<^verbatim>\<open>sfence.vma\<close> has no effect on memory.\<close>

definition rv_unmap4kib ::
    "u64 \<Rightarrow> nat \<Rightarrow> u64 \<Rightarrow> u64 \<Rightarrow> 'z pmm_state_scheme \<Rightarrow> panic + 'z pmm_state_scheme" where
  "rv_unmap4kib hh lv self virt s =
     and_then (rv_get_table hh self virt lv 0 True s) (\<lambda>(r, s1).
       and_then (unwrap_res r) (\<lambda>bro.
         if bro \<noteq> 0 then
           and_then (deallocate_page hh (rv_extract_phys_from_pte (mem s1 bro) + hh) s1) (\<lambda>s2.
             Inr (s2\<lparr>mem := (mem s2)(bro := 0)\<rparr>))
         else Inr s1))"

definition rv_map4kib_unwrap ::
    "u64 \<Rightarrow> nat \<Rightarrow> u64 \<Rightarrow> u64 \<Rightarrow> u64 \<Rightarrow> u8 \<Rightarrow> 'z pmm_state_scheme \<Rightarrow> panic + 'z pmm_state_scheme" where
  "rv_map4kib_unwrap hh lv self virt phys flags s =
     and_then (rv_map4kib hh lv self virt phys flags s) (\<lambda>(r, s1). and_then (unwrap_res r) (\<lambda>_. Inr s1))"

definition rv_arch_map_region_alloc ::
    "u64 \<Rightarrow> nat \<Rightarrow> u64 \<Rightarrow> usize \<Rightarrow> usize \<Rightarrow> u8 \<Rightarrow> 'z pmm_state_scheme \<Rightarrow> panic + 'z pmm_state_scheme" where
  "rv_arch_map_region_alloc hh lv arch_page base len flags s =
     for_each (\<lambda>i s.
         and_then (allocate_page hh s) (\<lambda>(page, s1).
           rv_map4kib_unwrap hh lv arch_page i (page - hh) (rv_from_vmmflags flags) s1))
       (range_step base (base + len) 4096) s"

definition rv_arch_unmap_region ::
    "u64 \<Rightarrow> nat \<Rightarrow> u64 \<Rightarrow> usize \<Rightarrow> usize \<Rightarrow> 'z pmm_state_scheme \<Rightarrow> panic + 'z pmm_state_scheme" where
  "rv_arch_unmap_region hh lv arch_page base len s =
     for_each (rv_unmap4kib hh lv arch_page) (range_step base (base + len) 4096) s"

definition rv_arch_map_region ::
    "u64 \<Rightarrow> nat \<Rightarrow> u64 \<Rightarrow> usize \<Rightarrow> usize \<Rightarrow> u64 list \<Rightarrow> u8 \<Rightarrow> 'z pmm_state_scheme \<Rightarrow> panic + 'z pmm_state_scheme" where
  "rv_arch_map_region hh lv arch_page base len phys flags s =
     for_each (\<lambda>(idx, i) s.
         if idx < length phys
         then rv_map4kib_unwrap hh lv arch_page i (phys ! idx) (rv_from_vmmflags flags) s
         else Inl OutOfBounds)
       (let r = range_step base (base + len) 4096 in zip [0..<length r] r) s"

definition rv_arch_map4kib ::
    "u64 \<Rightarrow> nat \<Rightarrow> u64 \<Rightarrow> usize \<Rightarrow> usize \<Rightarrow> u8 \<Rightarrow> 'z pmm_state_scheme \<Rightarrow> panic + 'z pmm_state_scheme" where
  "rv_arch_map4kib hh lv arch_page va pa flags s =
     rv_map4kib_unwrap hh lv arch_page va pa (rv_from_vmmflags flags) s"

section \<open>Initialisation\<close>

datatype paging_mode = X86_64_4LVL | X86_64_5LVL | RISCV_SV39 | RISCV_SV48 | RISCV_SV57

text \<open>\<^verbatim>\<open>SV_LEVELS\<close>, initially 3, after the mode of the boot loader is known.\<close>

definition rv_sv_levels :: "paging_mode \<Rightarrow> nat \<Rightarrow> nat" where
  "rv_sv_levels mode lv =
     (case mode of RISCV_SV39 \<Rightarrow> 3 | RISCV_SV48 \<Rightarrow> 4 | RISCV_SV57 \<Rightarrow> 5 | _ \<Rightarrow> lv)"

definition rv_memmap_step :: "memmap_entry \<Rightarrow> usize \<Rightarrow> usize" where
  "rv_memmap_step i max_hhdm_phys =
     (if me_type i \<in> {MEMMAP_MAPPED_RESERVED, MEMMAP_USABLE, MEMMAP_BOOTLOADER_RECLAIMABLE, MEMMAP_FRAMEBUFFER,
                      MEMMAP_EXECUTABLE_AND_MODULES, MEMMAP_ACPI_NVS, MEMMAP_ACPI_RECLAIMABLE}
      then max (me_base i + me_length i) max_hhdm_phys else max_hhdm_phys)"

definition rv_memmap_extent :: "memmap_entry list option \<Rightarrow> usize" where
  "rv_memmap_extent resp = (case resp of None \<Rightarrow> 0 | Some es \<Rightarrow> fold rv_memmap_step es 0)"

definition rv_satp_mode :: "nat \<Rightarrow> panic + usize" where
  "rv_satp_mode lv =
     (if lv = 4 then Inr 9 else if lv = 3 then Inr 8 else if lv = 5 then Inr 10 else Inl Unreachable)"

text \<open>
  The size of the image, read as arithmetic on addresses: the source subtracts the
  pointer \<^verbatim>\<open>KERNEL_START\<close> from an integer, which is taken for the subtraction of its
  address, and then the link address.
\<close>

definition rv_kernel_size :: "u64 \<Rightarrow> u64 \<Rightarrow> u64 \<Rightarrow> usize" where
  "rv_kernel_size kstart kend kaddrv = align_up ((kend - kstart) - kaddrv) PAGE_SIZE"

text \<open>
  \<^verbatim>\<open>pt_init\<close>: the result is \<open>(max_hhdm_phys, kernel_size)\<close>, \<^verbatim>\<open>SV_LEVELS\<close> and the
  value written to \<^verbatim>\<open>satp\<close>.
\<close>

definition rv_pt_init ::
    "u64 \<Rightarrow> u64 \<Rightarrow> u64 \<Rightarrow> paging_mode option \<Rightarrow> (u64 \<times> u64) option \<Rightarrow> memmap_entry list option \<Rightarrow>
      'z pmm_state_scheme \<Rightarrow> panic + ((usize \<times> usize) \<times> nat \<times> u64 \<times> 'z pmm_state_scheme)" where
  "rv_pt_init hh kstart kend paging kaddr memmap s =
     and_then (unwrap_opt paging) (\<lambda>mode.
       let lv = rv_sv_levels mode 3; flags = RV_GLOBAL OR RV_VALID OR RV_WRITE OR RV_READ OR RV_EXECUTE
       in and_then (allocate_page hh s) (\<lambda>(page, s1).
          let yo = page - hh
          in and_then (unwrap_opt kaddr) (\<lambda>(kaddrv, kaddrp).
             let kernel_size = rv_kernel_size kstart kend kaddrv
             in and_then (for_each (\<lambda>i. rv_map4kib_unwrap hh lv yo (kaddrv + i) (kaddrp + i) flags)
                   (range_step 0 kernel_size 4096) s1) (\<lambda>s2.
                let max_hhdm_phys = align_up (rv_memmap_extent memmap) PAGE_SIZE
                in and_then (for_each (\<lambda>i. rv_map4kib_unwrap hh lv yo (hh + i) i flags)
                      (range_step 0 max_hhdm_phys 4096) s2) (\<lambda>s3.
                   and_then (rv_satp_mode lv) (\<lambda>m.
                     Inr ((max_hhdm_phys, kernel_size), lv, drop_bit 12 yo OR push_bit 60 (m AND 0xF), s3)))))))"

section \<open>The hardware's view\<close>

text \<open>
  A walk of the hardware: an entry is valid when bit 0 is set, ends the walk when
  one of the R, W and X bits is set, and holds a page number in bits 10 to 53.
\<close>

definition rv_present :: "u64 \<Rightarrow> bool" where
  "rv_present e \<longleftrightarrow> e AND 1 \<noteq> 0"

definition rv_leaf :: "nat \<Rightarrow> u64 \<Rightarrow> bool" where
  "rv_leaf j e \<longleftrightarrow> e AND 0xE \<noteq> 0"

definition rv_next :: "u64 \<Rightarrow> u64 \<Rightarrow> u64" where
  "rv_next hh e = rv_extract_phys_from_pte e + hh"

definition rv_mmu :: "u64 \<Rightarrow> nat \<Rightarrow> u64 \<Rightarrow> u64 \<Rightarrow> memory \<Rightarrow> u64 option" where
  "rv_mmu hh lv T va m = radix_walk rv_present rv_leaf (rv_next hh) lv T va m"

definition rv_mk :: "u64 \<Rightarrow> u64 \<Rightarrow> u64" where
  "rv_mk hh T = push_bit 10 (drop_bit 12 (T - hh)) OR 1"

subsection \<open>Bits of entries\<close>

lemmas RV_defs = RV_VALID_def RV_READ_def RV_WRITE_def RV_EXECUTE_def RV_USER_def RV_GLOBAL_def

lemma bit_flag_8:
  "bit (1 :: u8) i \<longleftrightarrow> i = 0" "bit (2 :: u8) i \<longleftrightarrow> i = 1" "bit (4 :: u8) i \<longleftrightarrow> i = 2"
  "bit (8 :: u8) i \<longleftrightarrow> i = 3" "bit (16 :: u8) i \<longleftrightarrow> i = 4" "bit (32 :: u8) i \<longleftrightarrow> i = 5"
  by (rule bit_flag; simp)+

lemma contains_8:
  "contains (f :: u8) 1 \<longleftrightarrow> bit f 0" "contains f 2 \<longleftrightarrow> bit f 1" "contains f 4 \<longleftrightarrow> bit f 2"
  "contains f 8 \<longleftrightarrow> bit f 3" "contains f 16 \<longleftrightarrow> bit f 4" "contains f 32 \<longleftrightarrow> bit f 5"
  by (rule contains_flag; simp)+

lemma bit_rv_build_permissions: "bit (rv_build_permissions f) i \<longleftrightarrow> i < 6 \<and> bit f i"
proof -
  have "bit (rv_build_permissions f) i \<longleftrightarrow> i = 0 \<and> bit f 0 \<or> i = 1 \<and> bit f 1 \<or> i = 2 \<and> bit f 2
      \<or> i = 3 \<and> bit f 3 \<or> i = 4 \<and> bit f 4 \<or> i = 5 \<and> bit f 5"
    unfolding rv_build_permissions_def Let_def RV_defs
    by (simp only: bit_if_or contains_8 bit_flag_64 bit_0_eq bot_apply simp_thms) auto
  also have "\<dots> \<longleftrightarrow> i < 6 \<and> bit f i"
    by (auto simp: less_Suc_eq numeral_eq_Suc)
  finally show ?thesis .
qed

lemma bit_rv_pt_new: "bit (rv_pt_new e) i \<longleftrightarrow> i < 6 \<and> bit e i"
proof -
  have "bit (rv_pt_new e) i \<longleftrightarrow> i = 0 \<and> bit e 0 \<or> i = 1 \<and> bit e 1 \<or> i = 2 \<and> bit e 2
      \<or> i = 3 \<and> bit e 3 \<or> i = 4 \<and> bit e 4 \<or> i = 5 \<and> bit e 5"
    unfolding rv_pt_new_def Let_def RV_defs
    by (simp only: bit_if_or and_flag_64 bit_flag_8 bit_0_eq bot_apply simp_thms) auto
  also have "\<dots> \<longleftrightarrow> i < 6 \<and> bit e i"
    by (auto simp: less_Suc_eq numeral_eq_Suc)
  finally show ?thesis .
qed

lemma bit_rv_pte:
  "bit (rv_pte p f) i \<longleftrightarrow> i < 6 \<and> bit f i \<or> 10 \<le> i \<and> i < 64 \<and> bit p (i + 2)"
  by (auto simp: rv_pte_def bit_or_iff bit_rv_build_permissions bit_push_bit_iff bit_drop_bit_eq)

lemma rv_ppn_mask: "(0xFFFFFFFFFFF :: u64) = mask 44"
  by (simp add: mask_eq_exp_minus_1)

lemma bit_rv_extract: "bit (rv_extract_phys_from_pte e) i \<longleftrightarrow> 12 \<le> i \<and> i < 56 \<and> bit e (i - 2)"
  by (simp only: rv_extract_phys_from_pte_def rv_ppn_mask bit_push_bit_iff bit_and_iff bit_mask_iff bit_drop_bit_eq)
    auto

lemma rv_extract_pte:
  assumes "page_aligned p" "unat p < 2 ^ 52"
  shows "rv_extract_phys_from_pte (rv_pte p f) = p"
proof (rule bit_eqI)
  fix i
  have "bit (rv_extract_phys_from_pte (rv_pte p f)) i \<longleftrightarrow> 12 \<le> i \<and> i < 56 \<and> bit p i"
  proof (cases "12 \<le> i")
    case True
    then obtain j where "i = j + 12"
      by (metis le_add_diff_inverse2)
    then show ?thesis
      by (auto simp: bit_rv_extract bit_rv_pte add.commute)
  qed (simp add: bit_rv_extract)
  then show "bit (rv_extract_phys_from_pte (rv_pte p f)) i \<longleftrightarrow> bit p i"
    using frame_bits [OF assms, of i] by auto
qed

lemma rv_pte_flags: "rv_pt_new (rv_pte p f) = f AND mask 6"
  by (rule bit_eqI) (auto simp: bit_rv_pt_new bit_rv_pte bit_and_iff bit_mask_iff)

lemma rv_pte_present [simp]: "rv_present (rv_pte p f) \<longleftrightarrow> bit f 0"
  by (simp only: rv_present_def and_flag_64 bit_rv_pte) simp

lemma rv_mk_pte: "rv_mk hh T = rv_pte (T - hh) 1"
proof -
  have "rv_build_permissions 1 = 1"
    by (rule bit_eqI) (auto simp: bit_rv_build_permissions bit_flag_8 bit_flag_64)
  then show ?thesis
    by (simp add: rv_mk_def rv_pte_def)
qed

lemma rv_mk_facts:
  assumes T: "phys_frame hh T"
  shows "rv_present (rv_mk hh T)" "\<not> rv_leaf j (rv_mk hh T)" "rv_next hh (rv_mk hh T) = T"
    "contains (rv_pt_new (rv_mk hh T)) RV_VALID"
    "\<not> intersects (rv_pt_new (rv_mk hh T)) (RV_READ OR RV_WRITE OR RV_EXECUTE)"
proof -
  have f: "rv_pt_new (rv_mk hh T) = 1"
    by (simp add: rv_mk_pte rv_pte_flags mask_eq_exp_minus_1)
  show "rv_present (rv_mk hh T)"
    by (simp add: rv_mk_pte)
  show "contains (rv_pt_new (rv_mk hh T)) RV_VALID"
    "\<not> intersects (rv_pt_new (rv_mk hh T)) (RV_READ OR RV_WRITE OR RV_EXECUTE)"
    by (simp_all add: f contains_def intersects_def RV_defs)
  have "(0xE :: u64) = push_bit 1 (mask 3)"
    by (simp add: mask_eq_exp_minus_1 push_bit_eq_mult)
  then have E: "bit (0xE :: u64) i \<longleftrightarrow> 1 \<le> i \<and> i < 4" for i
    by (simp only: bit_push_bit_iff bit_mask_iff) auto
  have "rv_mk hh T AND 0xE = 0"
    by (intro bit_eqI) (simp only: rv_mk_pte bit_and_iff bit_rv_pte bit_flag_8 E bit_0_eq bot_apply, auto)
  then show "\<not> rv_leaf j (rv_mk hh T)"
    by (simp add: rv_leaf_def)
  show "rv_next hh (rv_mk hh T) = T"
    using T by (simp add: rv_next_def rv_mk_pte rv_extract_pte phys_frame_def)
qed

section \<open>The contract\<close>

lemma rv_get_table_step:
  fixes T va :: u64
  assumes "0 < j"
  defines "c \<equiv> entry_at T (vidx (Suc j) va)"
  shows "mem s c = 0 \<Longrightarrow> rv_get_table_from hh 0 False (Suc j) T va s = Inr (Inl ''gg broski'', s)"
    and "mem s c = 0 \<Longrightarrow> allocate_page hh s = Inr (p, s1) \<Longrightarrow> phys_frame hh p \<Longrightarrow>
      rv_get_table_from hh 0 True (Suc j) T va s
        = rv_get_table_from hh 0 True j p va (s1\<lparr>mem := (mem s1)(c := rv_mk hh p)\<rparr>)"
    and "mem s c = rv_mk hh p \<Longrightarrow> phys_frame hh p \<Longrightarrow>
      rv_get_table_from hh 0 a (Suc j) T va s = rv_get_table_from hh 0 a j p va s"
proof -
  have c: "T + (drop_bit (12 + j * 9) va AND 0x1ff) * 8 = c"
    using entry_at_shift [of T j va] by (simp add: c_def mult.commute)
  have z: "rv_pt_new 0 = 0"
    by (simp add: rv_pt_new_def)
  have nv: "\<not> contains (0 :: u8) RV_VALID"
    by (simp add: contains_def RV_VALID_def)
  show "mem s c = 0 \<Longrightarrow> rv_get_table_from hh 0 False (Suc j) T va s = Inr (Inl ''gg broski'', s)"
    using assms(1) by (simp add: Let_def c z nv)
  show "mem s c = 0 \<Longrightarrow> allocate_page hh s = Inr (p, s1) \<Longrightarrow> phys_frame hh p \<Longrightarrow>
      rv_get_table_from hh 0 True (Suc j) T va s
        = rv_get_table_from hh 0 True j p va (s1\<lparr>mem := (mem s1)(c := rv_mk hh p)\<rparr>)"
    using assms(1) rv_mk_facts(3) [of hh p]
    by (simp add: Let_def c z nv rv_mk_def rv_next_def rv_phys_to_virt_def)
  show "mem s c = rv_mk hh p \<Longrightarrow> phys_frame hh p \<Longrightarrow>
      rv_get_table_from hh 0 a (Suc j) T va s = rv_get_table_from hh 0 a j p va s"
    using assms(1) rv_mk_facts(3-5) [of hh p]
    by (simp add: Let_def c rv_next_def rv_phys_to_virt_def)
qed

lemma rv_get_table_last:
  "rv_get_table_from hh 0 a 1 T va s = Inr (Inr (entry_at T (vidx 1 va)), s)"
  using entry_at_shift [of T 0 va] by (simp add: Let_def)

interpretation rv: page_mapper "allocate_page hh" "deallocate_page hh" mem set_mem
  "pmm_phys hh" "phys_frame hh" "Suc k" "rv_mk hh" "rv_get_table_from hh 0" "\<lambda>c. c" "''gg broski''"
  rv_present rv_leaf "rv_next hh" "\<lambda>T. rv_map_entry hh (Suc k) (T - hh)" "\<lambda>T. rv_unmap4kib hh (Suc k) (T - hh)"
  "rv_next hh" for hh :: u64 and k :: nat
proof (unfold_locales, goal_cases)
  case (2 T) then show ?case by (rule rv_mk_facts)
next
  case (4 T j) then show ?case by (rule rv_mk_facts)
next
  case (5 T) then show ?case by (rule rv_mk_facts)
next
  case 6 show ?case by (rule rv_get_table_last)
next
  case (7 T j T' s va a) then show ?case by (intro rv_get_table_step(3))
next
  case (8 T j s va T' s1) then show ?case using rv_get_table_step(2) by (simp only: set_mem_def)
next
  case (9 T j s va) then show ?case by (intro rv_get_table_step(1))
next
  case (10 root va s c s1 v)
  then show ?case
    by (simp add: rv_map_entry_def rv_get_table_def rv_phys_to_virt_def set_mem_def del: rv_get_table_from.simps)
next
  case (11 root va s c)
  then show ?case
    by (simp add: rv_unmap4kib_def rv_get_table_def rv_phys_to_virt_def set_mem_def rv_next_def
        del: rv_get_table_from.simps)
qed (auto simp: rv_present_def phys_frame_def valid_frame_def)

section \<open>Properties\<close>

abbreviation rv_tables :: "u64 \<Rightarrow> nat \<Rightarrow> u64 \<Rightarrow> (nat list \<Rightarrow> u64 option) \<Rightarrow> memory \<Rightarrow> bool" where
  "rv_tables hh lv \<equiv> tables_ok (rv_mk hh) (phys_frame hh) lv"

text \<open>
  C12: whatever paging mode \<^verbatim>\<open>pt_init\<close> has selected (Sv39, Sv48, Sv57), \<^verbatim>\<open>map4kib\<close> in
  well-formed tables with a free frame per level makes the hardware translate
  exactly the page of \<open>va\<close> to the frame and flags asked for, and \<^verbatim>\<open>unmap4kib\<close> of
  it afterwards gives the frame back and restores every translation.
\<close>

theorem rv_map_unmap:
  fixes mode :: paging_mode
  defines "lv \<equiv> rv_sv_levels mode 3"
  assumes ok: "rv_tables hh lv root t (mem s)" "pmm_phys hh s vs" "ran t \<inter> set vs = {}" "lv \<le> length vs + 1"
    and p: "phys_frame hh p" "p \<notin> set vs" "p \<notin> ran t" and f: "contains flags RV_VALID"
    and unmapped: "rv_mmu hh lv root va (mem s) = None"
  shows "\<exists>s1 s2 t' vs'. rv_map4kib hh lv (root - hh) va (p - hh) flags s = Inr (Inr (), s1)
     \<and> (\<forall>vb. rv_mmu hh lv root vb (mem s1) =
          (if vpn lv vb = vpn lv va then Some (rv_pte (p - hh) flags) else rv_mmu hh lv root vb (mem s)))
     \<and> rv_unmap4kib hh lv (root - hh) va s1 = Inr s2 \<and> pmm_phys hh s2 (p # vs')
     \<and> rv_tables hh lv root t' (mem s2) \<and> ran t' \<union> set vs' = ran t \<union> set vs
     \<and> (\<forall>vb. rv_mmu hh lv root vb (mem s2) = rv_mmu hh lv root vb (mem s))"
proof -
  obtain k where lv: "lv = Suc k"
    unfolding lv_def rv_sv_levels_def by (cases mode) auto
  let ?e = "rv_pte (p - hh) flags"
  have pres: "rv_present ?e"
    using f by (simp add: contains_8 RV_VALID_def)
  have fr: "rv_next hh ?e = p"
    using p(1) by (simp add: rv_next_def rv_extract_pte phys_frame_def)
  have "card (missing (Suc k) t va) \<le> length vs"
    using card_missing [OF ok(1), of va] ok(4) lv by simp
  from rv.map_ok [OF ok(1) [unfolded lv] ok(2,3) this, of ?e] obtain t' s1 us vs' where
    1: "rv_map4kib hh lv (root - hh) va (p - hh) flags s = Inr (Inr (), s1)" "vs = us @ vs'" "pmm_phys hh s1 vs'"
      "rv_tables hh (Suc k) root t' (mem s1)" "ran t' = ran t \<union> set us"
      "\<forall>vb. rv_mmu hh lv root vb (mem s1) = (if vpn lv vb = vpn lv va then Some ?e else rv_mmu hh lv root vb (mem s))"
    using pres unfolding rv_mmu_def rv_map4kib_def lv by auto
  have dis: "ran t' \<inter> set vs' = {}"
    using ok(2,3) 1(2,5) by (auto simp: pmm_phys_def dest!: pmm_free_distinct)
  have w: "radix_walk rv_present rv_leaf (rv_next hh) (Suc k) root va (mem s1) = Some ?e"
    using 1(6) by (simp only: rv_mmu_def lv) simp
  have p': "p \<notin> set vs'" "p \<notin> ran t'"
    using p(2,3) 1(2,5) by auto
  from rv.unmap_ok [OF 1(4,3) w, unfolded fr, OF p(1) p' dis] obtain s2 where
    2: "rv_unmap4kib hh lv (root - hh) va s1 = Inr s2" "pmm_phys hh s2 (p # vs')" "rv_tables hh lv root t' (mem s2)"
      "\<forall>vb. rv_mmu hh lv root vb (mem s2) = (if vpn lv vb = vpn lv va then None else rv_mmu hh lv root vb (mem s1))"
    unfolding rv_mmu_def lv by blast
  have same: "rv_mmu hh lv root vb (mem s) = None" if "vpn lv vb = vpn lv va" for vb
    using unmapped rv.walk_eq [OF ok(1) [unfolded lv]] rv.cell_vpn [of k vb va t] that
    unfolding rv_mmu_def lv by simp
  have "rv_mmu hh lv root vb (mem s2) = rv_mmu hh lv root vb (mem s)" for vb
    using 2(4) 1(6) same by simp
  moreover have "ran t' \<union> set vs' = ran t \<union> set vs"
    using 1(2,5) by auto
  ultimately show ?thesis
    using 1(1,6) 2(1-3) by blast
qed

lemma example_rv_unmapped: "rv_mmu 0x100000 3 0x101000 va (mem example_pt) = None"
proof -
  have "page_of (entry_at 0x101000 (vidx (Suc 2) va)) = 0x101000"
    by (rule page_entry_at [OF _ vidx_lt]) (simp add: page_aligned_def)
  moreover have "mem example_pt a = 0" if "page_of a = 0x101000" for a
    using that by (auto simp: example_pt_def page_of_def)
  ultimately have "mem example_pt (entry_at 0x101000 (vidx (Suc 2) va)) = 0"
    by blast
  moreover have "rv_mmu 0x100000 3 = rv_mmu 0x100000 (Suc 2)"
    by simp
  ultimately show ?thesis
    by (simp only: rv_mmu_def radix_walk.simps(2) Let_def rv_present_def) simp
qed

theorem rv_map_unmap_witness:
  "\<exists>s1 s2. rv_map4kib 0x100000 3 0x1000 0xffffffff80000000 0x50000 (RV_VALID OR RV_READ) example_pt = Inr (Inr (), s1)
     \<and> rv_mmu 0x100000 3 0x101000 0xffffffff80000000 (mem s1) = Some 0x14003
     \<and> rv_unmap4kib 0x100000 3 0x1000 0xffffffff80000000 s1 = Inr s2 \<and> FREELIST s2 = Some 0x50000"
proof -
  have t: "rv_tables 0x100000 3 0x101000 [[] \<mapsto> 0x101000] (mem example_pt)"
    by (rule tables_fresh)
      (auto simp: phys_frame_def valid_frame_def page_aligned_def example_pt_def page_of_def)
  have ran: "ran [[] \<mapsto> (0x101000 :: u64)] = {0x101000}"
    by (auto simp: ran_def)
  have lv: "rv_sv_levels RISCV_SV39 3 = 3"
    by (simp add: rv_sv_levels_def)
  have p: "phys_frame 0x100000 0x150000"
    by (simp add: phys_frame_def valid_frame_def page_aligned_def)
  note none = example_rv_unmapped [of "0xffffffff80000000"]
  have e: "rv_pte (0x150000 - 0x100000) (RV_VALID OR RV_READ) = 0x14003"
    by (simp add: rv_pte_def rv_build_permissions_def contains_def RV_defs)
  have "contains (RV_VALID OR RV_READ) RV_VALID"
    by (simp add: contains_def RV_defs)
  from rv_map_unmap [where mode = RISCV_SV39, unfolded lv, OF t example_pt_free _ _ p _ _ this none] e ran
  obtain s1 s2 vs' where "rv_map4kib 0x100000 3 0x1000 0xffffffff80000000 0x50000 (RV_VALID OR RV_READ) example_pt = Inr (Inr (), s1)"
    "rv_mmu 0x100000 3 0x101000 0xffffffff80000000 (mem s1) = Some 0x14003"
    "rv_unmap4kib 0x100000 3 0x1000 0xffffffff80000000 s1 = Inr s2" "pmm_phys 0x100000 s2 (0x150000 # vs')"
    by auto
  then show ?thesis
    by (auto simp: pmm_phys_def pmm_free_def)
qed

text \<open>
  Remark: a leaf entry gives back its page-aligned frame address (below the 52-bit
  limit) and its six flags.
\<close>

theorem rv_pte_roundtrip:
  assumes "page_aligned p" "unat p < 2 ^ 52"
  shows "rv_extract_phys_from_pte (rv_pte p f) = p \<and> rv_pt_new (rv_pte p f) = f AND mask 6"
  by (simp add: rv_extract_pte [OF assms] rv_pte_flags)

theorem rv_pte_roundtrip_witness: "rv_extract_phys_from_pte (rv_pte 0xABCDE000 0x0F) = 0xABCDE000"
  using rv_pte_roundtrip [of "0xABCDE000" "0x0F"] by (simp add: page_aligned_def)

text \<open>
  The size \<^verbatim>\<open>pt_init\<close> computes for the kernel image subtracts the link address
  from an address difference: for an image of 2 MiB it is more than 2 GiB.
\<close>

lemma rv_kernel_size_example:
  "rv_kernel_size 0xffffffff80000000 0xffffffff80200000 0xffffffff80000000 = 0x80200000"
  by (simp add: rv_kernel_size_def align_up_def PAGE_SIZE_def)

end
