(* ===== verification/Vmm.thy ===== *)
theory Vmm
  imports Slab PtX86 PtRiscv
begin

text \<open>
  The virtual memory manager, \<^verbatim>\<open>kernel/src/memory/vmm/mod.rs\<close>: a sorted list of
  regions of the kernel's half, kept in slab objects, with first-fit placement.
  The regions live in a typed heap \<open>vm_regions\<close>, keyed by the address of their
  slab object. What differs between the two targets is the record \<open>arch_ops\<close> of
  the page table operations; the locale \<open>region_arch\<close> is the contract both meet.
\<close>

section \<open>State and operations\<close>

record VMMRegion =
  r_next :: "u64 option"
  r_base :: usize
  r_length :: usize
  r_flags :: u8

record Pagemap =
  arch_page :: u64
  khead :: "u64 option"
  uhead :: "u64 option"

record vmm_state = slab_state +
  vm_regions :: "u64 \<Rightarrow> VMMRegion option"
  kermap :: "Pagemap option"
  max_hhdm_phy :: "usize option"

text \<open>The macro \<^verbatim>\<open>early_init_pagemap!\<close> of \<^verbatim>\<open>kernel/src/util/mod.rs\<close>.\<close>

definition early_init_pagemap :: "'m vmm_state_scheme \<Rightarrow> panic + Pagemap" where
  "early_init_pagemap m = unwrap_opt (kermap m)"

record 's arch_ops =
  arch_map_region_alloc :: "u64 \<Rightarrow> usize \<Rightarrow> usize \<Rightarrow> u8 \<Rightarrow> 's \<Rightarrow> panic + 's"
  arch_map_region :: "u64 \<Rightarrow> usize \<Rightarrow> usize \<Rightarrow> u64 list \<Rightarrow> u8 \<Rightarrow> 's \<Rightarrow> panic + 's"
  arch_unmap_region :: "u64 \<Rightarrow> usize \<Rightarrow> usize \<Rightarrow> 's \<Rightarrow> panic + 's"

definition x86_arch :: "u64 \<Rightarrow> 'z pmm_state_scheme arch_ops" where
  "x86_arch hh = \<lparr>arch_map_region_alloc = x86_arch_map_region_alloc hh,
     arch_map_region = x86_arch_map_region hh, arch_unmap_region = x86_arch_unmap_region hh\<rparr>"

definition rv_arch :: "u64 \<Rightarrow> nat \<Rightarrow> 'z pmm_state_scheme arch_ops" where
  "rv_arch hh lv = \<lparr>arch_map_region_alloc = rv_arch_map_region_alloc hh lv,
     arch_map_region = rv_arch_map_region hh lv, arch_unmap_region = rv_arch_unmap_region hh lv\<rparr>"

text \<open>\<^verbatim>\<open>size_of::<VMMRegion>()\<close>: an \<^verbatim>\<open>Option\<close> of a raw pointer takes 16 bytes.\<close>

definition VMMRegion_bytes :: usize where
  "VMMRegion_bytes = 40"

definition region_read :: "u64 \<Rightarrow> 'z vmm_state_scheme \<Rightarrow> panic + VMMRegion" where
  "region_read p s = (case vm_regions s p of None \<Rightarrow> Inl BadPointer | Some r \<Rightarrow> Inr r)"

definition region_write :: "u64 \<Rightarrow> VMMRegion \<Rightarrow> 'z vmm_state_scheme \<Rightarrow> 'z vmm_state_scheme" where
  "region_write p r s = s\<lparr>vm_regions := (vm_regions s)(p \<mapsto> r)\<rparr>"

definition VMMRegion_new ::
    "u64 \<Rightarrow> usize \<Rightarrow> usize \<Rightarrow> u8 \<Rightarrow> 'z vmm_state_scheme \<Rightarrow> panic + (u64 \<times> 'z vmm_state_scheme)" where
  "VMMRegion_new hh base len flags s =
     and_then (slab_alloc hh VMMRegion_bytes s) (\<lambda>(r, s1).
       and_then (unwrap_res r) (\<lambda>ne.
         Inr (ne, region_write ne \<lparr>r_next = None, r_base = base, r_length = len, r_flags = flags\<rparr> s1)))"

text \<open>
  The loop of \<^verbatim>\<open>calculate_region_location\<close>, with a bound on the number of rounds;
  \<open>Inl\<close> inside the result is its \<^verbatim>\<open>Err\<close>.
\<close>

primrec region_gap_loop ::
    "nat \<Rightarrow> usize \<Rightarrow> u64 option \<Rightarrow> u64 option \<Rightarrow> 'z vmm_state_scheme
      \<Rightarrow> panic + (string + (usize \<times> u64 \<times> u64))" where
  "region_gap_loop 0 amount prev cur s = Inl OutOfFuel"
| "region_gap_loop (Suc fuel) amount prev cur s =
     (case cur of
        None \<Rightarrow> Inr (Inl ''could not find vmm region'')
      | Some c \<Rightarrow>
          and_then (region_read c s) (\<lambda>q.
            case prev of
              None \<Rightarrow> region_gap_loop fuel amount cur (r_next q) s
            | Some p \<Rightarrow>
                and_then (region_read p s) (\<lambda>w.
                  let e = r_base w + r_length w;
                      calculation = (if e \<le> r_base q then r_base q - e else 0)
                  in if calculation \<ge> align_up amount PAGE_SIZE + PAGE_SIZE
                     then Inr (Inr (e, p, c))
                     else region_gap_loop fuel amount cur (r_next q) s)))"

definition calculate_region_location ::
    "Pagemap \<Rightarrow> usize \<Rightarrow> 'z vmm_state_scheme \<Rightarrow> panic + (string + (usize \<times> u64 \<times> u64))" where
  "calculate_region_location pm amount s = region_gap_loop slab_fuel amount None (khead pm) s"

text \<open>
  What the three allocation functions share: find the gap, make the region and
  link it between its neighbours. The result is the region read back.
\<close>

definition vmm_place_region ::
    "u64 \<Rightarrow> Pagemap \<Rightarrow> usize \<Rightarrow> u8 \<Rightarrow> 'z vmm_state_scheme \<Rightarrow> panic + (VMMRegion \<times> 'z vmm_state_scheme)" where
  "vmm_place_region hh pm amount flags s =
     and_then (calculate_region_location pm amount s) (\<lambda>r.
     and_then (unwrap_res r) (\<lambda>(base, p, c).
     and_then (VMMRegion_new hh base (align_up amount PAGE_SIZE) flags s) (\<lambda>(e, s1).
     and_then (region_read p s1) (\<lambda>rp.
       let s2 = region_write p (rp\<lparr>r_next := Some e\<rparr>) s1
       in and_then (region_read e s2) (\<lambda>re.
          let s3 = region_write e (re\<lparr>r_next := Some c\<rparr>) s2
          in and_then (region_read e s3) (\<lambda>info. Inr (info, s3)))))))"

definition vmm_alloc_with_phys ::
    "u64 \<Rightarrow> 'z vmm_state_scheme arch_ops \<Rightarrow> Pagemap \<Rightarrow> usize \<Rightarrow> u8 \<Rightarrow> u64 list \<Rightarrow> 'z vmm_state_scheme
      \<Rightarrow> panic + (u64 \<times> 'z vmm_state_scheme)" where
  "vmm_alloc_with_phys hh A pm amount flags pa s =
     (if contains flags VMM_USER then Inl (PanicMsg ''todo'')
      else and_then (vmm_place_region hh pm amount flags s) (\<lambda>(info, s1).
           and_then (arch_map_region A (arch_page pm) (r_base info) (r_length info) pa flags s1) (\<lambda>s2.
             Inr (r_base info, s2))))"

definition vmm_alloc_without_backing ::
    "u64 \<Rightarrow> Pagemap \<Rightarrow> usize \<Rightarrow> u8 \<Rightarrow> 'z vmm_state_scheme \<Rightarrow> panic + (u64 \<times> 'z vmm_state_scheme)" where
  "vmm_alloc_without_backing hh pm amount flags s =
     (if contains flags VMM_USER then Inl (PanicMsg ''todo'')
      else and_then (vmm_place_region hh pm amount flags s) (\<lambda>(info, s1). Inr (r_base info, s1)))"

definition vmm_alloc ::
    "u64 \<Rightarrow> 'z vmm_state_scheme arch_ops \<Rightarrow> Pagemap \<Rightarrow> usize \<Rightarrow> u8 \<Rightarrow> 'z vmm_state_scheme
      \<Rightarrow> panic + (u64 \<times> 'z vmm_state_scheme)" where
  "vmm_alloc hh A pm amount flags s =
     (if contains flags VMM_USER then Inl (PanicMsg ''todo'')
      else and_then (vmm_place_region hh pm amount flags s) (\<lambda>(info, s1).
           and_then (arch_map_region_alloc A (arch_page pm) (r_base info) (r_length info) flags s1) (\<lambda>s2.
             Inr (r_base info, s2))))"

text \<open>
  The loop of \<^verbatim>\<open>vmm_dealloc\<close>. The freed object is no region any more, so its entry
  leaves the typed heap.
\<close>

primrec vmm_dealloc_loop ::
    "nat \<Rightarrow> 'z vmm_state_scheme arch_ops \<Rightarrow> u64 \<Rightarrow> u64 option \<Rightarrow> u64 option \<Rightarrow> Pagemap \<Rightarrow> 'z vmm_state_scheme
      \<Rightarrow> panic + (Pagemap \<times> 'z vmm_state_scheme)" where
  "vmm_dealloc_loop 0 A base prev cur pm s = Inl OutOfFuel"
| "vmm_dealloc_loop (Suc fuel) A base prev cur pm s =
     (case cur of
        None \<Rightarrow> Inr (pm, s)
      | Some current \<Rightarrow>
          and_then (region_read current s) (\<lambda>info.
            if r_base info = base then
              and_then (arch_unmap_region A (arch_page pm) (r_base info) (r_length info) s) (\<lambda>s1.
              and_then (region_read current s1) (\<lambda>rc.
              and_then (case prev of
                  Some yo \<Rightarrow> and_then (region_read yo s1) (\<lambda>ry.
                    Inr (pm, region_write yo (ry\<lparr>r_next := r_next rc\<rparr>) s1))
                | None \<Rightarrow> Inr (pm\<lparr>khead := r_next rc\<rparr>, s1)) (\<lambda>(pm', s2).
                let s3 = slab_dealloc current s2
                in Inr (pm', s3\<lparr>vm_regions := (vm_regions s3)(current := None)\<rparr>))))
            else vmm_dealloc_loop fuel A base cur (r_next info) pm s))"

definition vmm_dealloc ::
    "'z vmm_state_scheme arch_ops \<Rightarrow> Pagemap \<Rightarrow> u64 \<Rightarrow> bool \<Rightarrow> 'z vmm_state_scheme
      \<Rightarrow> panic + (Pagemap \<times> 'z vmm_state_scheme)" where
  "vmm_dealloc A pm base user_allocated s =
     (if base = 0 then Inr (pm, s)
      else if \<not> user_allocated then vmm_dealloc_loop slab_fuel A base None (khead pm) pm s
      else Inl (PanicMsg ''todo''))"

text \<open>
  \<^verbatim>\<open>vmm_init\<close>, over the \<^verbatim>\<open>pt_init\<close> of the target (its two sizes and the physical
  address of the root table it installed).
\<close>

definition vmm_init ::
    "u64 \<Rightarrow> ('z vmm_state_scheme \<Rightarrow> panic + ((usize \<times> usize) \<times> u64 \<times> 'z vmm_state_scheme)) \<Rightarrow> (u64 \<times> u64) option \<Rightarrow>
      'z vmm_state_scheme \<Rightarrow> panic + 'z vmm_state_scheme" where
  "vmm_init hh pt_init kaddr s =
     and_then (pt_init s) (\<lambda>((hhdm_size, kernel_size), root, s1).
     and_then (unwrap_opt kaddr) (\<lambda>(virtual_base, physical_base).
     and_then (VMMRegion_new hh virtual_base kernel_size (VMM_GLOBAL OR VMM_EXECUTABLE) s1) (\<lambda>(kernel_region, s2).
     and_then (VMMRegion_new hh hh hhdm_size (VMM_GLOBAL OR VMM_EXECUTABLE OR VMM_WRITE) s2) (\<lambda>(hhdm_region, s3).
       let s4 = (if max_hhdm_phy s3 = None then s3\<lparr>max_hhdm_phy := Some hhdm_size\<rparr> else s3)
       in and_then (region_read hhdm_region s4) (\<lambda>r.
          let s5 = region_write hhdm_region (r\<lparr>r_next := Some kernel_region\<rparr>) s4
          in Inr (s5\<lparr>kermap := Some \<lparr>arch_page = root, khead = Some hhdm_region, uhead = None\<rparr>\<rparr>))))))"

section \<open>The list of regions\<close>

text \<open>
  What the list stands for: \<open>(base, length, flags)\<close> in address order. \<open>gap_pos\<close> is
  the first region with enough room behind it, one page of which stays unused.
\<close>

type_synonym region = "usize \<times> usize \<times> u8"

definition region_of :: "VMMRegion \<Rightarrow> region" where
  "region_of r = (r_base r, r_length r, r_flags r)"

definition region_end :: "region \<Rightarrow> usize" where
  "region_end r = fst r + fst (snd r)"

fun gap_pos :: "usize \<Rightarrow> region list \<Rightarrow> nat option" where
  "gap_pos n (r # q # rs) =
     (if n + PAGE_SIZE \<le> (if region_end r \<le> fst q then fst q - region_end r else 0) then Some 0
      else map_option Suc (gap_pos n (q # rs)))"
| "gap_pos n rs = None"

definition place_region :: "usize \<Rightarrow> u8 \<Rightarrow> region list \<Rightarrow> (usize \<times> region list) option" where
  "place_region n fl rs =
     (case gap_pos n rs of
        None \<Rightarrow> None
      | Some i \<Rightarrow> let b = region_end (rs ! i) in Some (b, take (Suc i) rs @ (b, n, fl) # drop (Suc i) rs))"

primrec region_chain :: "(u64 \<Rightarrow> VMMRegion option) \<Rightarrow> u64 option \<Rightarrow> u64 list \<Rightarrow> bool" where
  "region_chain V h [] \<longleftrightarrow> h = None"
| "region_chain V h (p # ps) \<longleftrightarrow> h = Some p \<and> V p \<noteq> None \<and> region_chain V (r_next (the (V p))) ps"

definition regions :: "(u64 \<Rightarrow> VMMRegion option) \<Rightarrow> u64 list \<Rightarrow> region list" where
  "regions V ps = map (\<lambda>p. region_of (the (V p))) ps"

lemma gap_pos_Some:
  "gap_pos n rs = Some i \<Longrightarrow> Suc i < length rs \<and> region_end (rs ! i) \<le> fst (rs ! Suc i)
     \<and> n + PAGE_SIZE \<le> fst (rs ! Suc i) - region_end (rs ! i)
   \<or> Suc i < length rs \<and> n + PAGE_SIZE = 0"
  by (induction n rs arbitrary: i rule: gap_pos.induct) (auto split: if_splits)

lemma region_chain_mem: "region_chain V h ps \<Longrightarrow> p \<in> set ps \<Longrightarrow> V p \<noteq> None"
  by (induction ps arbitrary: h) auto

lemma region_chain_cong:
  "region_chain V h ps \<Longrightarrow> (\<And>p. p \<in> set ps \<Longrightarrow> V' p = V p) \<Longrightarrow> region_chain V' h ps"
  by (induction ps arbitrary: h) auto

lemma region_chain_insert:
  assumes "region_chain V h ps" "Suc i < length ps" "distinct ps" "e \<notin> set ps"
    "V' = V(ps ! i \<mapsto> the (V (ps ! i))\<lparr>r_next := Some e\<rparr>, e \<mapsto> r\<lparr>r_next := Some (ps ! Suc i)\<rparr>)"
  shows "region_chain V' h (take (Suc i) ps @ e # drop (Suc i) ps)"
  using assms
proof (induction ps arbitrary: h i)
  case (Cons p ps)
  show ?case
  proof (cases i)
    case 0
    from Cons.prems(2) 0 obtain q qs where ps: "ps = q # qs"
      by (cases ps) auto
    have "region_chain V' (r_next (the (V q))) qs"
      by (rule region_chain_cong [of V]) (use Cons.prems ps 0 in auto)
    with Cons.prems ps 0 show ?thesis
      by auto
  next
    case (Suc j)
    have "p \<noteq> ps ! j" "p \<noteq> e"
      using Cons.prems Suc by auto
    with Cons.IH [of "r_next (the (V p))" j] Cons.prems Suc show ?thesis
      by auto
  qed
qed simp

lemma region_chain_remove:
  assumes "region_chain V h (ps @ q # p # qs)" "distinct (ps @ q # p # qs)"
    and "V' = (V(q \<mapsto> the (V q)\<lparr>r_next := r_next (the (V p))\<rparr>))(p := None)"
  shows "region_chain V' h (ps @ q # qs)"
  using assms
proof (induction ps arbitrary: h)
  case Nil
  have "region_chain V' (r_next (the (V p))) qs"
    by (rule region_chain_cong [of V]) (use Nil in auto)
  with Nil show ?case by auto
qed auto

text \<open>The loop of the search finds the first gap, and the fuel is enough for it.\<close>

lemma region_gap_loop_eq:
  assumes "vm_regions s p = Some w" "region_chain (vm_regions s) cur ps" "length ps < fuel"
    and "n = align_up amount PAGE_SIZE"
  shows "region_gap_loop fuel amount (Some p) cur s = Inr
     (case gap_pos n (regions (vm_regions s) (p # ps)) of
        None \<Rightarrow> Inl ''could not find vmm region''
      | Some i \<Rightarrow> Inr (region_end (regions (vm_regions s) (p # ps) ! i), (p # ps) ! i, (p # ps) ! Suc i))"
  using assms
proof (induction fuel arbitrary: p w cur ps)
  case (Suc fuel)
  show ?case
  proof (cases ps)
    case Nil
    with Suc.prems show ?thesis by (simp add: regions_def)
  next
    case (Cons q qs)
    with Suc.prems obtain r where r: "cur = Some q" "vm_regions s q = Some r"
      "region_chain (vm_regions s) (r_next r) qs" "length qs < fuel"
      by auto
    have n: "align_up amount PAGE_SIZE = n"
      using Suc.prems(4) by simp
    show ?thesis
      using Suc.IH [OF r(2,3,4) Suc.prems(4)] Suc.prems(1) r(1,2) Cons
      by (auto simp: region_read_def Let_def regions_def region_of_def region_end_def n split: option.split)
  qed
qed simp

lemma region_chain_fuel: "distinct (ps :: u64 list) \<Longrightarrow> length ps < slab_fuel"
  using slab_chain_fuel [of ps] by simp

lemma calculate_region_location_eq:
  assumes "region_chain (vm_regions s) (khead pm) ps" "distinct ps"
  shows "calculate_region_location pm amount s = Inr
     (case gap_pos (align_up amount PAGE_SIZE) (regions (vm_regions s) ps) of
        None \<Rightarrow> Inl ''could not find vmm region''
      | Some i \<Rightarrow> Inr (region_end (regions (vm_regions s) ps ! i), ps ! i, ps ! Suc i))"
proof -
  obtain f where f: "slab_fuel = Suc f"
    using region_chain_fuel [OF assms(2)] by (cases slab_fuel) auto
  show ?thesis
  proof (cases ps)
    case Nil
    with assms show ?thesis unfolding calculate_region_location_def f by (simp add: regions_def)
  next
    case (Cons p qs)
    with assms obtain w where w: "khead pm = Some p" "vm_regions s p = Some w"
      "region_chain (vm_regions s) (r_next w) qs"
      by auto
    have "length qs < f"
      using region_chain_fuel [OF assms(2)] Cons f by simp
    note loop = region_gap_loop_eq [OF w(2,3) this refl, of amount]
    have "calculate_region_location pm amount s = region_gap_loop f amount (Some p) (r_next w) s"
      unfolding calculate_region_location_def f using w by (simp add: region_read_def)
    then show ?thesis
      by (simp only: loop Cons)
  qed
qed

text \<open>Regions in address order that share no address, are not empty and do not wrap around.\<close>

definition regions_ok :: "region list \<Rightarrow> bool" where
  "regions_ok rs \<longleftrightarrow> (\<forall>r\<in>set rs. 0 < fst (snd r) \<and> unat (fst r) + unat (fst (snd r)) < 2 ^ 64)
     \<and> sorted_wrt (\<lambda>r q. unat (fst r) + unat (fst (snd r)) \<le> unat (fst q)) rs"

definition region_addrs :: "region \<Rightarrow> nat set" where
  "region_addrs r = {unat (fst r)..<unat (fst r) + unat (fst (snd r))}"

lemma unat_region_end: "regions_ok rs \<Longrightarrow> r \<in> set rs \<Longrightarrow> unat (region_end r) = unat (fst r) + unat (fst (snd r))"
  by (auto simp: regions_ok_def region_end_def unat_add_no_wrap)

lemma unat_lt64: "unat (x :: u64) < 2 ^ 64"
  using unsigned_less [where ?'a = nat, of x] by simp

lemma regions_ok_insert:
  assumes ok: "regions_ok (xs @ r # q # ys)" and b: "b = region_end r" and n: "0 < n"
    and gap: "unat b + unat n + 4096 \<le> unat (fst q)"
  shows "regions_ok (xs @ r # (b, n, fl) # q # ys)" "b \<notin> fst ` set (xs @ [r])"
proof -
  have e: "unat b = unat (fst r) + unat (fst (snd r))"
    unfolding b by (rule unat_region_end [OF ok]) simp
  show "regions_ok (xs @ r # (b, n, fl) # q # ys)"
    using ok gap e unat_lt64 [of "fst q"] n by (force simp: regions_ok_def sorted_wrt_append)
  show "b \<notin> fst ` set (xs @ [r])"
  proof
    assume "b \<in> fst ` set (xs @ [r])"
    then obtain a where a: "a \<in> set (xs @ [r])" "fst a = b"
      by (elim imageE) simp
    have "a \<in> set (xs @ r # q # ys)" "r \<in> set (xs @ r # q # ys)"
      using a(1) by auto
    with ok have "0 < fst (snd a)" "0 < fst (snd r)"
      unfolding regions_ok_def by blast+
    then have "0 < unat (fst (snd a))" "0 < unat (fst (snd r))"
      by (simp_all add: unat_gt_0)
    with a ok e show False
      by (auto simp: regions_ok_def sorted_wrt_append)
  qed
qed

lemma place_region_ok:
  assumes ok: "regions_ok rs" and n: "0 < n" "unat n < 2 ^ 63" and pl: "place_region n fl rs = Some (b, rs')"
  shows "\<exists>xs r q ys. rs = xs @ r # q # ys \<and> rs' = xs @ r # (b, n, fl) # q # ys \<and> b = region_end r
     \<and> unat b + unat n + 4096 \<le> unat (fst q) \<and> regions_ok rs' \<and> b \<notin> fst ` set (xs @ [r])"
proof -
  from pl obtain i where i: "gap_pos n rs = Some i" "b = region_end (rs ! i)"
    "rs' = take (Suc i) rs @ (b, n, fl) # drop (Suc i) rs"
    by (auto simp: place_region_def Let_def split: option.splits)
  have np: "unat (n + PAGE_SIZE) = unat n + 4096"
    using n(2) by (subst unat_add_no_wrap) (simp_all add: unat_PAGE_SIZE)
  then have "n + PAGE_SIZE \<noteq> 0"
    by auto
  with gap_pos_Some [OF i(1)] have g: "Suc i < length rs" "b \<le> fst (rs ! Suc i)" "n + PAGE_SIZE \<le> fst (rs ! Suc i) - b"
    using i(2) by auto
  let ?xs = "take i rs" and ?r = "rs ! i" and ?q = "rs ! Suc i" and ?ys = "drop (Suc (Suc i)) rs"
  have rs: "rs = ?xs @ ?r # ?q # ?ys"
    using g(1) by (metis Cons_nth_drop_Suc Suc_lessD append_take_drop_id)
  have rs': "rs' = ?xs @ ?r # (b, n, fl) # ?q # ?ys"
    using g(1) i(3) by (simp add: take_Suc_conv_app_nth Cons_nth_drop_Suc)
  have "unat n + 4096 \<le> unat (fst ?q) - unat b"
    using g(2,3) np by (simp add: word_le_nat_alt unat_sub)
  then have gap: "unat b + unat n + 4096 \<le> unat (fst ?q)"
    by simp
  have "regions_ok (?xs @ ?r # ?q # ?ys)"
    using ok rs by simp
  note ins = regions_ok_insert [OF this i(2) n(1) gap]
  have "regions_ok rs'" "b \<notin> fst ` set (?xs @ [?r])"
    unfolding rs' by (rule ins)+
  with rs rs' gap i(2) show ?thesis
    by blast
qed

section \<open>The invariant\<close>

text \<open>
  The list is made of live slab objects of the 64 byte class, none of them twice.
\<close>

definition vmm_inv :: "u64 \<Rightarrow> 'z vmm_state_scheme \<Rightarrow> Pagemap \<Rightarrow> u64 list \<Rightarrow> slab_ghost \<Rightarrow> bool" where
  "vmm_inv hh s pm ps g \<longleftrightarrow>
     slab_good hh s g \<and> region_chain (vm_regions s) (khead pm) ps \<and> distinct ps
     \<and> (\<forall>p\<in>set ps. (p, 64) \<in> slab_live s g)"

lemma slab_good_regions [simp]:
  "slab_good hh (s\<lparr>vm_regions := V\<rparr>) g = slab_good hh s g" "slab_live (s\<lparr>vm_regions := V\<rparr>) g = slab_live s g"
  by (simp_all add: slab_good_def slab_live_def slab_inv_def slab_objects_def pmm_free_def split: prod.split)

lemma slab_good_vmm [simp]:
  "slab_good hh (s\<lparr>kermap := k\<rparr>) g = slab_good hh s g" "slab_live (s\<lparr>kermap := k\<rparr>) g = slab_live s g"
  "slab_good hh (s\<lparr>max_hhdm_phy := x\<rparr>) g = slab_good hh s g" "slab_live (s\<lparr>max_hhdm_phy := x\<rparr>) g = slab_live s g"
  by (simp_all add: slab_good_def slab_live_def slab_inv_def slab_objects_def pmm_free_def split: prod.split)

lemma vm_regions_more:
  "pmm_state.more (s' :: 'z vmm_state_scheme) = pmm_state.more (s :: 'z vmm_state_scheme) \<Longrightarrow>
     vm_regions s' = vm_regions s"
  by (cases s, cases s') simp

lemma VMMRegion_new_ok:
  assumes "slab_good hh s g" "0 < slab_room g"
  shows "\<exists>e s' g'. VMMRegion_new hh base len flags s = Inr (e, s')
     \<and> vm_regions s' = (vm_regions s)(e \<mapsto> \<lparr>r_next = None, r_base = base, r_length = len, r_flags = flags\<rparr>)
     \<and> slab_good hh s' g' \<and> slab_live s' g' = insert (e, 64) (slab_live s g)
     \<and> e \<notin> fst ` slab_live s g \<and> slab_room g \<le> slab_room g' + 1
     \<and> agree_on (- slab_pages (fst g) (fst (snd g))) (mem s) (mem s')
     \<and> slab_pages (fst g') (fst (snd g')) = slab_pages (fst g) (fst (snd g))
     \<and> set (fst g') \<subseteq> set (fst g) \<and> max_hhdm_phy s' = max_hhdm_phy s"
proof -
  obtain vs HS F where g: "g = (vs, HS, F)" by (cases g)
  have inv: "slab_inv hh s vs HS F" "vs \<noteq> []"
    using assms g by (auto simp: slab_good_def slab_room_def)
  have le: "VMMRegion_bytes \<le> 1024"
    by (simp add: VMMRegion_bytes_def)
  from slab_alloc_ok [OF inv(1) le inv(2)] obtain x z s' vs' HS' F' where
    r: "slab_alloc hh VMMRegion_bytes s = Inr (Inr x, s')" "slab_inv hh s' vs' HS' F'"
      "(x, z) \<notin> slab_objects s HS F" "slab_objects s' HS' F' = insert (x, z) (slab_objects s HS F)"
      "z \<in> set slab_sizes" "VMMRegion_bytes \<le> z" "\<forall>w\<in>set slab_sizes. VMMRegion_bytes \<le> w \<longrightarrow> z \<le> w"
      "agree_on (- slab_pages vs HS) (mem s) (mem s')" "slab_pages vs' HS' = slab_pages vs HS"
      "vs' = vs \<or> vs' = tl vs" "pmm_state.more s' = pmm_state.more s"
    by (elim exE conjE)
  have z: "z = 64"
    using r(5,6,7) by (auto simp: slab_sizes_def VMMRegion_bytes_def)
  let ?g = "(vs', HS', F')"
  let ?s = "region_write x \<lparr>r_next = None, r_base = base, r_length = len, r_flags = flags\<rparr> s'"
  have live: "slab_live s' ?g = insert (x, 64) (slab_live s g)" "(x, 64) \<notin> slab_live s g" "slab_good hh s' ?g"
    using r(2,3,4) z g by (simp_all add: slab_live_def slab_good_def)
  have "VMMRegion_new hh base len flags s = Inr (x, ?s)"
    using r(1) by (simp add: VMMRegion_new_def unwrap_res_def)
  moreover have "x \<notin> fst ` slab_live s g"
    by (rule slab.fresh_address [OF live(3,1,2)])
  moreover have "length vs \<le> length vs' + 1" "set vs' \<subseteq> set vs"
    using r(10) by (cases vs; auto)+
  moreover have "max_hhdm_phy s' = max_hhdm_phy s"
    using r(11) by (cases s, cases s') simp
  ultimately show ?thesis
    using live r(8,9) vm_regions_more [OF r(11)]
    by (intro exI [of _ x] exI [of _ ?s] exI [of _ ?g]) (simp add: g region_write_def slab_room_def)
qed

lemma regions_insert:
  assumes "distinct ps" "Suc i < length ps" "e \<notin> set ps"
    "V' = V(ps ! i \<mapsto> the (V (ps ! i))\<lparr>r_next := x\<rparr>, e \<mapsto> r\<lparr>r_next := y\<rparr>)"
  shows "regions V' (take (Suc i) ps @ e # drop (Suc i) ps) =
    take (Suc i) (regions V ps) @ region_of r # drop (Suc i) (regions V ps)"
proof -
  have "region_of (the (V' p)) = region_of (the (V p))" if "p \<in> set ps" for p
    using that assms(3,4) by (auto simp: region_of_def)
  then have "regions V' ps = regions V ps"
    unfolding regions_def by (rule map_cong [OF refl])
  moreover have "region_of (the (V' e)) = region_of r"
    by (simp add: assms(4) region_of_def)
  moreover have "regions V' (take (Suc i) ps @ e # drop (Suc i) ps) =
      take (Suc i) (regions V' ps) @ region_of (the (V' e)) # drop (Suc i) (regions V' ps)"
    by (simp add: regions_def take_map drop_map)
  ultimately show ?thesis
    by simp
qed

text \<open>
  Placing a region implements \<open>place_region\<close>; when it finds no gap the code
  unwraps an error.
\<close>

lemma vmm_place_region_ok:
  assumes inv: "vmm_inv hh s pm ps g" and room: "0 < slab_room g"
    and pl: "place_region (align_up amount PAGE_SIZE) flags (regions (vm_regions s) ps) = Some (b, rs')"
  shows "\<exists>info s' ps' g'. vmm_place_region hh pm amount flags s = Inr (info, s')
     \<and> r_base info = b \<and> r_length info = align_up amount PAGE_SIZE
     \<and> vmm_inv hh s' pm ps' g' \<and> regions (vm_regions s') ps' = rs' \<and> slab_room g \<le> slab_room g' + 1
     \<and> agree_on (- slab_pages (fst g) (fst (snd g))) (mem s) (mem s')
     \<and> slab_pages (fst g') (fst (snd g')) = slab_pages (fst g) (fst (snd g)) \<and> set (fst g') \<subseteq> set (fst g)"
proof -
  let ?n = "align_up amount PAGE_SIZE" and ?rs = "regions (vm_regions s) ps"
  have ch: "region_chain (vm_regions s) (khead pm) ps" "distinct ps" "slab_good hh s g"
    "\<forall>p\<in>set ps. (p, 64) \<in> slab_live s g"
    using inv by (simp_all add: vmm_inv_def)
  from pl obtain i where i: "gap_pos ?n ?rs = Some i" "b = region_end (?rs ! i)"
    "rs' = take (Suc i) ?rs @ (b, ?n, flags) # drop (Suc i) ?rs"
    by (auto simp: place_region_def Let_def split: option.splits)
  have len: "Suc i < length ps"
    using gap_pos_Some [OF i(1)] by (auto simp: regions_def)
  from VMMRegion_new_ok [OF ch(3) room, of b ?n flags] obtain e s1 g' where
    n: "VMMRegion_new hh b ?n flags s = Inr (e, s1)"
      "vm_regions s1 = (vm_regions s)(e \<mapsto> \<lparr>r_next = None, r_base = b, r_length = ?n, r_flags = flags\<rparr>)"
      "slab_good hh s1 g'" "slab_live s1 g' = insert (e, 64) (slab_live s g)"
      "e \<notin> fst ` slab_live s g" "slab_room g \<le> slab_room g' + 1"
      "agree_on (- slab_pages (fst g) (fst (snd g))) (mem s) (mem s1)"
      "slab_pages (fst g') (fst (snd g')) = slab_pages (fst g) (fst (snd g))" "set (fst g') \<subseteq> set (fst g)"
    by (elim exE conjE)
  have e: "e \<notin> set ps"
    using n(5) ch(4) by force
  obtain w where w: "vm_regions s (ps ! i) = Some w"
    using region_chain_mem [OF ch(1), of "ps ! i"] len by auto
  have ne: "ps ! i \<noteq> e"
    using e len by auto
  let ?r = "\<lparr>r_next = None, r_base = b, r_length = ?n, r_flags = flags\<rparr>"
  let ?V = "(vm_regions s)(ps ! i \<mapsto> the (vm_regions s (ps ! i))\<lparr>r_next := Some e\<rparr>,
      e \<mapsto> ?r\<lparr>r_next := Some (ps ! Suc i)\<rparr>)"
  let ?s = "s1\<lparr>vm_regions := ?V\<rparr>" and ?ps = "take (Suc i) ps @ e # drop (Suc i) ps"
  have V: "(vm_regions s)(e \<mapsto> ?r, ps ! i \<mapsto> w\<lparr>r_next := Some e\<rparr>, e \<mapsto> ?r\<lparr>r_next := Some (ps ! Suc i)\<rparr>) = ?V"
    using ne w by (auto simp: fun_eq_iff)
  have run: "vmm_place_region hh pm amount flags s = Inr (?r\<lparr>r_next := Some (ps ! Suc i)\<rparr>, ?s)"
    using V ne w by (simp add: vmm_place_region_def calculate_region_location_eq [OF ch(1,2)] i(1)
        unwrap_res_def i(2) [symmetric] n(1,2) region_read_def region_write_def Let_def)
  have "set ?ps = insert e (set ps)"
    by (metis append_take_drop_id list.set(2) set_append Un_insert_right)
  moreover have "distinct ?ps"
    using ch(2) e by (auto simp: set_take_disj_set_drop_if_distinct dest: in_set_takeD in_set_dropD)
  moreover have "region_chain ?V (khead pm) ?ps"
    by (rule region_chain_insert [OF ch(1) len ch(2) e]) (rule refl)
  ultimately have "vmm_inv hh ?s pm ?ps g'"
    using n(3,4) ch(4) by (simp add: vmm_inv_def)
  moreover have "regions ?V ?ps = rs'"
    using regions_insert [OF ch(2) len e, of ?V "vm_regions s" "Some e" "Some (ps ! Suc i)" ?r, OF refl] i(3)
    by (simp add: region_of_def)
  ultimately show ?thesis
    using run n(6-9) by (intro exI [of _ "?r\<lparr>r_next := Some (ps ! Suc i)\<rparr>"] exI [of _ ?s] exI [of _ ?ps]
        exI [of _ g']) simp
qed

lemma vmm_place_region_full:
  assumes "vmm_inv hh s pm ps g"
    and "place_region (align_up amount PAGE_SIZE) flags (regions (vm_regions s) ps) = None"
  shows "vmm_place_region hh pm amount flags s = Inl UnwrapErr"
  using assms by (auto simp: vmm_place_region_def vmm_inv_def calculate_region_location_eq unwrap_res_def
      place_region_def Let_def split: option.splits)

section \<open>The page table operations of a target\<close>

text \<open>
  What the memory manager relies on: mapping a range takes a fresh frame for every
  page, unmapping gives the frames back, and neither touches anything but the
  tables, the frames and the free list.
\<close>

locale region_arch =
  fixes hh :: u64 and n :: nat and A :: "'z vmm_state_scheme arch_ops"
    and tab :: "u64 \<Rightarrow> (nat list \<Rightarrow> u64 option) \<Rightarrow> memory \<Rightarrow> bool"
    and mmu :: "u64 \<Rightarrow> u64 \<Rightarrow> memory \<Rightarrow> u64 option"
    and pte :: "u64 \<Rightarrow> u8 \<Rightarrow> u64"
  assumes levels: "4096 * 512 ^ n \<le> (2 :: nat) ^ 64"
    and map_region_alloc: "tab root t (mem s) \<Longrightarrow> pmm_phys hh s vs \<Longrightarrow> ran t \<inter> set vs = {} \<Longrightarrow>
      xs = range_step base (base + len) 4096 \<Longrightarrow> distinct (map (vpn n) xs) \<Longrightarrow>
      length xs + card (missing_list n t xs) \<le> length vs \<Longrightarrow>
      \<exists>t' s' fs us vs'. arch_map_region_alloc A (root - hh) base len flags s = Inr s'
        \<and> length fs = length xs \<and> distinct (fs @ us @ vs') \<and> set (fs @ us @ vs') = set vs
        \<and> pmm_phys hh s' vs' \<and> tab root t' (mem s') \<and> ran t' = ran t \<union> set us
        \<and> agree_on (- (ran t' \<union> set fs)) (mem s) (mem s')
        \<and> (\<forall>k<length xs. mmu root (xs ! k) (mem s') = Some (pte (fs ! k - hh) flags))
        \<and> (\<forall>vb. vpn n vb \<notin> vpn n ` set xs \<longrightarrow> mmu root vb (mem s') = mmu root vb (mem s))
        \<and> length us = card (missing_list n t xs) \<and> pmm_state.more s' = pmm_state.more s"
    and unmap_region: "tab root t (mem s) \<Longrightarrow> pmm_phys hh s vs \<Longrightarrow> ran t \<inter> set vs = {} \<Longrightarrow>
      xs = range_step base (base + len) 4096 \<Longrightarrow> distinct (map (vpn n) xs) \<Longrightarrow> length fs = length xs \<Longrightarrow>
      \<forall>k<length xs. mmu root (xs ! k) (mem s) = Some (pte (fs ! k - hh) flags) \<Longrightarrow> distinct fs \<Longrightarrow>
      \<forall>p\<in>set fs. phys_frame hh p \<Longrightarrow> set fs \<inter> (set vs \<union> ran t) = {} \<Longrightarrow>
      \<exists>s'. arch_unmap_region A (root - hh) base len s = Inr s' \<and> pmm_phys hh s' (rev fs @ vs)
        \<and> tab root t (mem s') \<and> agree_on (- (ran t \<union> set fs)) (mem s) (mem s')
        \<and> (\<forall>vb. mmu root vb (mem s') = (if vpn n vb \<in> vpn n ` set xs then None else mmu root vb (mem s)))
        \<and> pmm_state.more s' = pmm_state.more s"
    and tab_frame: "tab root t m \<Longrightarrow> agree_on (ran t) m m' \<Longrightarrow> tab root t m'"
    and mmu_frame: "tab root t m \<Longrightarrow> agree_on (ran t) m m' \<Longrightarrow> mmu root va m' = mmu root va m"

lemma for_each_keeps:
  "(\<And>x s s'. f x s = Inr s' \<Longrightarrow> P s' = P s) \<Longrightarrow> for_each f xs s = Inr s' \<Longrightarrow> P s' = P s"
  by (induction xs arbitrary: s) (force simp: and_then_def split: sum.splits)+

lemma x86_get_table_from_keeps:
  "x86_get_table_from hh al j T va s = Inr (r, s') \<Longrightarrow> pmm_state.more s' = pmm_state.more s"
proof (induction j arbitrary: T s)
  case (Suc j)
  then show ?case
    by (auto simp: x86_get_table_from.simps Let_def and_then_def split: option.splits if_splits sum.splits
        prod.splits dest!: allocate_page_more)
qed (simp add: x86_get_table_from.simps)

lemma rv_get_table_from_keeps:
  "rv_get_table_from hh tg al j T va s = Inr (r, s') \<Longrightarrow> pmm_state.more s' = pmm_state.more s"
proof (induction j arbitrary: T s)
  case (Suc j)
  then show ?case
    by (auto simp: Let_def and_then_def split: option.splits if_splits sum.splits prod.splits
        dest!: allocate_page_more)
qed simp

lemmas page_op_defs = x86_get_table_def x86_map4kib_unwrap_def x86_map4kib_def x86_map_entry_def x86_unmap_def
  rv_get_table_def rv_map4kib_unwrap_def rv_map4kib_def rv_map_entry_def rv_unmap4kib_def Let_def and_then_def

lemmas page_op_keeps = x86_get_table_from_keeps rv_get_table_from_keeps allocate_page_more deallocate_page_more

lemma x86_op_keeps:
  "x86_map4kib_unwrap hh root va pa fl s = Inr s' \<Longrightarrow> pmm_state.more s' = pmm_state.more s"
  "x86_unmap hh root va s = Inr s' \<Longrightarrow> pmm_state.more s' = pmm_state.more s"
  by (auto simp: page_op_defs unwrap_res_def split: if_splits sum.splits prod.splits dest!: page_op_keeps)

lemma rv_op_keeps:
  "rv_map4kib_unwrap hh lv root va pa fl s = Inr s' \<Longrightarrow> pmm_state.more s' = pmm_state.more s"
  "rv_unmap4kib hh lv root va s = Inr s' \<Longrightarrow> pmm_state.more s' = pmm_state.more s"
  by (auto simp: page_op_defs unwrap_res_def split: if_splits sum.splits prod.splits dest!: page_op_keeps)

lemma region_op_keeps:
  "x86_arch_map_region_alloc hh root base len flags s = Inr s' \<Longrightarrow> pmm_state.more s' = pmm_state.more s"
  "x86_arch_unmap_region hh root base len s = Inr s' \<Longrightarrow> pmm_state.more s' = pmm_state.more s"
  "rv_arch_map_region_alloc hh lv root base len flags s = Inr s' \<Longrightarrow> pmm_state.more s' = pmm_state.more s"
  "rv_arch_unmap_region hh lv root base len s = Inr s' \<Longrightarrow> pmm_state.more s' = pmm_state.more s"
  unfolding x86_arch_map_region_alloc_def x86_arch_unmap_region_def rv_arch_map_region_alloc_def
    rv_arch_unmap_region_def
  by (erule for_each_keeps [rotated],
      auto simp: and_then_def split: sum.splits prod.splits dest!: x86_op_keeps rv_op_keeps allocate_page_more)+

text \<open>
  Both targets get there the same way: the region operations are loops over a
  page mapper, and an entry built from the flags of the region is present and
  points to its frame.
\<close>

locale region_mapper = page_mapper "allocate_page hh" "deallocate_page hh" mem set_mem "pmm_phys hh"
    "phys_frame hh" n mk get out msg pres leaf nxt mapv unmapv frame
  for hh :: u64 and n mk get out msg pres leaf nxt
    and mapv :: "u64 \<Rightarrow> u64 \<Rightarrow> u64 \<Rightarrow> 'z vmm_state_scheme \<Rightarrow> panic + ((string + unit) \<times> 'z vmm_state_scheme)"
    and unmapv frame +
  fixes A :: "'z vmm_state_scheme arch_ops" and pte :: "u64 \<Rightarrow> u8 \<Rightarrow> u64"
  assumes level_bound: "4096 * 512 ^ n \<le> (2 :: nat) ^ 64"
    and map_eq: "arch_map_region_alloc A (root - hh) base len flags s =
      for_each (\<lambda>i s. and_then (allocate_page hh s) (\<lambda>(p, s1). and_then (mapv root i (pte (p - hh) flags) s1)
        (\<lambda>(r, s2). and_then (unwrap_res r) (\<lambda>_. Inr s2)))) (range_step base (base + len) 4096) s"
    and unmap_eq: "arch_unmap_region A (root - hh) base len s =
      for_each (unmapv root) (range_step base (base + len) 4096) s"
    and map_keeps: "arch_map_region_alloc A (root - hh) base len flags s = Inr s' \<Longrightarrow>
      pmm_state.more s' = pmm_state.more s"
    and unmap_keeps: "arch_unmap_region A (root - hh) base len s = Inr s' \<Longrightarrow>
      pmm_state.more s' = pmm_state.more s"
    and pres_pte: "pres (pte (p - hh) flags)"
    and frame_pte: "phys_frame hh p \<Longrightarrow> frame (pte (p - hh) flags) = p"

sublocale region_mapper \<subseteq> region_arch hh n A "tables_ok mk (phys_frame hh) n" "radix_walk pres leaf nxt n" pte
proof (unfold_locales, goal_cases)
  case 1
  show ?case by (rule level_bound)
next
  case (2 root t s vs xs base len flags)
  from map_alloc_list [OF 2(1-3,6,5), where val = "\<lambda>p. pte (p - hh) flags", OF pres_pte]
  obtain t' s' fs us vs' where r: "arch_map_region_alloc A (root - hh) base len flags s = Inr s'"
    "length fs = length xs" "distinct (fs @ us @ vs')" "set (fs @ us @ vs') = set vs" "pmm_phys hh s' vs'"
    "tables root t' (mem s')" "ran t' = ran t \<union> set us" "agree_on (- (ran t' \<union> set fs)) (mem s) (mem s')"
    "\<forall>k<length xs. walk root (xs ! k) (mem s') = Some (pte (fs ! k - hh) flags)"
    "\<forall>vb. vpn n vb \<notin> vpn n ` set xs \<longrightarrow> walk root vb (mem s') = walk root vb (mem s)" "length us = card (missing_list n t xs)"
    unfolding map_eq 2(4) by (elim exE conjE)
  from r map_keeps [OF r(1)] have "arch_map_region_alloc A (root - hh) base len flags s = Inr s'
    \<and> length fs = length xs \<and> distinct (fs @ us @ vs') \<and> set (fs @ us @ vs') = set vs \<and> pmm_phys hh s' vs'
    \<and> tables root t' (mem s') \<and> ran t' = ran t \<union> set us \<and> agree_on (- (ran t' \<union> set fs)) (mem s) (mem s')
    \<and> (\<forall>k<length xs. walk root (xs ! k) (mem s') = Some (pte (fs ! k - hh) flags))
    \<and> (\<forall>vb. vpn n vb \<notin> vpn n ` set xs \<longrightarrow> walk root vb (mem s') = walk root vb (mem s))
    \<and> length us = card (missing_list n t xs) \<and> pmm_state.more s' = pmm_state.more s"
    by blast
  then show ?case
    by (intro exI)
next
  case (3 root t s vs xs base len fs flags)
  let ?es = "map (\<lambda>p. pte (p - hh) flags) fs"
  have fr: "map frame ?es = fs"
    using 3(9) by (simp add: frame_pte map_idI)
  have w: "\<forall>k<length xs. walk root (xs ! k) (mem s) = Some (?es ! k)" "length ?es = length xs"
    using 3(6,7) by simp_all
  have "\<forall>e\<in>set ?es. phys_frame hh (frame e) \<and> frame e \<notin> set vs \<and> frame e \<notin> ran t" "distinct (map frame ?es)"
    using 3(8,9,10) fr by (auto simp: frame_pte)
  from unmap_list [OF 3(1-3) w(2) 3(5) w(1) this(2,1)] obtain s' where
    r: "arch_unmap_region A (root - hh) base len s = Inr s'" "pmm_phys hh s' (rev fs @ vs)"
    "tables root t (mem s')" "agree_on (- (ran t \<union> frame ` set ?es)) (mem s) (mem s')"
    "\<forall>vb. walk root vb (mem s') = (if vpn n vb \<in> vpn n ` set xs then None else walk root vb (mem s))"
    unfolding unmap_eq 3(4) fr by (elim exE conjE)
  have "frame ` set ?es = set fs"
    using fr by (metis list.set_map)
  with r unmap_keeps [OF r(1)] show ?case
    by (intro exI [of _ s']) simp
next
  case (4 root t m m')
  then show ?case by (rule tables_frame)
next
  case (5 root t m m' va)
  then show ?case by (rule walk_frame)
qed

interpretation x86_region: region_mapper hh 4 "x86_mk hh" "x86_get_table_from hh" "\<lambda>c. c - hh" "''bru''"
  x86_present x86_large "x86_next hh" "\<lambda>T. x86_map_entry hh (T - hh)" "\<lambda>T. x86_unmap hh (T - hh)"
  "x86_next hh" "x86_arch hh" "\<lambda>p f. x86_pte p (x86_from_vmmflags f)" for hh :: u64
proof (unfold_locales, goal_cases)
  case (2 root base len flags s)
  show ?case
    by (simp add: x86_arch_def x86_arch_map_region_alloc_def x86_map4kib_unwrap_def x86_map4kib_entry)
next
  case (4 root base len flags s s')
  then show ?case using region_op_keeps(1) by (simp add: x86_arch_def)
next
  case (5 root base len s s')
  then show ?case using region_op_keeps(2) by (simp add: x86_arch_def)
qed (simp_all add: x86_arch_def x86_arch_unmap_region_def x86_from_vmmflags_present x86_next_pte)

lemma rv_from_vmmflags_valid: "bit (rv_from_vmmflags f) 0"
  by (simp add: rv_from_vmmflags_def Let_def RV_defs bit_or_iff bit_flag_8)

text \<open>The index of the topmost of the levels a paging mode has.\<close>

definition rv_top :: "paging_mode \<Rightarrow> nat" where
  "rv_top mode = rv_sv_levels mode 3 - 1"

lemma rv_levels_Suc: "rv_sv_levels mode 3 = Suc (rv_top mode)" "4096 * 512 ^ Suc (rv_top mode) \<le> (2 :: nat) ^ 64"
  by (cases mode; simp add: rv_sv_levels_def rv_top_def)+

interpretation rv_region: region_mapper hh "Suc (rv_top mode)" "rv_mk hh" "rv_get_table_from hh 0" "\<lambda>c. c" "''gg broski''"
  rv_present rv_leaf "rv_next hh" "\<lambda>T. rv_map_entry hh (Suc (rv_top mode)) (T - hh)" "\<lambda>T. rv_unmap4kib hh (Suc (rv_top mode)) (T - hh)"
  "rv_next hh" "rv_arch hh (Suc (rv_top mode))" "\<lambda>p f. rv_pte p (rv_from_vmmflags f)" for hh :: u64 and mode :: paging_mode
proof (unfold_locales, goal_cases)
  case 1
  show ?case by (rule rv_levels_Suc)
next
  case (2 root base len flags s)
  show ?case
    by (simp add: rv_arch_def rv_arch_map_region_alloc_def rv_map4kib_unwrap_def rv_map4kib_def)
next
  case (4 root base len flags s s')
  then show ?case using region_op_keeps(3) by (simp add: rv_arch_def)
next
  case (5 root base len s s')
  then show ?case using region_op_keeps(4) by (simp add: rv_arch_def)
qed (simp_all add: rv_arch_def rv_arch_unmap_region_def rv_from_vmmflags_valid rv_next_def rv_extract_pte
    phys_frame_def)

section \<open>Allocation over both layers\<close>

text \<open>
  Everything the kernel map stands on: the region list with its slab objects, and
  the tables, which share no page with the slabs or the free list.
\<close>

definition kmap_inv ::
    "(u64 \<Rightarrow> (nat list \<Rightarrow> u64 option) \<Rightarrow> memory \<Rightarrow> bool) \<Rightarrow> u64 \<Rightarrow> 'z vmm_state_scheme \<Rightarrow> Pagemap \<Rightarrow> u64 list
      \<Rightarrow> slab_ghost \<Rightarrow> (nat list \<Rightarrow> u64 option) \<Rightarrow> bool" where
  "kmap_inv tab hh s pm ps g t \<longleftrightarrow>
     vmm_inv hh s pm ps g \<and> tab (arch_page pm + hh) t (mem s)
     \<and> ran t \<inter> slab_pages (fst g) (fst (snd g)) = {} \<and> (\<forall>v\<in>set (fst g). phys_frame hh v)"

lemma slab_inv_frame:
  assumes inv: "slab_inv hh s vs HS F" and free: "pmm_free hh s' vs'" "set vs' \<inter> set (concat HS) = {}"
    and more: "pmm_state.more s' = pmm_state.more s" and ag: "agree_on (set (concat HS)) (mem s) (mem s')"
  shows "slab_inv hh s' vs' HS F" "slab_objects s' HS F = slab_objects s HS F"
proof -
  have c: "slab_caches s' = slab_caches s"
    by (rule slab_caches_more [OF more])
  show "slab_objects s' HS F = slab_objects s HS F"
    by (simp add: slab_objects_def c)
  have len: "length HS = 7"
    using inv by (simp add: slab_inv_def)
  have sub: "set (HS ! i) \<subseteq> set (concat HS)" if "i < 7" for i
    using that len by (force simp: in_set_conv_nth)
  have "cache_ok (mem s') (slab_caches s ! i) (HS ! i) F" if "i < 7" for i
  proof (rule cache_ok_agree)
    show "cache_ok (mem s) (slab_caches s ! i) (HS ! i) F"
      using inv that by (simp add: slab_inv_def)
    show "agree_on (set (HS ! i)) (mem s) (mem s')"
      using ag sub [OF that] unfolding agree_on_def by blast
  qed (rule refl)
  moreover have "set (HS ! i) \<inter> set vs' = {}" if "i < 7" for i
    using sub [OF that] free(2) by auto
  ultimately show "slab_inv hh s' vs' HS F"
    using inv free(1) c by (simp add: slab_inv_def)
qed

lemma slab_good_frame:
  assumes "slab_good hh s (vs, HS, F)" "pmm_free hh s' vs'" "set vs' \<inter> set (concat HS) = {}"
    and "pmm_state.more s' = pmm_state.more s" "agree_on (set (concat HS)) (mem s) (mem s')"
  shows "slab_good hh s' (vs', HS, F)" "slab_live s' (vs', HS, F) = slab_live s (vs, HS, F)"
  using slab_inv_frame [of hh s vs HS F s' vs'] assms by (simp_all add: slab_good_def slab_live_def)

lemma slab_good_disjoint: "slab_good hh s (vs, HS, F) \<Longrightarrow> set vs \<inter> set (concat HS) = {}"
  by (auto simp: slab_good_def slab_inv_def in_set_conv_nth) (metis IntI empty_iff nth_mem)+

lemma slab_good_free: "slab_good hh s (vs, HS, F) \<Longrightarrow> pmm_free hh s vs"
  by (simp add: slab_good_def slab_inv_def)

lemma vmm_dealloc_loop_find:
  "region_chain (vm_regions s) cur (ps @ p # qs) \<Longrightarrow> \<forall>q\<in>set ps. r_base (the (vm_regions s q)) \<noteq> b \<Longrightarrow>
   vmm_dealloc_loop (length ps + fuel) A b prev cur pm s =
     vmm_dealloc_loop fuel A b (if ps = [] then prev else Some (last ps)) (Some p) pm s"
proof (induction ps arbitrary: cur prev)
  case (Cons q ps)
  from Cons.prems obtain r where "cur = Some q" "vm_regions s q = Some r" "r_base r \<noteq> b"
    "region_chain (vm_regions s) (r_next r) (ps @ p # qs)"
    by auto
  with Cons.IH [of "r_next r" cur] Cons.prems(2) show ?case
    by (simp add: region_read_def)
qed simp

text \<open>What the invariant reads of the state.\<close>

definition vmm_core :: "'z vmm_state_scheme \<Rightarrow> memory \<times> u64 option \<times> slabcache list \<times> (u64 \<Rightarrow> VMMRegion option)" where
  "vmm_core s = (mem s, FREELIST s, slab_caches s, vm_regions s)"

lemma kmap_inv_core: "vmm_core s' = vmm_core s \<Longrightarrow> kmap_inv tab hh s pm ps g t \<Longrightarrow> kmap_inv tab hh s' pm ps g t"
  by (simp add: vmm_core_def kmap_inv_def vmm_inv_def slab_good_def slab_live_def slab_inv_def slab_objects_def
      pmm_free_def split: prod.splits)

lemma slab_dealloc_more: "slab_dealloc x s = s\<lparr>mem := mem (slab_dealloc x s)\<rparr>"
  by (simp add: slab_dealloc_def Let_def)

context region_arch
begin

text \<open>A successful \<^verbatim>\<open>vmm_alloc\<close>: the region is on the list and every page of it is mapped.\<close>

lemma vmm_alloc_ok:
  assumes inv: "kmap_inv tab hh s pm ps g t" and user: "\<not> contains flags VMM_USER"
    and pl: "place_region (align_up amount PAGE_SIZE) flags (regions (vm_regions s) ps) = Some (b, rs')"
    and xs: "xs = range_step b (b + align_up amount PAGE_SIZE) 4096"
    and b: "page_aligned b" "high_half n b" "unat b + unat (align_up amount PAGE_SIZE) < 2 ^ 64"
    and room: "length xs + card (missing_list n t xs) < slab_room g"
  shows "\<exists>s' ps' g' t' fs. vmm_alloc hh A pm amount flags s = Inr (b, s')
     \<and> kmap_inv tab hh s' pm ps' g' t' \<and> regions (vm_regions s') ps' = rs'
     \<and> length fs = length xs \<and> distinct fs \<and> set fs \<subseteq> set (fst g)
     \<and> set fs \<inter> (ran t' \<union> slab_pages (fst g') (fst (snd g'))) = {}
     \<and> (\<forall>k<length xs. mmu (arch_page pm + hh) (xs ! k) (mem s') = Some (pte (fs ! k - hh) flags))
     \<and> (\<forall>va. vpn n va \<notin> vpn n ` set xs \<longrightarrow>
          mmu (arch_page pm + hh) va (mem s') = mmu (arch_page pm + hh) va (mem s))
     \<and> slab_room g \<le> slab_room g' + length xs + card (missing_list n t xs) + 1"
proof -
  let ?root = "arch_page pm + hh"
  have k: "vmm_inv hh s pm ps g" "tab ?root t (mem s)" "ran t \<inter> slab_pages (fst g) (fst (snd g)) = {}"
    "\<forall>v\<in>set (fst g). phys_frame hh v"
    using inv by (simp_all add: kmap_inv_def)
  have "0 < slab_room g"
    using room by simp
  from vmm_place_region_ok [OF k(1) this pl] obtain info s1 ps' g1 where
    1: "vmm_place_region hh pm amount flags s = Inr (info, s1)" "r_base info = b"
      "r_length info = align_up amount PAGE_SIZE" "vmm_inv hh s1 pm ps' g1" "regions (vm_regions s1) ps' = rs'"
      "slab_room g \<le> slab_room g1 + 1" "agree_on (- slab_pages (fst g) (fst (snd g))) (mem s) (mem s1)"
      "slab_pages (fst g1) (fst (snd g1)) = slab_pages (fst g) (fst (snd g))" "set (fst g1) \<subseteq> set (fst g)"
    by (elim exE conjE)
  obtain vs HS F where g1: "g1 = (vs, HS, F)" by (cases g1)
  have good: "slab_good hh s1 (vs, HS, F)"
    using 1(4) g1 by (simp add: vmm_inv_def)
  have pages: "slab_pages vs HS = slab_pages (fst g) (fst (snd g))" "set vs \<subseteq> set (fst g)"
    using 1(8,9) g1 by simp_all
  have ag1: "agree_on (ran t) (mem s) (mem s1)"
    using 1(7) k(3) unfolding agree_on_def by blast
  have tab1: "tab ?root t (mem s1)"
    by (rule tab_frame [OF k(2) ag1])
  have free1: "pmm_phys hh s1 vs"
    using slab_good_free [OF good] pages(2) k(4) by (auto simp: pmm_phys_def)
  have dis1: "ran t \<inter> set vs = {}"
    using k(3) pages(1) by (auto simp: slab_pages_def)
  have room1: "length xs + card (missing_list n t xs) \<le> length vs"
    using room 1(6) g1 by (simp add: slab_room_def)
  have dist: "distinct (map (vpn n) xs)"
    unfolding xs by (rule vpn_range_distinct(1) [OF levels b])
  have root: "?root - hh = arch_page pm"
    by simp
  from map_region_alloc [OF tab1 free1 dis1 xs dist room1, of flags, unfolded root] obtain t' s' fs us vs' where
    2: "arch_map_region_alloc A (arch_page pm) b (align_up amount PAGE_SIZE) flags s1 = Inr s'"
      "length fs = length xs" "distinct (fs @ us @ vs')" "set (fs @ us @ vs') = set vs" "pmm_phys hh s' vs'"
      "tab ?root t' (mem s')" "ran t' = ran t \<union> set us" "agree_on (- (ran t' \<union> set fs)) (mem s1) (mem s')"
      "\<forall>k<length xs. mmu ?root (xs ! k) (mem s') = Some (pte (fs ! k - hh) flags)"
      "\<forall>vb. vpn n vb \<notin> vpn n ` set xs \<longrightarrow> mmu ?root vb (mem s') = mmu ?root vb (mem s1)"
      "pmm_state.more s' = pmm_state.more s1" "length us = card (missing_list n t xs)"
    by (elim exE conjE)
  have "ran t \<inter> slab_pages vs HS = {}"
    using k(3) pages(1) by simp
  then have hs: "set (concat HS) \<inter> set vs = {}" "set (concat HS) \<inter> ran t = {}"
    using slab_good_disjoint [OF good] by (auto simp: slab_pages_def)
  have sub: "set fs \<subseteq> set vs" "set us \<subseteq> set vs" "set vs' \<subseteq> set vs"
    using 2(4) by auto
  have "agree_on (set (concat HS)) (mem s1) (mem s')"
    using 2(7,8) hs sub unfolding agree_on_def by blast
  moreover have "set vs' \<inter> set (concat HS) = {}"
    using hs(1) sub(3) by blast
  ultimately have g': "slab_good hh s' (vs', HS, F)" "slab_live s' (vs', HS, F) = slab_live s1 g1"
    using slab_good_frame [OF good _ _ 2(11), of vs'] 2(5) g1 by (simp_all add: pmm_phys_def)
  have V: "vm_regions s' = vm_regions s1"
    by (rule vm_regions_more [OF 2(11)])
  have "vmm_inv hh s' pm ps' (vs', HS, F)"
    using 1(4) g' by (simp add: vmm_inv_def V)
  moreover have "ran t' \<inter> slab_pages vs' HS = {}"
    using 2(3,7) dis1 hs sub by (auto simp: slab_pages_def)
  moreover have "\<forall>v\<in>set vs'. phys_frame hh v"
    using 2(5) by (simp add: pmm_phys_def)
  ultimately have "kmap_inv tab hh s' pm ps' (vs', HS, F) t'"
    using 2(6) by (simp add: kmap_inv_def)
  moreover have "vmm_alloc hh A pm amount flags s = Inr (b, s')"
    using user 1(1-3) 2(1) by (simp add: vmm_alloc_def)
  moreover have "set fs \<inter> (ran t' \<union> slab_pages vs' HS) = {}"
    using 2(3,7) dis1 hs sub by (auto simp: slab_pages_def)
  moreover have "mmu ?root va (mem s') = mmu ?root va (mem s)" if "vpn n va \<notin> vpn n ` set xs" for va
    using 2(10) that mmu_frame [OF k(2) ag1] by simp
  moreover have "set fs \<subseteq> set (fst g)"
    using sub(1) pages(2) by blast
  moreover have "slab_room g \<le> slab_room (vs', HS, F) + length xs + card (missing_list n t xs) + 1"
  proof -
    have "distinct vs"
      using free1 by (simp add: pmm_phys_def pmm_free_def)
    then have "length vs = length (fs @ us @ vs')"
      using 2(3,4) by (metis distinct_card)
    then show ?thesis
      using 1(6) 2(2,12) g1 by (simp add: slab_room_def)
  qed
  ultimately have "vmm_alloc hh A pm amount flags s = Inr (b, s')
     \<and> kmap_inv tab hh s' pm ps' (vs', HS, F) t' \<and> regions (vm_regions s') ps' = rs'
     \<and> length fs = length xs \<and> distinct fs \<and> set fs \<subseteq> set (fst g)
     \<and> set fs \<inter> (ran t' \<union> slab_pages (fst (vs', HS, F)) (fst (snd (vs', HS, F)))) = {}
     \<and> (\<forall>k<length xs. mmu ?root (xs ! k) (mem s') = Some (pte (fs ! k - hh) flags))
     \<and> (\<forall>va. vpn n va \<notin> vpn n ` set xs \<longrightarrow> mmu ?root va (mem s') = mmu ?root va (mem s))
     \<and> slab_room g \<le> slab_room (vs', HS, F) + length xs + card (missing_list n t xs) + 1"
    using 1(5) 2(2,3,9) V by auto
  then show ?thesis
    by (intro exI)
qed

text \<open>
  \<^verbatim>\<open>vmm_dealloc\<close> of a region that is not the first of the list, whose pages are mapped
  to frames nobody else holds.
\<close>

lemma vmm_dealloc_ok:
  assumes inv: "kmap_inv tab hh s pm ps g t" and ps: "regions (vm_regions s) ps = rs1 @ (b, len, fl) # rs2"
    and rs1: "rs1 \<noteq> []" "b \<notin> fst ` set rs1" "b \<noteq> 0"
    and xs: "xs = range_step b (b + len) 4096"
    and b: "page_aligned b" "high_half n b" "unat b + unat len < 2 ^ 64"
    and m: "\<forall>k<length xs. mmu (arch_page pm + hh) (xs ! k) (mem s) = Some (pte (fs ! k - hh) flags)"
    and fs: "length fs = length xs" "distinct fs" "\<forall>p\<in>set fs. phys_frame hh p"
      "set fs \<inter> (ran t \<union> slab_pages (fst g) (fst (snd g))) = {}"
  shows "\<exists>s' ps' g'. vmm_dealloc A pm b False s = Inr (pm, s')
     \<and> kmap_inv tab hh s' pm ps' g' t \<and> regions (vm_regions s') ps' = rs1 @ rs2
     \<and> set (fst g') = set fs \<union> set (fst g) \<and> fst (snd g') = fst (snd g)
     \<and> (\<forall>va. mmu (arch_page pm + hh) va (mem s') =
          (if vpn n va \<in> vpn n ` set xs then None else mmu (arch_page pm + hh) va (mem s)))"
proof -
  let ?root = "arch_page pm + hh" and ?V = "vm_regions s"
  obtain vs HS F where g: "g = (vs, HS, F)" by (cases g)
  have k: "vmm_inv hh s pm ps g" "tab ?root t (mem s)" "ran t \<inter> slab_pages vs HS = {}" "\<forall>v\<in>set vs. phys_frame hh v"
    using inv g by (simp_all add: kmap_inv_def)
  have ch: "region_chain ?V (khead pm) ps" "distinct ps" "slab_good hh s (vs, HS, F)" "\<forall>p\<in>set ps. (p, 64) \<in> slab_live s g"
    using k(1) g by (simp_all add: vmm_inv_def)
  from ps obtain qs1 p ps2 where split: "ps = qs1 @ p # ps2" "regions ?V qs1 = rs1" "regions ?V ps2 = rs2"
    "region_of (the (?V p)) = (b, len, fl)"
    unfolding regions_def by (auto simp: map_eq_append_conv)
  with rs1(1) obtain ps1 q where q: "qs1 = ps1 @ [q]"
    by (cases qs1 rule: rev_cases) (auto simp: regions_def)
  have psq: "ps = ps1 @ q # p # ps2"
    using split(1) q by simp
  obtain r w where r: "?V p = Some r" "r_base r = b" "r_length r = len" "?V q = Some w"
    using split(4) region_chain_mem [OF ch(1), of p] region_chain_mem [OF ch(1), of q] psq
    by (auto simp: region_of_def)
  have free: "pmm_phys hh s vs" "ran t \<inter> set vs = {}"
    using slab_good_free [OF ch(3)] k(3,4) by (auto simp: pmm_phys_def slab_pages_def)
  have fdis: "set fs \<inter> (set vs \<union> ran t) = {}" "set fs \<inter> set (concat HS) = {}"
    using fs(4) g by (auto simp: slab_pages_def)
  have dist: "distinct (map (vpn n) xs)"
    unfolding xs by (rule vpn_range_distinct(1) [OF levels b])
  have root: "?root - hh = arch_page pm"
    by simp
  from unmap_region [OF k(2) free xs dist fs(1) m fs(2,3) fdis(1), unfolded root] obtain s1 where
    1: "arch_unmap_region A (arch_page pm) b len s = Inr s1" "pmm_phys hh s1 (rev fs @ vs)" "tab ?root t (mem s1)"
      "agree_on (- (ran t \<union> set fs)) (mem s) (mem s1)"
      "\<forall>vb. mmu ?root vb (mem s1) = (if vpn n vb \<in> vpn n ` set xs then None else mmu ?root vb (mem s))"
      "pmm_state.more s1 = pmm_state.more s"
    by (elim exE conjE)
  have V1: "vm_regions s1 = ?V"
    by (rule vm_regions_more [OF 1(6)])
  have hs: "set (concat HS) \<inter> set vs = {}" "set (concat HS) \<inter> ran t = {}"
    using slab_good_disjoint [OF ch(3)] k(3) by (auto simp: slab_pages_def)
  have "agree_on (set (concat HS)) (mem s) (mem s1)"
    using 1(4) hs(2) fdis(2) unfolding agree_on_def by blast
  moreover have "set (rev fs @ vs) \<inter> set (concat HS) = {}"
    using hs(1) fdis(2) by auto
  ultimately have g1: "slab_good hh s1 (rev fs @ vs, HS, F)" "slab_live s1 (rev fs @ vs, HS, F) = slab_live s g"
    using slab_good_frame [OF ch(3) _ _ 1(6), of "rev fs @ vs"] 1(2) g by (simp_all add: pmm_phys_def)
  let ?V2 = "?V(q \<mapsto> w\<lparr>r_next := r_next r\<rparr>)"
  let ?s2 = "s1\<lparr>vm_regions := ?V2\<rparr>"
  have p: "(p, 64) \<in> slab_objects ?s2 HS F" "slab_inv hh ?s2 (rev fs @ vs) HS F"
    using g1 slab_good_regions [where s = s1 and V = ?V2 and g = "(rev fs @ vs, HS, F)"] ch(4) psq
    by (simp_all add: slab_live_def slab_good_def)
  from slab_release_ok [OF p(2,1)] obtain F' where
    3: "slab_inv hh (slab_dealloc p ?s2) (rev fs @ vs) HS F'"
      "slab_objects (slab_dealloc p ?s2) HS F' = slab_objects ?s2 HS F - {(p, 64)}"
      "agree_on (- slab_pages (rev fs @ vs) HS) (mem ?s2) (mem (slab_dealloc p ?s2))"
      "pmm_state.more (slab_dealloc p ?s2) = pmm_state.more ?s2"
    by (elim exE conjE)
  let ?V' = "?V2(p := None)" and ?g' = "(rev fs @ vs, HS, F')"
  let ?s' = "slab_dealloc p ?s2\<lparr>vm_regions := ?V'\<rparr>" and ?ps = "ps1 @ q # ps2"
  have "region_chain ?V (khead pm) (qs1 @ p # ps2)" "\<forall>a\<in>set qs1. r_base (the (?V a)) \<noteq> b"
    using ch(1) split(1,2) rs1(2) by (auto simp: regions_def region_of_def image_image)
  note find = vmm_dealloc_loop_find [OF this]
  have "length qs1 < slab_fuel"
    using region_chain_fuel [OF ch(2)] split(1) by simp
  then obtain f where f: "slab_fuel = length qs1 + Suc f"
    using less_imp_Suc_add add_Suc_right by metis
  have "vmm_dealloc A pm b False s = vmm_dealloc_loop (Suc f) A b (Some q) (Some p) pm s"
    using rs1(3) q find [of "Suc f" A None pm] by (simp only: vmm_dealloc_def f) simp
  then have run: "vmm_dealloc A pm b False s = Inr (pm, ?s')"
    using r 1(1) vm_regions_more [OF 3(4)] by (simp add: region_read_def region_write_def Let_def V1)
  have pq: "p \<noteq> q"
    using ch(2) psq by auto
  have chain: "region_chain ?V' (khead pm) ?ps"
    by (rule region_chain_remove [OF ch(1) [unfolded psq] ch(2) [unfolded psq]]) (simp add: r)
  have same: "region_of (the (?V' a)) = region_of (the (?V a))" if "a \<in> set ?ps" for a
    using that ch(2) psq r(4) by (auto simp: region_of_def)
  have "regions ?V' ?ps = regions ?V ?ps"
    unfolding regions_def by (rule map_cong [OF refl same])
  also have "\<dots> = rs1 @ rs2"
    using split(2,3) q by (simp add: regions_def)
  finally have regs: "regions ?V' ?ps = rs1 @ rs2" .
  have live: "slab_live (slab_dealloc p ?s2) ?g' = slab_live s g - {(p, 64)}"
    using 3(2) g1(2) slab_good_regions(2) [where s = s1 and V = ?V2 and g = "(rev fs @ vs, HS, F)"] by (simp add: slab_live_def)
  have "slab_good hh (slab_dealloc p ?s2) ?g'"
    using 3(1) by (simp add: slab_good_def)
  then have vinv: "vmm_inv hh ?s' pm ?ps ?g'"
    using chain ch(2,4) psq live by (auto simp: vmm_inv_def)
  have "ran t \<inter> slab_pages (rev fs @ vs) HS = {}"
    using k(3) fdis(1) by (auto simp: slab_pages_def)
  then have ag2: "agree_on (ran t) (mem s1) (mem ?s')"
    using 3(3) unfolding agree_on_def by auto
  have "kmap_inv tab hh ?s' pm ?ps ?g' t"
    using vinv tab_frame [OF 1(3) ag2] \<open>ran t \<inter> slab_pages (rev fs @ vs) HS = {}\<close> 1(2)
    by (simp add: kmap_inv_def pmm_phys_def)
  moreover have "mmu ?root va (mem ?s') = (if vpn n va \<in> vpn n ` set xs then None else mmu ?root va (mem s))" for va
    using mmu_frame [OF 1(3) ag2] 1(5) by simp
  ultimately show ?thesis
    using run regs g by (intro exI [of _ ?s'] exI [of _ ?ps] exI [of _ ?g']) simp
qed

text \<open>
  Allocating and releasing again: the list and every translation are as before,
  also when fields outside the memory manager change in between.
\<close>

lemma vmm_release_ok:
  assumes inv: "kmap_inv tab hh s pm ps g t" and user: "\<not> contains flags VMM_USER"
    and ok: "regions_ok (regions (vm_regions s) ps)"
    and len: "len = align_up amount PAGE_SIZE" "0 < len" "unat len < 2 ^ 63"
    and pl: "place_region len flags (regions (vm_regions s) ps) = Some (b, rs')"
    and xs: "xs = range_step b (b + len) 4096"
    and b: "page_aligned b" "high_half n b" "b \<noteq> 0"
    and room: "length xs + card (missing_list n t xs) < slab_room g"
    and fresh: "\<forall>va. vpn n va \<in> vpn n ` set xs \<longrightarrow> mmu (arch_page pm + hh) va (mem s) = None"
  shows "\<exists>s1. vmm_alloc hh A pm amount flags s = Inr (b, s1) \<and> (\<forall>s1'. vmm_core s1' = vmm_core s1 \<longrightarrow>
     (\<exists>s2 ps' g' t'. vmm_dealloc A pm b False s1' = Inr (pm, s2) \<and> kmap_inv tab hh s2 pm ps' g' t'
       \<and> regions (vm_regions s2) ps' = regions (vm_regions s) ps
       \<and> (\<forall>va. mmu (arch_page pm + hh) va (mem s2) = mmu (arch_page pm + hh) va (mem s))))"
proof -
  let ?root = "arch_page pm + hh"
  from place_region_ok [OF ok len(2,3) pl] obtain us r q ys where
    r: "regions (vm_regions s) ps = us @ r # q # ys" "rs' = us @ r # (b, len, flags) # q # ys"
      "unat b + unat len + 4096 \<le> unat (fst q)" "b \<notin> fst ` set (us @ [r])"
    by blast
  have nowrap: "unat b + unat len < 2 ^ 64"
    using r(3) unat_lt64 [of "fst q"] by simp
  from vmm_alloc_ok [OF inv user pl [unfolded len(1)] xs [unfolded len(1)] b(1,2) nowrap [unfolded len(1)] room]
  obtain s1 ps1 g1 t' fs where
    1: "vmm_alloc hh A pm amount flags s = Inr (b, s1)" "kmap_inv tab hh s1 pm ps1 g1 t'"
      "regions (vm_regions s1) ps1 = rs'" "length fs = length xs" "distinct fs" "set fs \<subseteq> set (fst g)"
      "set fs \<inter> (ran t' \<union> slab_pages (fst g1) (fst (snd g1))) = {}"
      "\<forall>k<length xs. mmu ?root (xs ! k) (mem s1) = Some (pte (fs ! k - hh) flags)"
      "\<forall>va. vpn n va \<notin> vpn n ` set xs \<longrightarrow> mmu ?root va (mem s1) = mmu ?root va (mem s)"
    by (elim exE conjE)
  have fr: "\<forall>p\<in>set fs. phys_frame hh p"
    using 1(6) inv by (auto simp: kmap_inv_def)
  have "\<exists>s2 ps' g' t'. vmm_dealloc A pm b False s1' = Inr (pm, s2) \<and> kmap_inv tab hh s2 pm ps' g' t'
      \<and> regions (vm_regions s2) ps' = regions (vm_regions s) ps \<and> (\<forall>va. mmu ?root va (mem s2) = mmu ?root va (mem s))"
    if c: "vmm_core s1' = vmm_core s1" for s1'
  proof -
    have m: "mem s1' = mem s1" and regs: "regions (vm_regions s1') ps1 = (us @ [r]) @ (b, len, flags) # (q # ys)"
      using c 1(3) r(2) by (simp_all add: vmm_core_def)
    from vmm_dealloc_ok [OF kmap_inv_core [OF c 1(2)] regs _ r(4) b(3) xs b(1,2) nowrap 1(8) [folded m] 1(4,5) fr 1(7)]
    obtain s2 ps2 g2 where
      2: "vmm_dealloc A pm b False s1' = Inr (pm, s2)" "kmap_inv tab hh s2 pm ps2 g2 t'"
        "regions (vm_regions s2) ps2 = (us @ [r]) @ (q # ys)"
        "\<forall>va. mmu ?root va (mem s2) = (if vpn n va \<in> vpn n ` set xs then None else mmu ?root va (mem s1'))"
      by blast
    have "mmu ?root va (mem s2) = mmu ?root va (mem s)" for va
      using 2(4) 1(9) fresh m by simp
    with 2(1-3) r(1) show ?thesis
      by (intro exI [of _ s2] exI [of _ ps2] exI [of _ g2] exI [of _ t']) simp
  qed
  with 1(1) show ?thesis
    by blast
qed

lemma vmm_roundtrip:
  assumes inv: "kmap_inv tab hh s pm ps g t" and user: "\<not> contains flags VMM_USER"
    and ok: "regions_ok (regions (vm_regions s) ps)"
    and len: "len = align_up amount PAGE_SIZE" "0 < len" "unat len < 2 ^ 63"
    and pl: "place_region len flags (regions (vm_regions s) ps) = Some (b, rs')"
    and xs: "xs = range_step b (b + len) 4096"
    and b: "page_aligned b" "high_half n b" "b \<noteq> 0"
    and room: "length xs + card (missing_list n t xs) < slab_room g"
    and fresh: "\<forall>va. vpn n va \<in> vpn n ` set xs \<longrightarrow> mmu (arch_page pm + hh) va (mem s) = None"
  shows "\<exists>s1 s2 ps' g' t'. vmm_alloc hh A pm amount flags s = Inr (b, s1)
     \<and> vmm_dealloc A pm b False s1 = Inr (pm, s2) \<and> kmap_inv tab hh s2 pm ps' g' t'
     \<and> regions (vm_regions s2) ps' = regions (vm_regions s) ps
     \<and> (\<forall>va. mmu (arch_page pm + hh) va (mem s2) = mmu (arch_page pm + hh) va (mem s))"
  using vmm_release_ok [OF assms] by blast

end

section \<open>Start-up\<close>

lemma x86_pt_init_keeps:
  "x86_pt_init hh cr3 kstart kend paging kaddr memmap s = Inr (r, root, s') \<Longrightarrow>
     pmm_state.more s' = pmm_state.more s"
proof -
  have "x86_map_kernel hh pml4 kv kp sz s1 = Inr s2 \<Longrightarrow> pmm_state.more s2 = pmm_state.more s1"
    "x86_map_hhdm hh pml4 mx fb s1 = Inr s2 \<Longrightarrow> pmm_state.more s2 = pmm_state.more s1"
    for pml4 kv kp sz mx fb and s1 s2 :: "'a pmm_state_scheme"
    unfolding x86_map_kernel_def x86_map_hhdm_def
    by (erule for_each_keeps [rotated], erule x86_op_keeps)+
  then show "x86_pt_init hh cr3 kstart kend paging kaddr memmap s = Inr (r, root, s') \<Longrightarrow>
     pmm_state.more s' = pmm_state.more s"
    by (auto simp: x86_pt_init_def x86_get_table_def Let_def and_then_def unwrap_res_def unwrap_opt_def
        split: sum.splits option.splits prod.splits if_splits dest!: page_op_keeps)
qed

lemma kmap_inv_init:
  assumes good: "slab_good hh s (vs, HS, F)" and room: "2 \<le> length vs" and fr: "\<forall>v\<in>set vs. phys_frame hh v"
    and tab: "tab v t (mem s)" "ran t \<inter> slab_pages vs HS = {}"
    and frame: "\<forall>m m'. tab v t m \<longrightarrow> agree_on (ran t) m m' \<longrightarrow> tab v t m'"
    and pt: "pt_init s0 = Inr ((hsize, ksize), v - hh, s)"
  shows "\<exists>s' pm ps g. vmm_init hh pt_init (Some (kv, kp)) s0 = Inr s' \<and> kermap s' = Some pm
     \<and> kmap_inv tab hh s' pm ps g t \<and> arch_page pm = v - hh
     \<and> regions (vm_regions s') ps = [(hh, hsize, 7), (kv, ksize, 6)]
     \<and> (max_hhdm_phy s = None \<longrightarrow> max_hhdm_phy s' = Some hsize)
     \<and> agree_on (- slab_pages vs HS) (mem s) (mem s') \<and> length vs \<le> slab_room g + 2"
proof -
  let ?g = "(vs, HS, F)"
  have "0 < slab_room ?g"
    using room by (cases vs) (simp_all add: slab_room_def)
  from VMMRegion_new_ok [OF good this, of kv ksize "VMM_GLOBAL OR VMM_EXECUTABLE"] obtain e1 s1 g1 where
    1: "VMMRegion_new hh kv ksize (VMM_GLOBAL OR VMM_EXECUTABLE) s = Inr (e1, s1)"
      "vm_regions s1 = (vm_regions s)(e1 \<mapsto> \<lparr>r_next = None, r_base = kv, r_length = ksize,
         r_flags = VMM_GLOBAL OR VMM_EXECUTABLE\<rparr>)"
      "slab_good hh s1 g1" "slab_live s1 g1 = insert (e1, 64) (slab_live s ?g)" "slab_room ?g \<le> slab_room g1 + 1"
      "agree_on (- slab_pages vs HS) (mem s) (mem s1)" "slab_pages (fst g1) (fst (snd g1)) = slab_pages vs HS"
      "set (fst g1) \<subseteq> set vs" "max_hhdm_phy s1 = max_hhdm_phy s"
    unfolding fst_conv snd_conv by (elim exE conjE)
  have "0 < slab_room g1"
    using room 1(5) by (cases "fst g1") (auto simp: slab_room_def)
  from VMMRegion_new_ok [OF 1(3) this, of hh hsize "VMM_GLOBAL OR VMM_EXECUTABLE OR VMM_WRITE"] obtain e2 s2 g2 where
    2: "VMMRegion_new hh hh hsize (VMM_GLOBAL OR VMM_EXECUTABLE OR VMM_WRITE) s1 = Inr (e2, s2)"
      "vm_regions s2 = (vm_regions s1)(e2 \<mapsto> \<lparr>r_next = None, r_base = hh, r_length = hsize,
         r_flags = VMM_GLOBAL OR VMM_EXECUTABLE OR VMM_WRITE\<rparr>)"
      "slab_good hh s2 g2" "slab_live s2 g2 = insert (e2, 64) (slab_live s1 g1)" "e2 \<notin> fst ` slab_live s1 g1"
      "slab_room g1 \<le> slab_room g2 + 1"
      "agree_on (- slab_pages vs HS) (mem s1) (mem s2)" "slab_pages (fst g2) (fst (snd g2)) = slab_pages vs HS"
      "set (fst g2) \<subseteq> set (fst g1)" "max_hhdm_phy s2 = max_hhdm_phy s1"
    unfolding 1(7) by (elim exE conjE)
  have ne: "e2 \<noteq> e1"
    using 2(5) 1(4) by auto
  let ?s4 = "if max_hhdm_phy s2 = None then s2\<lparr>max_hhdm_phy := Some hsize\<rparr> else s2"
  let ?r2 = "\<lparr>r_next = Some e1, r_base = hh, r_length = hsize, r_flags = VMM_GLOBAL OR VMM_EXECUTABLE OR VMM_WRITE\<rparr>"
  let ?pm = "\<lparr>arch_page = v - hh, khead = Some e2, uhead = None\<rparr>"
  let ?s' = "?s4\<lparr>vm_regions := (vm_regions s2)(e2 \<mapsto> ?r2), kermap := Some ?pm\<rparr>"
  have run: "vmm_init hh pt_init (Some (kv, kp)) s0 = Inr ?s'"
    using pt 1(1) 2(1,2) by (simp add: vmm_init_def unwrap_opt_def region_read_def region_write_def Let_def)
  have "vmm_inv hh ?s' ?pm [e2, e1] g2"
    using 1(2,4) 2(2-4) ne by (simp add: vmm_inv_def)
  moreover have m: "mem ?s' = mem s2"
    by simp
  moreover have ag: "agree_on (- slab_pages vs HS) (mem s) (mem s2)"
    using 1(6) 2(7) by (simp add: agree_on_def)
  moreover have "agree_on (ran t) (mem s) (mem s2)"
    using ag tab(2) unfolding agree_on_def by blast
  ultimately have "kmap_inv tab hh ?s' ?pm [e2, e1] g2 t"
    using frame tab 2(8,9) 1(8) fr unfolding kmap_inv_def by auto
  moreover have "regions (vm_regions ?s') [e2, e1] = [(hh, hsize, 7), (kv, ksize, 6)]"
    using ne 1(2) 2(2)
    by (simp add: regions_def region_of_def VMM_GLOBAL_def VMM_EXECUTABLE_def VMM_WRITE_def)
  moreover have "length vs \<le> slab_room g2 + 2"
    using 1(5) 2(6) unfolding slab_room_def by simp
  ultimately show ?thesis
    using run ag m 1(9) 2(10)
    by (intro exI [of _ ?s'] exI [of _ ?pm] exI [of _ "[e2, e1]"] exI [of _ g2]) simp
qed

lemma x86_vmm_init_ok:
  fixes hh cr3 kstart kend kv kp :: u64 and memmap :: "memmap_entry list option" and s :: "'z vmm_state_scheme"
  defines "ksize \<equiv> align_up (kend - kstart) PAGE_SIZE"
    and "mx \<equiv> align_up (fst (x86_memmap_extent memmap)) PAGE_SIZE"
    and "fb \<equiv> snd (x86_memmap_extent memmap)"
  defines "kpages \<equiv> range_step kv (kv + ksize) 4096" and "hpages \<equiv> range_step hh (hh + mx) 4096"
  assumes good: "slab_good hh s (v # vs, HS, F)" and fr: "\<forall>p\<in>set (v # vs). phys_frame hh p"
    and room: "card (\<Union>x\<in>set kpages \<union> set hpages. tpaths 4 x) + 2 \<le> length vs"
    and boot: "x86_get_table hh (page_of cr3 AND 0x7FFFFFFFFFFFFFFF) 0xffffffff80015000 False s = Inr (Inr p, s)"
    and k: "page_aligned kv" "high_half 4 kv" "unat kv + unat ksize < 2 ^ 64"
    and h: "page_aligned hh" "high_half 4 hh" "unat hh + unat mx < 2 ^ 64"
    and order: "unat hh + unat mx \<le> unat kv" "0 < mx" "0 < ksize"
    and dis: "set kpages \<inter> set hpages = {}" and once: "max_hhdm_phy s = None"
  shows "\<exists>s' pm ps g t. vmm_init hh (x86_pt_init hh cr3 kstart kend (Some ()) (Some (kv, kp)) memmap) (Some (kv, kp)) s = Inr s'
     \<and> kermap s' = Some pm \<and> kmap_inv (x86_tables hh) hh s' pm ps g t
     \<and> regions (vm_regions s') ps = [(hh, mx, 7), (kv, ksize, 6)] \<and> regions_ok (regions (vm_regions s') ps)
     \<and> max_hhdm_phy s' = Some mx
     \<and> length vs \<le> slab_room g + card (\<Union>x\<in>set kpages \<union> set hpages. tpaths 4 x) + 2
     \<and> (\<forall>i\<in>set (range_step 0 ksize 4096). x86_mmu hh (arch_page pm + hh) (kv + i) (mem s') =
          Some (x86_pte (kp + i) (PT_GLOBAL OR PT_PRESENT OR PT_WRITE)))
     \<and> (\<forall>i\<in>set (range_step 0 mx 4096). x86_mmu hh (arch_page pm + hh) (hh + i) (mem s') =
          Some (x86_pte i (x86_hhdm_flags fb i)))
     \<and> (\<forall>vb. vpn 4 vb \<notin> vpn 4 ` (set kpages \<union> set hpages) \<longrightarrow> x86_mmu hh (arch_page pm + hh) vb (mem s') = None)"
proof -
  have free: "pmm_phys hh s (v # vs)"
    using slab_good_free [OF good] fr by (simp add: pmm_phys_def)
  have "card (\<Union>x\<in>set kpages \<union> set hpages. tpaths 4 x) \<le> length vs + 1"
    using room by simp
  from x86_pt_init_ok [OF free this [unfolded kpages_def hpages_def ksize_def mx_def] boot
      k [unfolded ksize_def] h [unfolded mx_def] dis [unfolded kpages_def hpages_def ksize_def mx_def], of kp,
      folded ksize_def mx_def fb_def, folded kpages_def hpages_def]
  obtain s1 t us vs' where
    1: "x86_pt_init hh cr3 kstart kend (Some ()) (Some (kv, kp)) memmap s = Inr ((mx, ksize), v - hh, s1)"
      "\<forall>i\<in>set (range_step 0 ksize 4096).
          x86_mmu hh v (kv + i) (mem s1) = Some (x86_pte (kp + i) (PT_GLOBAL OR PT_PRESENT OR PT_WRITE))"
      "\<forall>i\<in>set (range_step 0 mx 4096). x86_mmu hh v (hh + i) (mem s1) = Some (x86_pte i (x86_hhdm_flags fb i))"
      "\<forall>vb. vpn 4 vb \<notin> vpn 4 ` (set kpages \<union> set hpages) \<longrightarrow> x86_mmu hh v vb (mem s1) = None"
      "vs = us @ vs'" "pmm_phys hh s1 vs'" "x86_tables hh v t (mem s1)" "ran t = insert v (set us)"
      "agree_on (- ran t) (mem s) (mem s1)" "length us \<le> card (\<Union>x\<in>set kpages \<union> set hpages. tpaths 4 x)"
    by (elim exE conjE)
  have more: "pmm_state.more s1 = pmm_state.more s"
    by (rule x86_pt_init_keeps [OF 1(1)])
  have hs: "set (v # vs) \<inter> set (concat HS) = {}"
    by (rule slab_good_disjoint [OF good])
  have dv: "distinct (v # vs)"
    using free by (auto simp: pmm_phys_def dest: pmm_free_distinct)
  have "ran t \<inter> set (concat HS) = {}"
    using hs 1(5,8) by auto
  then have "agree_on (set (concat HS)) (mem s) (mem s1)"
    using 1(9) unfolding agree_on_def by blast
  moreover have "set vs' \<inter> set (concat HS) = {}"
    using hs 1(5) by auto
  ultimately have good1: "slab_good hh s1 (vs', HS, F)"
    using slab_good_frame(1) [OF good _ _ more, of vs'] 1(6) by (simp add: pmm_phys_def)
  have tdis: "ran t \<inter> slab_pages vs' HS = {}"
    using dv hs 1(5) unfolding 1(8) by (auto simp: slab_pages_def)
  have two: "2 \<le> length vs'"
    using room 1(5,10) by simp
  have fr': "\<forall>v\<in>set vs'. phys_frame hh v"
    using fr 1(5) by simp
  have "max_hhdm_phy s1 = None"
    using more once by (cases s, cases s1) simp
  moreover have frame: "\<forall>m m'. x86_tables hh v t m \<longrightarrow> agree_on (ran t) m m' \<longrightarrow> x86_tables hh v t m'"
    using x86.tables_frame by blast
  note init = kmap_inv_init [where tab = "x86_tables hh" and kv = kv and kp = kp
      and pt_init = "x86_pt_init hh cr3 kstart kend (Some ()) (Some (kv, kp)) memmap",
      OF good1 two fr' 1(7) tdis frame 1(1)]
  ultimately obtain s' pm ps g where
    2: "vmm_init hh (x86_pt_init hh cr3 kstart kend (Some ()) (Some (kv, kp)) memmap) (Some (kv, kp)) s = Inr s'"
      "kermap s' = Some pm" "kmap_inv (x86_tables hh) hh s' pm ps g t" "arch_page pm = v - hh"
      "regions (vm_regions s') ps = [(hh, mx, 7), (kv, ksize, 6)]" "max_hhdm_phy s' = Some mx"
      "agree_on (- slab_pages vs' HS) (mem s1) (mem s')" "length vs' \<le> slab_room g + 2"
    using init by (elim exE conjE) simp
  have ag: "agree_on (ran t) (mem s1) (mem s')"
    using 2(7) tdis unfolding agree_on_def by blast
  have same: "x86_mmu hh (arch_page pm + hh) va (mem s') = x86_mmu hh v va (mem s1)" for va
    using x86.walk_frame [OF 1(7) ag, of va] unfolding 2(4) x86_mmu_def by simp
  have "regions_ok (regions (vm_regions s') ps)"
    unfolding 2(5) regions_ok_def using order h(3) k(3) by simp
  moreover have "length vs \<le> slab_room g + card (\<Union>x\<in>set kpages \<union> set hpages. tpaths 4 x) + 2"
    using 1(5,10) 2(8) by simp
  ultimately show ?thesis
    using 1(2-4) 2(1-3,5,6) unfolding same [symmetric] by blast
qed

section \<open>What the operations leave alone\<close>

lemma slab_header_init_more: "slab_header_init hh sz s = Inr (h, s') \<Longrightarrow> pmm_state.more s' = pmm_state.more s"
  by (auto simp: slab_header_init_def Let_def and_then_def split: sum.splits prod.splits if_splits dest!: allocate_page_more)

lemma slab_header_alloc_more: "slab_header_alloc hh fuel cur s = Inr (x, s') \<Longrightarrow> pmm_state.more s' = pmm_state.more s"
proof (induction hh fuel cur s rule: slab_header_alloc.induct)
  case (1 hh fuel cur s)
  show ?case
    using 1(3) 1(1,2) unfolding slab_header_alloc.simps [of hh fuel cur s]
    by (fastforce simp: and_then_def split: if_splits sum.splits prod.splits dest: slab_header_init_more)
qed

lemma slab_alloc_more: "slab_alloc hh sz s = Inr (r, s') \<Longrightarrow> pmm_state.more s' = pmm_state.more s"
proof -
  have "slab_alloc_from hh cs sz s = Inr (r, s') \<Longrightarrow> pmm_state.more s' = pmm_state.more s" for cs
    by (induction cs) (auto simp: slabcache_alloc_def and_then_def split: if_splits sum.splits prod.splits dest: slab_header_alloc_more)
  then show "slab_alloc hh sz s = Inr (r, s') \<Longrightarrow> pmm_state.more s' = pmm_state.more s"
    by (auto simp: slab_alloc_def split: if_splits)
qed

text \<open>Two states that differ in memory, free list and regions at most.\<close>

definition vmm_rest :: "'z vmm_state_scheme \<Rightarrow> Pagemap option \<times> usize option \<times> 'z" where
  "vmm_rest s = (kermap s, max_hhdm_phy s, vmm_state.more s)"

lemma vmm_rest_more: "pmm_state.more s' = pmm_state.more s \<Longrightarrow> vmm_rest s' = vmm_rest s"
  by (cases s, cases s') (simp add: vmm_rest_def)

lemma vmm_rest_regions [simp]: "vmm_rest (s\<lparr>vm_regions := V\<rparr>) = vmm_rest s"
  by (simp add: vmm_rest_def)

lemma vmm_place_region_rest: "vmm_place_region hh pm amount flags s = Inr (info, s') \<Longrightarrow> vmm_rest s' = vmm_rest s"
  by (auto simp: vmm_place_region_def VMMRegion_new_def region_write_def and_then_def Let_def
      split: sum.splits prod.splits dest!: slab_alloc_more vmm_rest_more)

lemma vmm_alloc_rest:
  "vmm_alloc hh (x86_arch hh) pm amount flags s = Inr (b, s') \<Longrightarrow> vmm_rest s' = vmm_rest s"
  by (auto simp: vmm_alloc_def x86_arch_def and_then_def split: if_splits sum.splits prod.splits
      dest!: region_op_keeps(1) vmm_rest_more vmm_place_region_rest)

lemma vmm_rest_kermap: "vmm_rest s1 = vmm_rest s \<Longrightarrow> kermap s1 = kermap s"
  by (simp add: vmm_rest_def)

lemma x86_vmm_alloc_region:
  fixes amount :: usize
  defines "len \<equiv> align_up amount PAGE_SIZE"
  assumes "kmap_inv (x86_tables hh) hh s pm ps g t" "\<not> contains flags VMM_USER"
    and "regions_ok (regions (vm_regions s) ps)" "0 < len" "unat len < 2 ^ 63"
    and "place_region len flags (regions (vm_regions s) ps) = Some (b, rs')"
    and "xs = range_step b (b + len) 4096" "page_aligned b" "high_half 4 b"
    and "length xs + card (missing_list 4 t xs) < slab_room g"
  shows "\<exists>s' ps' g' t' fs. vmm_alloc hh (x86_arch hh) pm amount flags s = Inr (b, s')
     \<and> kmap_inv (x86_tables hh) hh s' pm ps' g' t' \<and> regions (vm_regions s') ps' = rs' \<and> regions_ok rs'
     \<and> set rs' = insert (b, len, flags) (set (regions (vm_regions s) ps))
     \<and> (\<forall>r\<in>set (regions (vm_regions s) ps). region_addrs r \<inter> {unat b..<unat b + unat len + 4096} = {})
     \<and> length fs = length xs \<and> distinct fs \<and> set fs \<subseteq> set (fst g)
     \<and> set fs \<inter> (ran t' \<union> slab_pages (fst g') (fst (snd g'))) = {}
     \<and> (\<forall>k<length xs. x86_mmu hh (arch_page pm + hh) (xs ! k) (mem s') =
          Some (x86_pte (fs ! k - hh) (x86_from_vmmflags flags)))
     \<and> (\<forall>va. vpn 4 va \<notin> vpn 4 ` set xs \<longrightarrow>
          x86_mmu hh (arch_page pm + hh) va (mem s') = x86_mmu hh (arch_page pm + hh) va (mem s))
     \<and> slab_room g \<le> slab_room g' + length xs + card (missing_list 4 t xs) + 1 \<and> kermap s' = kermap s"
proof -
  from place_region_ok [OF assms(4-7)] obtain us r q ys where
    r: "regions (vm_regions s) ps = us @ r # q # ys" "rs' = us @ r # (b, len, flags) # q # ys" "b = region_end r"
      "unat b + unat len + 4096 \<le> unat (fst q)" "regions_ok rs'"
    by blast
  have e: "unat b = unat (fst r) + unat (fst (snd r))"
    unfolding r(3) by (rule unat_region_end [OF assms(4)]) (simp add: r(1))
  have ok: "regions_ok (us @ r # q # ys)"
    using assms(4) r(1) by simp
  have sep: "region_addrs a \<inter> {unat b..<unat b + unat len + 4096} = {}" if "a \<in> set (us @ r # q # ys)" for a
    using that ok r(4) e by (force simp: regions_ok_def region_addrs_def sorted_wrt_append)
  have nowrap: "unat b + unat len < 2 ^ 64"
    using r(4) unat_lt64 [of "fst q"] by simp
  have set: "set rs' = insert (b, len, flags) (set (us @ r # q # ys))"
    unfolding r(2) by auto
  from x86_region.vmm_alloc_ok [OF assms(2,3) assms(7) [unfolded len_def] assms(8) [unfolded len_def] assms(9,10)
      nowrap [unfolded len_def] assms(11)]
  obtain s' ps' g' t' fs where v:
    "vmm_alloc hh (x86_arch hh) pm amount flags s = Inr (b, s')" "kmap_inv (x86_tables hh) hh s' pm ps' g' t'"
    "regions (vm_regions s') ps' = rs'" "length fs = length xs" "distinct fs" "set fs \<subseteq> set (fst g)"
    "set fs \<inter> (ran t' \<union> slab_pages (fst g') (fst (snd g'))) = {}"
    "\<forall>k<length xs. x86_mmu hh (arch_page pm + hh) (xs ! k) (mem s') = Some (x86_pte (fs ! k - hh) (x86_from_vmmflags flags))"
    "\<forall>va. vpn 4 va \<notin> vpn 4 ` set xs \<longrightarrow> x86_mmu hh (arch_page pm + hh) va (mem s') = x86_mmu hh (arch_page pm + hh) va (mem s)"
    "slab_room g \<le> slab_room g' + length xs + card (missing_list 4 t xs) + 1"
    unfolding x86_mmu_def by (elim exE conjE)
  have "kermap s' = kermap s"
    by (rule vmm_rest_kermap [OF vmm_alloc_rest [OF v(1)]])
  with v r(5) sep set show ?thesis
    unfolding r(1) by blast
qed

section \<open>An example machine\<close>

text \<open>
  Two hundred and fifty free frames from 0x1000 on, and loader tables at 0x100000 whose entry for
  the address that \<^verbatim>\<open>pt_init\<close> prints is a 1 GiB page.
\<close>

definition example_vmm :: vmm_state where
  "example_vmm = \<lparr>
     mem = (\<lambda>a. if a = 0xffff800000100ff8 then 0x101003 else if a = 0xffff800000101ff0 then 0x83
       else if a - 0xffff800000000000 < 0xFA000 then a - 0xffff800000000000 + 0x1000 else 0),
     FREELIST = Some 0x1000, slab_caches = replicate 7 \<lparr>sc_size = 0, sc_slabs = 0\<rparr>,
     vm_regions = Map.empty, kermap = None, max_hhdm_phy = None\<rparr>"

definition example_vframe :: "nat \<Rightarrow> u64" where
  "example_vframe i = 0xffff800000000000 + of_nat i * 0x1000"

lemma example_vframe_facts:
  assumes "0 < i" "i \<le> 250"
  shows "unat (example_vframe i) = 0xffff800000000000 + i * 0x1000" "phys_frame 0xffff800000000000 (example_vframe i)"
    "mem example_vmm (example_vframe i) = (if i < 250 then of_nat (Suc i) * 0x1000 else 0)"
proof -
  have u: "unat (of_nat i * 0x1000 :: u64) = i * 0x1000"
    using assms(2) by (simp add: unat_word_ariths unat_of_nat)
  have "unat (0xffff800000000000 + of_nat i * 0x1000 :: u64) = 0xffff800000000000 + i * 0x1000"
    using assms(2) u by (subst unat_add_no_wrap) simp_all
  then show un: "unat (example_vframe i) = 0xffff800000000000 + i * 0x1000"
    by (simp add: example_vframe_def)
  have d: "example_vframe i - 0xffff800000000000 = of_nat i * 0x1000"
    by (simp add: example_vframe_def)
  show "phys_frame 0xffff800000000000 (example_vframe i)"
    using assms un u by (auto simp: phys_frame_def valid_frame_def d page_aligned_iff)
  have ne: "example_vframe i \<noteq> 0xffff800000100ff8" "example_vframe i \<noteq> 0xffff800000101ff0"
    using un assms(2) by (auto dest: arg_cong [where f = unat])
  have "of_nat i * 0x1000 < (0xFA000 :: u64) \<longleftrightarrow> i < 250"
    using u by (simp add: word_less_nat_alt)
  then show "mem example_vmm (example_vframe i) = (if i < 250 then of_nat (Suc i) * 0x1000 else 0)"
    using ne d by (simp add: example_vmm_def algebra_simps)
qed

lemma example_vmm_chain:
  "0 < i \<Longrightarrow> i \<le> 251 \<Longrightarrow> frame_chain 0xffff800000000000 (mem example_vmm)
     (if i < 251 then of_nat i * 0x1000 else 0) (map example_vframe [i..<251])"
proof (induction "251 - i" arbitrary: i)
  case (Suc d)
  then have i: "i \<le> 250" "[i..<251] = i # [Suc i..<251]"
    by (auto simp: upt_rec [of i])
  have "unat (of_nat i * 0x1000 :: u64) = i * 0x1000"
    using i(1) by (simp add: unat_word_ariths unat_of_nat)
  then have "of_nat i * 0x1000 \<noteq> (0 :: u64)"
    using Suc.prems(1) by auto
  moreover have "d = 251 - Suc i"
    using Suc.hyps(2) by simp
  ultimately show ?case
    using Suc.hyps(1) [of "Suc i"] Suc.prems(1) i example_vframe_facts(3) [of i]
    by (simp add: example_vframe_def algebra_simps)
qed simp

lemma example_vmm_free: "pmm_free 0xffff800000000000 example_vmm (map example_vframe [1..<251])"
proof -
  have "inj_on example_vframe (set [1..<251])"
    by (rule inj_onI) (auto dest!: arg_cong [where f = unat] simp: example_vframe_facts(1))
  then show ?thesis
    using example_vmm_chain [of 1] example_vframe_facts(2)
    by (auto simp: pmm_free_def distinct_map phys_frame_def example_vmm_def)
qed

lemma example_vmm_slab:
  "\<exists>s HS F. init_slab 0xffff800000000000 example_vmm = Inr s
     \<and> slab_good 0xffff800000000000 s (map example_vframe [8..<251], HS, F)
     \<and> mem s 0xffff800000100ff8 = 0x101003 \<and> mem s 0xffff800000101ff0 = 0x83 \<and> max_hhdm_phy s = None"
proof -
  let ?ws = "map example_vframe [1..<8]"
  have "[1..<251] = [1..<8] @ [8..<251]"
    using upt_add_eq_append [of 1 8 243] by simp
  then have "pmm_free 0xffff800000000000 example_vmm (?ws @ map example_vframe [8..<251])" "length ?ws = 7"
    "length (slab_caches example_vmm) = 7"
    using example_vmm_free by (simp_all add: example_vmm_def)
  from init_slab_ok [OF this] obtain s F where
    s: "init_slab 0xffff800000000000 example_vmm = Inr s"
      "slab_inv 0xffff800000000000 s (map example_vframe [8..<251]) (map (\<lambda>w. [w]) ?ws) F"
      "agree_on (- set ?ws) (mem example_vmm) (mem s)" "slab_state.more s = slab_state.more example_vmm"
    by blast
  have ne: "page_of 0xffff800000100ff8 \<notin> set ?ws" "page_of 0xffff800000101ff0 \<notin> set ?ws"
    by (auto simp: page_of_def dest!: arg_cong [where f = unat] simp: example_vframe_facts(1))
  have "mem s 0xffff800000100ff8 = 0x101003" "mem s 0xffff800000101ff0 = 0x83"
    using s(3) ne by (simp_all add: agree_on_def example_vmm_def)
  moreover have "max_hhdm_phy s = None"
    using s(4) by (cases s) (simp add: example_vmm_def)
  ultimately show ?thesis
    using s(1,2) by (intro exI [of _ s] exI [of _ "map (\<lambda>w. [w]) ?ws"] exI [of _ F]) (simp add: slab_good_def)
qed

lemma example_upt: "map example_vframe [8..<251] = example_vframe 8 # map example_vframe [9..<251]"
  by (simp add: upt_conv_Cons)

lemma example_frames_phys: "\<forall>p\<in>set (map example_vframe [8..<251]). phys_frame 0xffff800000000000 p"
  by (auto intro: example_vframe_facts(2))

lemma card_tpaths4: "card (tpaths 4 x) \<le> 4"
  unfolding tpaths_def by (rule order_trans [OF card_image_le]) auto

lemma example_sizes:
  "x86_memmap_extent (Some example_boot_map) = (0x1234, 0x1000, 0x234)"
  "align_up (0xffffffff80000abc - 0xffffffff80000000) PAGE_SIZE = 0x1000" "align_up 0x1234 PAGE_SIZE = 0x2000"
  "align_up 0x1800 PAGE_SIZE = 0x2000"
  "range_step 0xffffffff80000000 (0xffffffff80000000 + 0x1000) 4096 = [0xffffffff80000000]"
  "range_step 0xffff800000000000 (0xffff800000000000 + 0x2000) 4096 = [0xffff800000000000, 0xffff800000001000]"
  "range_step 0xffff800000002000 (0xffff800000002000 + 0x2000) 4096 = [0xffff800000002000, 0xffff800000003000]"
  "range_step 0 0x1000 4096 = [0]" "range_step 0 0x2000 4096 = [0, 0x1000]"
  by (simp_all add: x86_memmap_extent_def example_boot_map_def x86_memmap_step_def max_def align_up_def
      PAGE_SIZE_def range_step_def upt_rec)

lemma example_aligned:
  "page_aligned 0xffffffff80000000" "page_aligned 0xffff800000000000" "page_aligned 0xffff800000002000"
  "high_half 4 0xffffffff80000000" "high_half 4 0xffff800000000000" "high_half 4 0xffff800000002000"
  by (simp_all add: page_aligned_def high_half_def)

lemma card_tpaths4_set: "card (\<Union>x\<in>set xs. tpaths 4 x) \<le> 4 * length xs"
proof -
  have "card (\<Union>x\<in>set xs. tpaths 4 x) \<le> (\<Sum>x\<in>set xs. card (tpaths 4 x))"
    by (rule card_UN_le) simp
  also have "\<dots> \<le> (\<Sum>x\<in>set xs. 4)"
    by (rule sum_mono) (rule card_tpaths4)
  also have "\<dots> \<le> 4 * length xs"
    using card_length [of xs] by simp
  finally show ?thesis .
qed

abbreviation example_pt_init :: "vmm_state \<Rightarrow> panic + ((usize \<times> usize) \<times> u64 \<times> vmm_state)" where
  "example_pt_init \<equiv> x86_pt_init 0xffff800000000000 0x100000 0xffffffff80000000 0xffffffff80000abc (Some ())
     (Some (0xffffffff80000000, 0x7000000)) (Some example_boot_map)"

lemma example_boot_room:
  "card (\<Union>x\<in>set [0xffffffff80000000] \<union> set [0xffff800000000000, 0xffff800000001000]. tpaths 4 x) \<le> 12"
  using card_tpaths4_set [of "[0xffff800000000000, 0xffff800000001000, 0xffffffff80000000]"] by simp

lemma example_boot_facts:
  "card (\<Union>x\<in>set [0xffffffff80000000] \<union> set [0xffff800000000000, 0xffff800000001000]. tpaths 4 x) + 2
     \<le> length (map example_vframe [9..<251])"
  "unat (0xffffffff80000000 :: u64) + unat (0x1000 :: u64) < 2 ^ 64"
  "unat (0xffff800000000000 :: u64) + unat (0x2000 :: u64) < 2 ^ 64"
  "unat (0xffff800000000000 :: u64) + unat (0x2000 :: u64) \<le> unat (0xffffffff80000000 :: u64)"
  "0 < (0x2000 :: u64)" "0 < (0x1000 :: u64)"
  "set [0xffffffff80000000 :: u64] \<inter> set [0xffff800000000000, 0xffff800000001000] = {}"
  using example_boot_room by simp_all

lemma example_vmm_boot:
  "\<exists>(s :: vmm_state) pm ps g t. kmap_inv (x86_tables 0xffff800000000000) 0xffff800000000000 s pm ps g t
     \<and> regions (vm_regions s) ps = [(0xffff800000000000, 0x2000, 7), (0xffffffff80000000, 0x1000, 6)]
     \<and> 228 \<le> slab_room g"
proof -
  from example_vmm_slab obtain s :: vmm_state and HS F where
    s: "slab_good 0xffff800000000000 s (example_vframe 8 # map example_vframe [9..<251], HS, F)"
      "mem s 0xffff800000100ff8 = 0x101003" "mem s 0xffff800000101ff0 = 0x83" "max_hhdm_phy s = None"
    unfolding example_upt by blast
  from x86_vmm_init_ok [OF s(1) example_frames_phys [unfolded example_upt] _ example_boot_lookup [OF s(2,3)],
      where kv = "0xffffffff80000000" and kp = "0x7000000" and memmap = "Some example_boot_map"
        and kstart = "0xffffffff80000000" and kend = "0xffffffff80000abc", unfolded example_sizes fst_conv snd_conv,
      OF example_boot_facts(1) example_aligned(1,4) example_boot_facts(2) example_aligned(2,5)
        example_boot_facts(3-) s(4)]
  obtain s' :: vmm_state and pm ps g t where
    r: "kmap_inv (x86_tables 0xffff800000000000) 0xffff800000000000 s' pm ps g t"
      "regions (vm_regions s') ps = [(0xffff800000000000, 0x2000, 7), (0xffffffff80000000, 0x1000, 6)]"
      "length (map example_vframe [9..<251]) \<le> slab_room g +
        card (\<Union>x\<in>set [0xffffffff80000000] \<union> set [0xffff800000000000, 0xffff800000001000]. tpaths 4 x) + 2"
    by (elim exE conjE)
  have "228 \<le> slab_room g"
    using example_boot_room r(3) by simp
  with r(1,2) show ?thesis
    by blast
qed

lemma card_missing_list4: "card (missing_list 4 t xs) \<le> 4 * length xs"
proof -
  have "card (missing_list 4 t xs) \<le> card (\<Union>x\<in>set xs. tpaths 4 x)"
    by (rule card_mono) (auto simp: missing_list_def missing_def)
  also have "\<dots> \<le> 4 * length xs"
    by (rule card_tpaths4_set)
  finally show ?thesis .
qed

text \<open>What the two-region list gives for a request of 0x1800 bytes.\<close>

lemma example_place:
  "place_region 0x2000 1 [(0xffff800000000000, 0x2000, 7), (0xffffffff80000000, 0x1000, 6)] =
     Some (0xffff800000002000, [(0xffff800000000000, 0x2000, 7), (0xffff800000002000, 0x2000, 1),
       (0xffffffff80000000, 0x1000, 6)])"
  "regions_ok [(0xffff800000000000, 0x2000, 7), (0xffffffff80000000, 0x1000, 6)]"
  "\<not> contains 1 VMM_USER"
  by (simp_all add: place_region_def region_end_def PAGE_SIZE_def regions_ok_def contains_def VMM_USER_def)

lemma example_rv_boot:
  "\<exists>(s :: vmm_state) pm ps g t. kmap_inv (rv_tables 0xffff800000000000 4) 0xffff800000000000 s pm ps g t
     \<and> regions (vm_regions s) ps = [(0xffff800000000000, 0x2000, 7), (0xffffffff80000000, 0x1000, 6)]
     \<and> 228 \<le> slab_room g \<and> (\<forall>va. rv_mmu 0xffff800000000000 4 (arch_page pm + 0xffff800000000000) va (mem s) = None)"
proof -
  let ?hh = "0xffff800000000000 :: u64" and ?v = "example_vframe 8"
  define vs where "vs = map example_vframe [9..<251]"
  let ?t = "[[] \<mapsto> ?v] :: nat list \<Rightarrow> u64 option"
  from example_vmm_slab obtain s :: vmm_state and HS F where s: "slab_good ?hh s (?v # vs, HS, F)"
    unfolding example_upt vs_def by blast
  have free: "pmm_phys ?hh s (?v # vs)"
    using slab_good_free [OF s] example_frames_phys unfolding example_upt vs_def [symmetric] pmm_phys_def by blast
  from pmm_ph.al_ok [OF free] obtain s1 where
    s1: "allocate_page ?hh s = Inr (?v, s1)" "pmm_phys ?hh s1 vs" "mem s1 = zero_bytes ?v 4096 (mem s)"
    by blast
  have v: "phys_frame ?hh ?v" "page_aligned ?v"
    using example_vframe_facts(2) [of 8] by (auto simp: phys_frame_def)
  have hs: "set (?v # vs) \<inter> set (concat HS) = {}"
    by (rule slab_good_disjoint [OF s])
  have "agree_on (set (concat HS)) (mem s) (mem s1)"
    using s1(3) hs unfolding agree_on_def zero_bytes_page [OF v(2)] by auto
  then have good1: "slab_good ?hh s1 (vs, HS, F)"
    using slab_good_frame(1) [OF s _ _ allocate_page_more [OF s1(1)], of vs] s1(2) hs by (auto simp: pmm_phys_def)
  have t: "rv_tables ?hh 4 ?v ?t (mem s1)"
    by (rule tables_fresh) (use v s1(3) in \<open>auto simp: zero_bytes_page\<close>)
  have "distinct (?v # vs)"
    using free pmm_free_distinct unfolding pmm_phys_def by blast
  then have "?v \<notin> slab_pages vs HS"
    using hs by (auto simp: slab_pages_def)
  moreover have "ran ?t = {?v}"
    by (auto simp: ran_def)
  ultimately have tdis: "ran ?t \<inter> slab_pages vs HS = {}"
    by simp
  have frame: "\<forall>m m'. rv_tables ?hh 4 ?v ?t m \<longrightarrow> agree_on (ran ?t) m m' \<longrightarrow> rv_tables ?hh 4 ?v ?t m'"
    using rv.tables_frame [of ?hh 3] by simp
  have fr: "\<forall>p\<in>set vs. phys_frame ?hh p" "length vs = 242"
    using example_frames_phys unfolding example_upt vs_def [symmetric] by (simp, simp add: vs_def)
  have two: "2 \<le> length vs"
    using fr(2) by simp
  let ?pt = "\<lambda>s. and_then (allocate_page ?hh s) (\<lambda>(p, s'). Inr ((0x2000, 0x1000), p - ?hh, s'))"
  have pt: "?pt s = Inr ((0x2000, 0x1000), ?v - ?hh, s1)"
    using s1(1) by simp
  from kmap_inv_init [where tab = "rv_tables ?hh 4" and pt_init = ?pt and kv = "0xffffffff80000000" and kp = 0,
      OF good1 two fr(1) t tdis frame pt] obtain s' :: vmm_state and pm ps g where
    r: "kmap_inv (rv_tables ?hh 4) ?hh s' pm ps g ?t" "arch_page pm = ?v - ?hh"
      "regions (vm_regions s') ps = [(?hh, 0x2000, 7), (0xffffffff80000000, 0x1000, 6)]"
      "length vs \<le> slab_room g + 2"
    by (elim exE conjE)
  have t': "rv_tables ?hh (Suc 3) ?v ?t (mem s')"
    using r(1,2) by (simp add: kmap_inv_def)
  have "butlast (vpath 4 va) \<noteq> []" for va
  proof -
    have "length (butlast (vpath 4 va)) = 3" by simp
    then show ?thesis by fastforce
  qed
  then have "rv_mmu ?hh 4 (arch_page pm + ?hh) va (mem s') = None" for va
    using rv.walk_eq [OF t', of va] r(2) by (simp add: rv_mmu_def leaf_cell_def)
  moreover have "228 \<le> slab_room g"
    using r(4) fr(2) by simp
  ultimately show ?thesis
    using r(1,3) by blast
qed

section \<open>Properties\<close>

text \<open>
  C13: after the slab allocator is up, \<^verbatim>\<open>vmm_init\<close> with the \<^verbatim>\<open>pt_init\<close> of x86_64 leaves a
  kernel map in which everything the later operations rely on holds: well-formed
  tables apart from the slabs and the free list, the direct map and the kernel
  image on the region list in address order, and both of them, and nothing else,
  translated by the processor.
\<close>

theorem x86_boot_kernel_map:
  fixes hh cr3 kstart kend kv kp :: u64 and memmap :: "memmap_entry list option" and s :: "'z vmm_state_scheme"
  defines "ksize \<equiv> align_up (kend - kstart) PAGE_SIZE"
    and "mx \<equiv> align_up (fst (x86_memmap_extent memmap)) PAGE_SIZE"
    and "fb \<equiv> snd (x86_memmap_extent memmap)"
  defines "kpages \<equiv> range_step kv (kv + ksize) 4096" and "hpages \<equiv> range_step hh (hh + mx) 4096"
  assumes "slab_good hh s (v # vs, HS, F)" "\<forall>p\<in>set (v # vs). phys_frame hh p"
    and "card (\<Union>x\<in>set kpages \<union> set hpages. tpaths 4 x) + 2 \<le> length vs"
    and "x86_get_table hh (page_of cr3 AND 0x7FFFFFFFFFFFFFFF) 0xffffffff80015000 False s = Inr (Inr p, s)"
    and "page_aligned kv" "high_half 4 kv" "unat kv + unat ksize < 2 ^ 64"
    and "page_aligned hh" "high_half 4 hh" "unat hh + unat mx < 2 ^ 64"
    and "unat hh + unat mx \<le> unat kv" "0 < mx" "0 < ksize"
    and "set kpages \<inter> set hpages = {}" "max_hhdm_phy s = None"
  shows "\<exists>s' pm ps g t. vmm_init hh (x86_pt_init hh cr3 kstart kend (Some ()) (Some (kv, kp)) memmap) (Some (kv, kp)) s = Inr s'
     \<and> kermap s' = Some pm \<and> kmap_inv (x86_tables hh) hh s' pm ps g t
     \<and> regions (vm_regions s') ps = [(hh, mx, 7), (kv, ksize, 6)] \<and> regions_ok (regions (vm_regions s') ps)
     \<and> max_hhdm_phy s' = Some mx
     \<and> (\<forall>i\<in>set (range_step 0 ksize 4096). x86_mmu hh (arch_page pm + hh) (kv + i) (mem s') =
          Some (x86_pte (kp + i) (PT_GLOBAL OR PT_PRESENT OR PT_WRITE)))
     \<and> (\<forall>i\<in>set (range_step 0 mx 4096). x86_mmu hh (arch_page pm + hh) (hh + i) (mem s') =
          Some (x86_pte i (x86_hhdm_flags fb i)))
     \<and> (\<forall>vb. vpn 4 vb \<notin> vpn 4 ` (set kpages \<union> set hpages) \<longrightarrow> x86_mmu hh (arch_page pm + hh) vb (mem s') = None)"
  using x86_vmm_init_ok [OF assms(6-20) [unfolded assms(1-5)], of kp] unfolding assms(1-5) by blast

theorem x86_boot_kernel_map_witness:
  "\<exists>s s' pm. init_slab 0xffff800000000000 example_vmm = Inr s
     \<and> vmm_init 0xffff800000000000 example_pt_init (Some (0xffffffff80000000, 0x7000000)) s = Inr s'
     \<and> kermap s' = Some pm \<and> max_hhdm_phy s' = Some 0x2000
     \<and> x86_mmu 0xffff800000000000 (arch_page pm + 0xffff800000000000) 0xffffffff80000000 (mem s') = Some 0x7000103"
proof -
  from example_vmm_slab obtain s :: vmm_state and HS F where
    s: "slab_good 0xffff800000000000 s (example_vframe 8 # map example_vframe [9..<251], HS, F)"
      "mem s 0xffff800000100ff8 = 0x101003" "mem s 0xffff800000101ff0 = 0x83" "max_hhdm_phy s = None"
      "init_slab 0xffff800000000000 example_vmm = Inr s"
    unfolding example_upt by blast
  from x86_boot_kernel_map [OF s(1) example_frames_phys [unfolded example_upt] _ example_boot_lookup [OF s(2,3)],
      where kv = "0xffffffff80000000" and kp = "0x7000000" and memmap = "Some example_boot_map"
        and kstart = "0xffffffff80000000" and kend = "0xffffffff80000abc", unfolded example_sizes fst_conv snd_conv,
      OF example_boot_facts(1) example_aligned(1,4) example_boot_facts(2) example_aligned(2,5)
        example_boot_facts(3-) s(4)]
  obtain s' :: vmm_state and pm where
    r: "vmm_init 0xffff800000000000 example_pt_init (Some (0xffffffff80000000, 0x7000000)) s = Inr s'"
      "kermap s' = Some pm" "max_hhdm_phy s' = Some 0x2000"
      "\<forall>i\<in>set [0]. x86_mmu 0xffff800000000000 (arch_page pm + 0xffff800000000000) (0xffffffff80000000 + i) (mem s')
        = Some (x86_pte (0x7000000 + i) (PT_GLOBAL OR PT_PRESENT OR PT_WRITE))"
    by (elim exE conjE)
  have "x86_pte 0x7000000 (PT_GLOBAL OR PT_PRESENT OR PT_WRITE) = 0x7000103"
    by (simp add: x86_pte_def x86_extract_phys_from_pte_def x86_build_permissions_def contains_def PT_defs)
  with r s(5) show ?thesis
    by simp
qed

text \<open>
  C2: \<^verbatim>\<open>vmm_alloc\<close> on x86_64. When the first-fit search has a gap and frames are left,
  it returns the start of the gap, links the region there, and maps every page of
  it to a fresh frame of its own with the flags asked for; all other translations
  stay, the regions stay in order with an unmapped page before the next one, and
  the whole invariant holds again.
\<close>

theorem x86_vmm_alloc_maps:
  fixes amount :: usize
  defines "len \<equiv> align_up amount PAGE_SIZE"
  assumes "kmap_inv (x86_tables hh) hh s pm ps g t" "\<not> contains flags VMM_USER"
    and "regions_ok (regions (vm_regions s) ps)" "0 < len" "unat len < 2 ^ 63"
    and "place_region len flags (regions (vm_regions s) ps) = Some (b, rs')"
    and "xs = range_step b (b + len) 4096" "page_aligned b" "high_half 4 b"
    and "length xs + card (missing_list 4 t xs) < slab_room g"
  shows "\<exists>s' ps' g' t' fs. vmm_alloc hh (x86_arch hh) pm amount flags s = Inr (b, s')
     \<and> kmap_inv (x86_tables hh) hh s' pm ps' g' t' \<and> regions (vm_regions s') ps' = rs' \<and> regions_ok rs'
     \<and> set rs' = insert (b, len, flags) (set (regions (vm_regions s) ps))
     \<and> (\<forall>r\<in>set (regions (vm_regions s) ps). region_addrs r \<inter> {unat b..<unat b + unat len + 4096} = {})
     \<and> length fs = length xs \<and> distinct fs \<and> set fs \<subseteq> set (fst g)
     \<and> set fs \<inter> (ran t' \<union> slab_pages (fst g') (fst (snd g'))) = {}
     \<and> (\<forall>k<length xs. x86_mmu hh (arch_page pm + hh) (xs ! k) (mem s') =
          Some (x86_pte (fs ! k - hh) (x86_from_vmmflags flags)))
     \<and> (\<forall>va. vpn 4 va \<notin> vpn 4 ` set xs \<longrightarrow>
          x86_mmu hh (arch_page pm + hh) va (mem s') = x86_mmu hh (arch_page pm + hh) va (mem s))"
  using x86_vmm_alloc_region [OF assms(2-) [unfolded len_def]] unfolding len_def by blast

theorem x86_vmm_alloc_maps_witness:
  "\<exists>(s :: vmm_state) pm s' f. vmm_alloc 0xffff800000000000 (x86_arch 0xffff800000000000) pm 0x1800 1 s
        = Inr (0xffff800000002000, s')
     \<and> x86_mmu 0xffff800000000000 (arch_page pm + 0xffff800000000000) 0xffff800000003000 (mem s')
        = Some (x86_pte f (x86_from_vmmflags 1))"
proof -
  from example_vmm_boot obtain s :: vmm_state and pm ps g t where
    b: "kmap_inv (x86_tables 0xffff800000000000) 0xffff800000000000 s pm ps g t"
      "regions (vm_regions s) ps = [(0xffff800000000000, 0x2000, 7), (0xffffffff80000000, 0x1000, 6)]"
      "228 \<le> slab_room g"
    by blast
  have len: "0 < (0x2000 :: u64)" "unat (0x2000 :: u64) < 2 ^ 63"
    by simp_all
  have room: "length [0xffff800000002000, 0xffff800000003000 :: u64]
      + card (missing_list 4 t [0xffff800000002000, 0xffff800000003000]) < slab_room g"
    using card_missing_list4 [of t "[0xffff800000002000, 0xffff800000003000]"] b(3) by simp
  from x86_vmm_alloc_maps [where amount = "0x1800", unfolded example_sizes, OF b(1) example_place(3)
      example_place(2) [folded b(2)] len example_place(1) [folded b(2)] example_sizes(7) [symmetric]
      example_aligned(3,6) room]
  obtain s' :: vmm_state and fs where
    r: "vmm_alloc 0xffff800000000000 (x86_arch 0xffff800000000000) pm 0x1800 1 s = Inr (0xffff800000002000, s')"
      "\<forall>k<length [0xffff800000002000, 0xffff800000003000 :: u64].
        x86_mmu 0xffff800000000000 (arch_page pm + 0xffff800000000000) ([0xffff800000002000, 0xffff800000003000] ! k)
          (mem s') = Some (x86_pte (fs ! k - 0xffff800000000000) (x86_from_vmmflags 1))"
    by (elim exE conjE)
  from r(2) [rule_format, of 1] r(1) show ?thesis
    by auto
qed

text \<open>
  C14: on riscv64, in every paging mode, releasing with \<^verbatim>\<open>vmm_dealloc\<close> what
  \<^verbatim>\<open>vmm_alloc\<close> has returned restores the region list and every translation, and the
  invariant holds again.
\<close>

theorem rv_vmm_roundtrip:
  fixes mode :: paging_mode and amount :: usize
  defines "lv \<equiv> rv_sv_levels mode 3" and "len \<equiv> align_up amount PAGE_SIZE"
  assumes "kmap_inv (rv_tables hh lv) hh s pm ps g t" "\<not> contains flags VMM_USER"
    and "regions_ok (regions (vm_regions s) ps)" "0 < len" "unat len < 2 ^ 63"
    and "place_region len flags (regions (vm_regions s) ps) = Some (b, rs')"
    and "xs = range_step b (b + len) 4096" "page_aligned b" "high_half lv b" "b \<noteq> 0"
    and "length xs + card (missing_list lv t xs) < slab_room g"
    and "\<forall>va. vpn lv va \<in> vpn lv ` set xs \<longrightarrow> rv_mmu hh lv (arch_page pm + hh) va (mem s) = None"
  shows "\<exists>s1 s2 ps' g' t'. vmm_alloc hh (rv_arch hh lv) pm amount flags s = Inr (b, s1)
     \<and> vmm_dealloc (rv_arch hh lv) pm b False s1 = Inr (pm, s2) \<and> kmap_inv (rv_tables hh lv) hh s2 pm ps' g' t'
     \<and> regions (vm_regions s2) ps' = regions (vm_regions s) ps
     \<and> (\<forall>va. rv_mmu hh lv (arch_page pm + hh) va (mem s2) = rv_mmu hh lv (arch_page pm + hh) va (mem s))"
proof -
  have lv: "lv = Suc (rv_top mode)"
    unfolding lv_def by (rule rv_levels_Suc)
  show ?thesis
    using rv_region.vmm_roundtrip [of hh mode s pm ps g t flags len amount b rs' xs] assms(3-)
    unfolding rv_mmu_def lv len_def by blast
qed

theorem rv_vmm_roundtrip_witness:
  "\<exists>(s :: vmm_state) pm s1 s2. vmm_alloc 0xffff800000000000 (rv_arch 0xffff800000000000 4) pm 0x1800 1 s
        = Inr (0xffff800000002000, s1)
     \<and> vmm_dealloc (rv_arch 0xffff800000000000 4) pm 0xffff800000002000 False s1 = Inr (pm, s2)"
proof -
  from example_rv_boot obtain s :: vmm_state and pm ps g t where
    b: "kmap_inv (rv_tables 0xffff800000000000 4) 0xffff800000000000 s pm ps g t"
      "regions (vm_regions s) ps = [(0xffff800000000000, 0x2000, 7), (0xffffffff80000000, 0x1000, 6)]"
      "228 \<le> slab_room g" "\<forall>va. rv_mmu 0xffff800000000000 4 (arch_page pm + 0xffff800000000000) va (mem s) = None"
    by blast
  have len: "0 < (0x2000 :: u64)" "unat (0x2000 :: u64) < 2 ^ 63" "(0xffff800000002000 :: u64) \<noteq> 0"
    by simp_all
  have lv: "rv_sv_levels RISCV_SV48 3 = 4"
    by (simp add: rv_sv_levels_def)
  have room: "length [0xffff800000002000, 0xffff800000003000 :: u64]
      + card (missing_list 4 t [0xffff800000002000, 0xffff800000003000]) < slab_room g"
    using card_missing_list4 [of t "[0xffff800000002000, 0xffff800000003000]"] b(3) by simp
  have none: "\<forall>va. vpn 4 va \<in> vpn 4 ` set [0xffff800000002000, 0xffff800000003000] \<longrightarrow>
      rv_mmu 0xffff800000000000 4 (arch_page pm + 0xffff800000000000) va (mem s) = None"
    using b(4) by blast
  from rv_vmm_roundtrip [where amount = "0x1800" and mode = RISCV_SV48, unfolded example_sizes lv, OF b(1) example_place(3)
      example_place(2) [folded b(2)] len(1,2) example_place(1) [folded b(2)] example_sizes(7) [symmetric]
      example_aligned(3,6) len(3) room none]
  show ?thesis
    by blast
qed

end
