(* ===== verification/Locks.thy ===== *)
theory Locks
  imports Prelude
begin

text \<open>
  The locks of \<^verbatim>\<open>kernel/src/util/mod.rs\<close> on several processors: \<^verbatim>\<open>SpinLock\<close>,
  \<^verbatim>\<open>RWSpinLock\<close> and \<^verbatim>\<open>Once\<close>. A processor is a number; its program counter tells the
  next atomic access of the operation it is in, and its interrupt flag is part of the
  state, since the locks save and restore it. An interleaving is a list of
  processors. Every atomic access is one step; a sequentially consistent memory is
  assumed, which the acquire and release orderings of the source give for the data
  the locks protect. Disabling interrupts clears the flag, as the x86_64
  \<^verbatim>\<open>disable_interrupts\<close> does; the riscv64 one sets it (\<open>rv_disable_interrupts\<close> of
  \<^verbatim>\<open>RvCpu\<close>), so what is said here of the flag is about x86_64.
\<close>

section \<open>SpinLock\<close>

record SpinLock =
  sl_held :: bool
  sl_prev :: bool

definition SpinLock_new :: SpinLock where
  "SpinLock_new = \<lparr>sl_held = False, sl_prev = False\<rparr>"

text \<open>
  Where a processor is: outside; before the swap, with the flag it found; spinning
  after a swap that returned true; before the store of the flag; inside; in
  \<^verbatim>\<open>unlock\<close> after the load of the flag; and after the release.
\<close>

datatype spin_pc = SOut | SSwap bool | SSpin bool | SSave bool | SIn | SFree bool | SRest bool

record spin_sys =
  sy_lock :: SpinLock
  sy_pc :: "nat \<Rightarrow> spin_pc"
  sy_intr :: "nat \<Rightarrow> bool"
  sy_entry :: "nat \<Rightarrow> bool"

text \<open>
  One step of processor \<open>c\<close>. From outside it calls \<^verbatim>\<open>lock\<close> and from inside
  \<^verbatim>\<open>unlock\<close>. \<open>sy_entry\<close> remembers the interrupt flag at the call of \<^verbatim>\<open>lock\<close>; no step
  reads it.
\<close>

definition spin_step :: "nat \<Rightarrow> spin_sys \<Rightarrow> spin_sys" where
  "spin_step c s =
     (case sy_pc s c of
        SOut \<Rightarrow> s\<lparr>sy_pc := (sy_pc s)(c := SSwap (sy_intr s c)), sy_intr := (sy_intr s)(c := False),
          sy_entry := (sy_entry s)(c := sy_intr s c)\<rparr>
      | SSwap prev \<Rightarrow>
          if sl_held (sy_lock s)
          then s\<lparr>sy_pc := (sy_pc s)(c := SSpin prev), sy_intr := (sy_intr s)(c := (if prev then True else sy_intr s c))\<rparr>
          else s\<lparr>sy_lock := (sy_lock s)\<lparr>sl_held := True\<rparr>, sy_pc := (sy_pc s)(c := SSave prev)\<rparr>
      | SSpin prev \<Rightarrow> s\<lparr>sy_pc := (sy_pc s)(c := SSwap prev), sy_intr := (sy_intr s)(c := False)\<rparr>
      | SSave prev \<Rightarrow> s\<lparr>sy_lock := (sy_lock s)\<lparr>sl_prev := prev\<rparr>, sy_pc := (sy_pc s)(c := SIn)\<rparr>
      | SIn \<Rightarrow> s\<lparr>sy_pc := (sy_pc s)(c := SFree (sl_prev (sy_lock s)))\<rparr>
      | SFree prev \<Rightarrow> s\<lparr>sy_lock := (sy_lock s)\<lparr>sl_held := False\<rparr>, sy_pc := (sy_pc s)(c := SRest prev)\<rparr>
      | SRest prev \<Rightarrow> s\<lparr>sy_pc := (sy_pc s)(c := SOut), sy_intr := (sy_intr s)(c := (if prev then True else sy_intr s c))\<rparr>)"

text \<open>Outside the lock a processor may change its interrupt flag.\<close>

datatype spin_ev = Step nat | SetIntr nat bool

fun spin_event :: "spin_ev \<Rightarrow> spin_sys \<Rightarrow> spin_sys" where
  "spin_event (Step c) s = spin_step c s"
| "spin_event (SetIntr c b) s = (if sy_pc s c = SOut then s\<lparr>sy_intr := (sy_intr s)(c := b)\<rparr> else s)"

definition spin_start :: "(nat \<Rightarrow> bool) \<Rightarrow> spin_sys" where
  "spin_start intr = \<lparr>sy_lock = SpinLock_new, sy_pc = \<lambda>_. SOut, sy_intr = intr, sy_entry = \<lambda>_. False\<rparr>"

fun owns :: "spin_pc \<Rightarrow> bool" where
  "owns (SSave _) = True"
| "owns SIn = True"
| "owns (SFree _) = True"
| "owns _ = False"

fun spin_prev :: "spin_pc \<Rightarrow> bool option" where
  "spin_prev SOut = None"
| "spin_prev SIn = None"
| "spin_prev (SSwap b) = Some b"
| "spin_prev (SSpin b) = Some b"
| "spin_prev (SSave b) = Some b"
| "spin_prev (SFree b) = Some b"
| "spin_prev (SRest b) = Some b"

text \<open>The invariant, with the processor that owns the lock.\<close>

definition spin_inv :: "spin_sys \<Rightarrow> nat option \<Rightarrow> bool" where
  "spin_inv s ow \<longleftrightarrow>
     (\<forall>c. owns (sy_pc s c) \<longleftrightarrow> ow = Some c)
     \<and> (sl_held (sy_lock s) \<longleftrightarrow> ow \<noteq> None)
     \<and> (\<forall>c b. spin_prev (sy_pc s c) = Some b \<longrightarrow> b = sy_entry s c)
     \<and> (\<forall>c. sy_pc s c = SIn \<longrightarrow> sl_prev (sy_lock s) = sy_entry s c)
     \<and> (\<forall>c b. sy_pc s c = SSpin b \<longrightarrow> sy_intr s c = b)
     \<and> (\<forall>c. sy_pc s c \<noteq> SOut \<longrightarrow> (\<forall>b. sy_pc s c \<noteq> SSpin b) \<longrightarrow> \<not> sy_intr s c)"

fun spin_owner :: "nat \<Rightarrow> spin_sys \<Rightarrow> nat option \<Rightarrow> nat option" where
  "spin_owner c s ow =
     (case sy_pc s c of
        SSwap _ \<Rightarrow> if sl_held (sy_lock s) then ow else Some c
      | SFree _ \<Rightarrow> None
      | _ \<Rightarrow> ow)"

lemma spin_inv_start: "spin_inv (spin_start intr) None"
  by (simp add: spin_inv_def spin_start_def SpinLock_new_def)

lemma spin_owns: "spin_inv s ow \<Longrightarrow> owns (sy_pc s c) \<longleftrightarrow> ow = Some c"
  by (simp add: spin_inv_def)

lemma owns_SIn: "spin_inv s ow \<Longrightarrow> sy_pc s c = SIn \<Longrightarrow> ow = Some c"
  using spin_owns by force

lemma spin_inv_step:
  assumes "spin_inv s ow"
  shows "spin_inv (spin_step c s) (spin_owner c s ow)"
  using assms owns_SIn [OF assms] spin_owns [OF assms, of c] unfolding spin_inv_def spin_step_def
  by (cases "sy_pc s c") (auto split: if_splits)

lemma spin_inv_event: "spin_inv s ow \<Longrightarrow> \<exists>ow'. spin_inv (spin_event e s) ow'"
proof (cases e)
  case (SetIntr c b)
  assume "spin_inv s ow"
  then have "spin_inv (spin_event e s) ow"
    by (auto simp: SetIntr spin_inv_def)
  then show ?thesis ..
qed (auto intro: spin_inv_step)

lemma spin_inv_run: "spin_inv s ow \<Longrightarrow> \<exists>ow'. spin_inv (fold spin_event es s) ow'"
  by (rule fold_invariant [where P = "\<lambda>s. \<exists>ow. spin_inv s ow" and Q = "\<lambda>_. True"]) (auto intro: spin_inv_event)

text \<open>A processor that waits for the lock.\<close>

fun waits :: "spin_pc \<Rightarrow> bool" where
  "waits (SSwap _) = True"
| "waits (SSpin _) = True"
| "waits _ = False"

lemma spin_pc_other: "d \<noteq> c \<Longrightarrow> sy_pc (spin_step c s) d = sy_pc s d"
  by (auto simp: spin_step_def split: spin_pc.splits)

lemma spin_release:
  assumes "spin_inv s (Some d)"
  shows "\<exists>n\<le>3. spin_inv ((spin_step d ^^ n) s) None \<and> (\<forall>c. c \<noteq> d \<longrightarrow> sy_pc ((spin_step d ^^ n) s) c = sy_pc s c)"
proof -
  have free: "\<exists>n\<le>1. spin_inv ((spin_step d ^^ n) t) None \<and> (\<forall>c. c \<noteq> d \<longrightarrow> sy_pc ((spin_step d ^^ n) t) c = sy_pc t c)"
    if "spin_inv t (Some d)" "sy_pc t d = SFree b" for t b
    using that spin_inv_step [of t "Some d" d] by (intro exI [of _ 1]) (simp add: spin_pc_other)
  have inside: "\<exists>n\<le>2. spin_inv ((spin_step d ^^ n) t) None \<and> (\<forall>c. c \<noteq> d \<longrightarrow> sy_pc ((spin_step d ^^ n) t) c = sy_pc t c)"
    if t: "spin_inv t (Some d)" "sy_pc t d = SIn" for t
  proof -
    have "spin_inv (spin_step d t) (Some d)" "sy_pc (spin_step d t) d = SFree (sl_prev (sy_lock t))"
      using t spin_inv_step [of t "Some d" d] by (simp_all add: spin_step_def)
    from free [OF this] obtain n where "n \<le> 1" "spin_inv ((spin_step d ^^ n) (spin_step d t)) None"
      "\<forall>c. c \<noteq> d \<longrightarrow> sy_pc ((spin_step d ^^ n) (spin_step d t)) c = sy_pc (spin_step d t) c"
      by blast
    then show ?thesis
      by (intro exI [of _ "Suc n"]) (simp add: funpow_Suc_right spin_pc_other del: funpow.simps)
  qed
  have saving: "\<exists>n\<le>3. spin_inv ((spin_step d ^^ n) t) None \<and> (\<forall>c. c \<noteq> d \<longrightarrow> sy_pc ((spin_step d ^^ n) t) c = sy_pc t c)"
    if t: "spin_inv t (Some d)" "sy_pc t d = SSave b" for t b
  proof -
    have "spin_inv (spin_step d t) (Some d)" "sy_pc (spin_step d t) d = SIn"
      using t spin_inv_step [of t "Some d" d] by (simp_all add: spin_step_def)
    from inside [OF this] obtain n where "n \<le> 2" "spin_inv ((spin_step d ^^ n) (spin_step d t)) None"
      "\<forall>c. c \<noteq> d \<longrightarrow> sy_pc ((spin_step d ^^ n) (spin_step d t)) c = sy_pc (spin_step d t) c"
      by blast
    then show ?thesis
      by (intro exI [of _ "Suc n"]) (simp add: funpow_Suc_right spin_pc_other del: funpow.simps)
  qed
  from spin_owns [OF assms, of d] show ?thesis
  proof (cases "sy_pc s d")
    case (SSave b)
    then show ?thesis by (rule saving [OF assms])
  next
    case SIn
    from inside [OF assms this] obtain n where
      "n \<le> 2" "spin_inv ((spin_step d ^^ n) s) None" "\<forall>c. c \<noteq> d \<longrightarrow> sy_pc ((spin_step d ^^ n) s) c = sy_pc s c"
      by blast
    then show ?thesis by (intro exI [of _ n]) auto
  next
    case (SFree b)
    from free [OF assms this] obtain n where
      "n \<le> 1" "spin_inv ((spin_step d ^^ n) s) None" "\<forall>c. c \<noteq> d \<longrightarrow> sy_pc ((spin_step d ^^ n) s) c = sy_pc s c"
      by blast
    then show ?thesis by (intro exI [of _ n]) auto
  qed auto
qed

lemma spin_acquire:
  assumes "spin_inv s None" "waits (sy_pc s c)"
  shows "\<exists>n\<le>3. sy_pc ((spin_step c ^^ n) s) c = SIn"
proof -
  have swap: "sy_pc ((spin_step c ^^ 2) t) c = SIn" if "spin_inv t None" "sy_pc t c = SSwap b" for t b
    using that by (simp add: numeral_2_eq_2 spin_step_def spin_inv_def)
  show ?thesis
  proof (cases "sy_pc s c")
    case (SSwap b)
    from swap [OF assms(1) this] show ?thesis
      by (intro exI [of _ 2]) simp
  next
    case (SSpin b)
    then have "spin_inv (spin_step c s) None" "sy_pc (spin_step c s) c = SSwap b"
      using spin_inv_step [OF assms(1), of c] by (simp_all add: spin_step_def)
    from swap [OF this] show ?thesis
      by (intro exI [of _ 3]) (simp add: numeral_3_eq_3 numeral_2_eq_2)
  qed (use assms in auto)
qed

lemma spin_progress:
  assumes "spin_inv s ow" "waits (sy_pc s c)"
  shows "\<exists>ds. length ds \<le> 6 \<and> (\<forall>d \<in> set ds. d = c \<or> ow = Some d) \<and> sy_pc (fold spin_step ds s) c = SIn"
proof (cases ow)
  case None
  from spin_acquire [OF assms [unfolded None]] obtain n where "n \<le> 3" "sy_pc ((spin_step c ^^ n) s) c = SIn"
    by blast
  then show ?thesis
    by (intro exI [of _ "replicate n c"]) (auto simp: fold_replicate)
next
  case (Some d)
  have "c \<noteq> d"
    using spin_owns [OF assms(1), of c] assms(2) Some by (cases "sy_pc s c") auto
  from spin_release [OF assms(1) [unfolded Some]] obtain n where
    n: "n \<le> 3" "spin_inv ((spin_step d ^^ n) s) None" "sy_pc ((spin_step d ^^ n) s) c = sy_pc s c"
    using \<open>c \<noteq> d\<close> by blast
  from spin_acquire [OF n(2), of c] n(3) assms(2) obtain k where
    "k \<le> 3" "sy_pc ((spin_step c ^^ k) ((spin_step d ^^ n) s)) c = SIn"
    by auto
  with n(1) Some show ?thesis
    by (intro exI [of _ "replicate n d @ replicate k c"]) (auto simp: fold_replicate)
qed

section \<open>One processor\<close>

text \<open>
  \<^verbatim>\<open>lock\<close> and \<^verbatim>\<open>unlock\<close> as one processor sees them when no other holds the lock: the
  calls other components make. With interrupts off and the lock held by the caller
  itself \<^verbatim>\<open>lock\<close> spins for ever.
\<close>

definition SpinLock_lock :: "bool \<times> SpinLock \<Rightarrow> panic + (bool \<times> SpinLock)" where
  "SpinLock_lock il =
     (case il of (intr, l) \<Rightarrow>
        if sl_held l then Inl OutOfFuel else Inr (False, \<lparr>sl_held = True, sl_prev = intr\<rparr>))"

definition SpinLock_unlock :: "bool \<times> SpinLock \<Rightarrow> bool \<times> SpinLock" where
  "SpinLock_unlock il =
     (case il of (intr, l) \<Rightarrow> (if sl_prev l then True else intr, l\<lparr>sl_held := False\<rparr>))"

lemma SpinLock_lock_steps:
  assumes "sy_pc s c = SOut" "\<not> sl_held (sy_lock s)"
  shows "SpinLock_lock (sy_intr s c, sy_lock s)
     = Inr (sy_intr ((spin_step c ^^ 3) s) c, sy_lock ((spin_step c ^^ 3) s))
   \<and> sy_pc ((spin_step c ^^ 3) s) c = SIn"
  using assms by (simp add: SpinLock_lock_def numeral_3_eq_3 spin_step_def)

lemma SpinLock_unlock_steps:
  assumes "sy_pc s c = SIn"
  shows "SpinLock_unlock (sy_intr s c, sy_lock s) = (sy_intr ((spin_step c ^^ 3) s) c, sy_lock ((spin_step c ^^ 3) s))
   \<and> sy_pc ((spin_step c ^^ 3) s) c = SOut"
  using assms by (simp add: SpinLock_unlock_def numeral_3_eq_3 spin_step_def)

section \<open>Reader-writer lock\<close>

text \<open>
  Where a processor is in \<^verbatim>\<open>lock_read\<close>, \<^verbatim>\<open>lock_write\<close> or the drop of a guard, with the
  interrupt flag it found and, before the exchange of a reader, the value it loaded.
\<close>

datatype rw_pc = ROut | RLoad bool | RCas bool u32 | RSpin bool | RIn bool | WCas bool | WSpin bool | WIn bool | RwRest bool

record rw_sys =
  rw_cnt :: u32
  rw_pc :: "nat \<Rightarrow> rw_pc"
  rw_intr :: "nat \<Rightarrow> bool"
  rw_entry :: "nat \<Rightarrow> bool"

definition rw_start :: "(nat \<Rightarrow> bool) \<Rightarrow> rw_sys" where
  "rw_start intr = \<lparr>rw_cnt = 0, rw_pc = \<lambda>_. ROut, rw_intr = intr, rw_entry = \<lambda>_. False\<rparr>"

definition rw_goto :: "nat \<Rightarrow> rw_pc \<Rightarrow> rw_sys \<Rightarrow> rw_sys" where
  "rw_goto c p s = s\<lparr>rw_pc := (rw_pc s)(c := p)\<rparr>"

definition rw_set_intr :: "nat \<Rightarrow> bool \<Rightarrow> rw_sys \<Rightarrow> rw_sys" where
  "rw_set_intr c b s = s\<lparr>rw_intr := (rw_intr s)(c := b)\<rparr>"

text \<open>The start of \<^verbatim>\<open>lock_read\<close> and \<^verbatim>\<open>lock_write\<close>: read the flag and disable interrupts.\<close>

definition lock_read_call :: "nat \<Rightarrow> rw_sys \<Rightarrow> rw_sys" where
  "lock_read_call c s = rw_goto c (RLoad (rw_intr s c)) (rw_set_intr c False s\<lparr>rw_entry := (rw_entry s)(c := rw_intr s c)\<rparr>)"

definition lock_write_call :: "nat \<Rightarrow> rw_sys \<Rightarrow> rw_sys" where
  "lock_write_call c s = rw_goto c (WCas (rw_intr s c)) (rw_set_intr c False s\<lparr>rw_entry := (rw_entry s)(c := rw_intr s c)\<rparr>)"

text \<open>
  The next step of \<open>c\<close>; \<open>weak\<close> is a spurious failure of \<^verbatim>\<open>compare_exchange_weak\<close>.
  Failing, a processor restores its interrupt flag for one pause.
\<close>

definition rw_pause :: "nat \<Rightarrow> bool \<Rightarrow> rw_pc \<Rightarrow> rw_sys \<Rightarrow> rw_sys" where
  "rw_pause c prev p s = rw_goto c p (if prev then rw_set_intr c True s else s)"

definition rw_step :: "nat \<Rightarrow> bool \<Rightarrow> rw_sys \<Rightarrow> rw_sys" where
  "rw_step c weak s =
     (case rw_pc s c of
        ROut \<Rightarrow> s
      | RLoad prev \<Rightarrow>
          let old = rw_cnt s
          in if old \<ge> - 1 - 1 then rw_pause c prev (RSpin prev) s else rw_goto c (RCas prev old) s
      | RCas prev old \<Rightarrow>
          if rw_cnt s = old \<and> \<not> weak then rw_goto c (RIn prev) (s\<lparr>rw_cnt := old + 1\<rparr>)
          else rw_pause c prev (RSpin prev) s
      | RSpin prev \<Rightarrow> rw_goto c (RLoad prev) (rw_set_intr c False s)
      | RIn prev \<Rightarrow> rw_goto c (RwRest prev) (s\<lparr>rw_cnt := rw_cnt s - 1\<rparr>)
      | WCas prev \<Rightarrow>
          if rw_cnt s = 0 \<and> \<not> weak then rw_goto c (WIn prev) (s\<lparr>rw_cnt := - 1\<rparr>)
          else rw_pause c prev (WSpin prev) s
      | WSpin prev \<Rightarrow> rw_goto c (WCas prev) (rw_set_intr c False s)
      | WIn prev \<Rightarrow> rw_goto c (RwRest prev) (s\<lparr>rw_cnt := 0\<rparr>)
      | RwRest prev \<Rightarrow> rw_pause c prev ROut s)"

datatype rw_ev = LockRead nat | LockWrite nat | RwStep nat bool | RwIntr nat bool

fun rw_event :: "rw_ev \<Rightarrow> rw_sys \<Rightarrow> rw_sys" where
  "rw_event (LockRead c) s = (if rw_pc s c = ROut then lock_read_call c s else s)"
| "rw_event (LockWrite c) s = (if rw_pc s c = ROut then lock_write_call c s else s)"
| "rw_event (RwStep c weak) s = rw_step c weak s"
| "rw_event (RwIntr c b) s = (if rw_pc s c = ROut then rw_set_intr c b s else s)"

fun reads :: "rw_pc \<Rightarrow> bool" where
  "reads (RIn _) = True"
| "reads _ = False"

fun writes :: "rw_pc \<Rightarrow> bool" where
  "writes (WIn _) = True"
| "writes _ = False"

fun rw_prev :: "rw_pc \<Rightarrow> bool option" where
  "rw_prev ROut = None"
| "rw_prev (RLoad b) = Some b"
| "rw_prev (RCas b _) = Some b"
| "rw_prev (RSpin b) = Some b"
| "rw_prev (RIn b) = Some b"
| "rw_prev (WCas b) = Some b"
| "rw_prev (WSpin b) = Some b"
| "rw_prev (WIn b) = Some b"
| "rw_prev (RwRest b) = Some b"

fun rw_paused :: "rw_pc \<Rightarrow> bool" where
  "rw_paused ROut = True"
| "rw_paused (RSpin _) = True"
| "rw_paused (WSpin _) = True"
| "rw_paused _ = False"

text \<open>The counter is the number of readers, or all ones while there is a writer.\<close>

definition rw_inv :: "rw_sys \<Rightarrow> nat set \<Rightarrow> nat option \<Rightarrow> bool" where
  "rw_inv s R w \<longleftrightarrow> finite R
     \<and> (\<forall>c. reads (rw_pc s c) \<longleftrightarrow> c \<in> R)
     \<and> (\<forall>c. writes (rw_pc s c) \<longleftrightarrow> w = Some c)
     \<and> (case w of None \<Rightarrow> unat (rw_cnt s) = card R \<and> rw_cnt s \<noteq> - 1 | Some _ \<Rightarrow> R = {} \<and> rw_cnt s = - 1)
     \<and> (\<forall>c b old. rw_pc s c = RCas b old \<longrightarrow> old < - 1 - 1)
     \<and> (\<forall>c b. rw_prev (rw_pc s c) = Some b \<longrightarrow> b = rw_entry s c)
     \<and> (\<forall>c. \<not> rw_paused (rw_pc s c) \<longrightarrow> \<not> rw_intr s c)"

lemmas rw_ops = rw_goto_def rw_set_intr_def rw_pause_def lock_read_call_def lock_write_call_def

lemma rw_inv_start: "rw_inv (rw_start intr) {} None"
  by (simp add: rw_inv_def rw_start_def)

lemma max_pred: "(x :: u32) < - 1 - 1 \<longleftrightarrow> unat x < 2 ^ 32 - 2"
  by (simp add: word_less_nat_alt)

lemma rw_inc:
  assumes "(x :: u32) < - 1 - 1"
  shows "unat (x + 1) = Suc (unat x)" "x + 1 \<noteq> - 1"
proof -
  from assms have lt: "unat x < 2 ^ 32 - 2"
    unfolding max_pred .
  then show "unat (x + 1) = Suc (unat x)"
    by (simp add: unat_word_ariths)
  with lt show "x + 1 \<noteq> - 1"
    by (auto simp: word_unat_eq_iff unsigned_minus_1_eq_mask mask_eq_exp_minus_1)
qed

text \<open>The reader set and the writer after a step.\<close>

fun rw_readers :: "nat \<Rightarrow> bool \<Rightarrow> rw_sys \<Rightarrow> nat set \<Rightarrow> nat set" where
  "rw_readers c weak s R =
     (case rw_pc s c of
        RCas b old \<Rightarrow> if rw_cnt s = old \<and> \<not> weak then insert c R else R
      | RIn _ \<Rightarrow> R - {c}
      | _ \<Rightarrow> R)"

fun rw_writer :: "nat \<Rightarrow> bool \<Rightarrow> rw_sys \<Rightarrow> nat option \<Rightarrow> nat option" where
  "rw_writer c weak s w =
     (case rw_pc s c of
        WCas b \<Rightarrow> if rw_cnt s = 0 \<and> \<not> weak then Some c else w
      | WIn _ \<Rightarrow> None
      | _ \<Rightarrow> w)"

definition rw_count :: "u32 \<Rightarrow> nat set \<Rightarrow> nat option \<Rightarrow> bool" where
  "rw_count n R w \<longleftrightarrow> finite R \<and> (case w of None \<Rightarrow> unat n = card R \<and> n \<noteq> - 1 | Some _ \<Rightarrow> R = {} \<and> n = - 1)"

lemma rw_count_ops:
  "rw_count n R w \<Longrightarrow> n < - 1 - 1 \<Longrightarrow> c \<notin> R \<Longrightarrow> w = None \<and> rw_count (n + 1) (insert c R) w"
  "rw_count n R w \<Longrightarrow> c \<in> R \<Longrightarrow> w = None \<and> rw_count (n - 1) (R - {c}) w"
  "rw_count 0 R w \<Longrightarrow> R = {} \<and> w = None \<and> rw_count (- 1) R (Some c)"
  "rw_count n R (Some c) \<Longrightarrow> rw_count 0 R None"
proof -
  assume a: "rw_count n R w" "n < - 1 - 1" "c \<notin> R"
  then have "w = None"
    by (auto simp: rw_count_def split: option.splits)
  with a rw_inc [OF a(2)] show "w = None \<and> rw_count (n + 1) (insert c R) w"
    by (simp add: rw_count_def)
next
  assume a: "rw_count n R w" "c \<in> R"
  then have w: "w = None"
    by (auto simp: rw_count_def split: option.splits)
  with a have n: "unat n = card R" "n \<noteq> - 1" "card R > 0" "finite R"
    by (auto simp: rw_count_def card_gt_0_iff)
  then have "n \<noteq> 0"
    by auto
  then have "unat (n - 1) = unat n - 1"
    by (simp add: unat_minus_one)
  moreover from this have "n - 1 \<noteq> - 1"
    using \<open>n \<noteq> 0\<close> by simp
  ultimately show "w = None \<and> rw_count (n - 1) (R - {c}) w"
    using w n a(2) by (simp add: rw_count_def)
next
  assume "rw_count 0 R w"
  then show "R = {} \<and> w = None \<and> rw_count (- 1) R (Some c)"
    by (auto simp: rw_count_def split: option.splits)
next
  assume "rw_count n R (Some c)"
  then show "rw_count 0 R None"
    by (simp add: rw_count_def)
qed

lemma rw_inv_count: "rw_inv s R w \<Longrightarrow> rw_count (rw_cnt s) R w"
  by (simp add: rw_inv_def rw_count_def)

lemma rw_invD:
  assumes "rw_inv s R w"
  shows "reads (rw_pc s c) \<longleftrightarrow> c \<in> R" "writes (rw_pc s c) \<longleftrightarrow> w = Some c"
    "rw_pc s c = RCas b old \<Longrightarrow> old < - 1 - 1"
    "rw_prev (rw_pc s c) = Some b \<Longrightarrow> b = rw_entry s c"
    "\<not> rw_paused (rw_pc s c) \<Longrightarrow> \<not> rw_intr s c"
  using assms unfolding rw_inv_def by metis+

lemma rw_invI:
  assumes "rw_count (rw_cnt s) R w" "\<And>c. reads (rw_pc s c) \<longleftrightarrow> c \<in> R" "\<And>c. writes (rw_pc s c) \<longleftrightarrow> w = Some c"
    "\<And>c b old. rw_pc s c = RCas b old \<Longrightarrow> old < - 1 - 1" "\<And>c b. rw_prev (rw_pc s c) = Some b \<Longrightarrow> b = rw_entry s c"
    "\<And>c. \<not> rw_paused (rw_pc s c) \<Longrightarrow> \<not> rw_intr s c"
  shows "rw_inv s R w"
  using assms by (simp add: rw_inv_def rw_count_def)

text \<open>A step that moves one processor keeps the rest of the invariant.\<close>

lemma rw_inv_move:
  assumes inv: "rw_inv s R w"
    and s': "rw_pc s' = (rw_pc s)(c := p)" "rw_intr s' = (rw_intr s)(c := i)" "rw_entry s' = (rw_entry s)(c := e)"
    and R': "\<And>d. d \<noteq> c \<Longrightarrow> d \<in> R' \<longleftrightarrow> d \<in> R" "reads p \<longleftrightarrow> c \<in> R'"
    and w': "\<And>d. d \<noteq> c \<Longrightarrow> w' = Some d \<longleftrightarrow> w = Some d" "writes p \<longleftrightarrow> w' = Some c"
    and p: "\<And>b old. p = RCas b old \<Longrightarrow> old < - 1 - 1" "\<And>b. rw_prev p = Some b \<Longrightarrow> b = e" "\<not> rw_paused p \<Longrightarrow> \<not> i"
    and cnt: "rw_count (rw_cnt s') R' w'"
  shows "rw_inv s' R' w'"
proof (rule rw_invI)
  fix d b old
  note rest = rw_invD [OF inv, of d]
  show "reads (rw_pc s' d) \<longleftrightarrow> d \<in> R'" "writes (rw_pc s' d) \<longleftrightarrow> w' = Some d"
    using rest(1,2) R' w' by (cases "d = c"; simp add: s')+
  show "rw_pc s' d = RCas b old \<Longrightarrow> old < - 1 - 1"
    using rest(3) [of b old] p(1) [of b old] by (cases "d = c") (simp_all add: s')
  show "rw_prev (rw_pc s' d) = Some b \<Longrightarrow> b = rw_entry s' d"
    using rest(4) [of b] p(2) [of b] by (cases "d = c") (simp_all add: s')
  show "\<not> rw_paused (rw_pc s' d) \<Longrightarrow> \<not> rw_intr s' d"
    using rest(5) p(3) by (cases "d = c") (simp_all add: s')
qed (rule cnt)

lemma rw_inv_step:
  assumes inv: "rw_inv s R w"
  shows "rw_inv (rw_step c weak s) (rw_readers c weak s R) (rw_writer c weak s w)"
proof -
  note d = rw_invD [OF inv, of c]
  note cnt = rw_inv_count [OF inv]
  note ops = rw_count_ops(1) [OF cnt, of c] rw_count_ops(2) [OF cnt, of c]
  have wr: "rw_cnt s = 0 \<Longrightarrow> R = {} \<and> w = None \<and> rw_count (- 1) R (Some c)"
    using rw_count_ops(3) [of R w c] cnt by metis
  have rel: "w = Some c \<Longrightarrow> rw_count 0 R None"
    using rw_count_ops(4) cnt by blast
  note move = rw_inv_move [OF inv, where c = c and i = "rw_intr (rw_step c weak s) c" and e = "rw_entry s c"
      and p = "rw_pc (rw_step c weak s) c"]
  show ?thesis
  proof (cases "rw_pc s c")
    case ROut
    then show ?thesis by (simp add: rw_step_def inv)
  next
    case (RLoad b)
    show ?thesis
      by (rule move) (use RLoad d cnt in \<open>auto simp: rw_step_def rw_ops Let_def not_le split: if_splits\<close>)
  next
    case (RCas b old)
    show ?thesis
      by (rule move) (use RCas d cnt ops in \<open>auto simp: rw_step_def rw_ops Let_def not_le split: if_splits\<close>)
  next
    case (RSpin b)
    show ?thesis
      by (rule move) (use RSpin d cnt in \<open>auto simp: rw_step_def rw_ops Let_def not_le split: if_splits\<close>)
  next
    case (RIn b)
    show ?thesis
      by (rule move) (use RIn d cnt ops in \<open>auto simp: rw_step_def rw_ops Let_def not_le split: if_splits\<close>)
  next
    case (WCas b)
    show ?thesis
      by (rule move) (use WCas d cnt wr in \<open>auto simp: rw_step_def rw_ops Let_def not_le split: if_splits\<close>)
  next
    case (WSpin b)
    show ?thesis
      by (rule move) (use WSpin d cnt in \<open>auto simp: rw_step_def rw_ops Let_def not_le split: if_splits\<close>)
  next
    case (WIn b)
    show ?thesis
      by (rule move) (use WIn d cnt rel in \<open>auto simp: rw_step_def rw_ops Let_def not_le split: if_splits\<close>)
  next
    case (RwRest b)
    show ?thesis
      by (rule move) (use RwRest d cnt in \<open>auto simp: rw_step_def rw_ops Let_def not_le split: if_splits\<close>)
  qed
qed

lemma rw_inv_event: "rw_inv s R w \<Longrightarrow> \<exists>R' w'. rw_inv (rw_event e s) R' w'"
proof (cases e)
  case (RwStep c weak)
  assume "rw_inv s R w"
  from rw_inv_step [OF this] RwStep show ?thesis
    by (metis rw_event.simps(3))
next
  case (LockRead c)
  assume inv: "rw_inv s R w"
  have "rw_inv (lock_read_call c s) R w" if "rw_pc s c = ROut"
    by (rule rw_inv_move [OF inv, where c = c and i = False and e = "rw_intr s c" and p = "RLoad (rw_intr s c)"])
      (use that rw_invD [OF inv, of c] rw_inv_count [OF inv] in \<open>auto simp: rw_ops\<close>)
  with inv LockRead show ?thesis
    by auto
next
  case (LockWrite c)
  assume inv: "rw_inv s R w"
  have "rw_inv (lock_write_call c s) R w" if "rw_pc s c = ROut"
    by (rule rw_inv_move [OF inv, where c = c and i = False and e = "rw_intr s c" and p = "WCas (rw_intr s c)"])
      (use that rw_invD [OF inv, of c] rw_inv_count [OF inv] in \<open>auto simp: rw_ops\<close>)
  with inv LockWrite show ?thesis
    by auto
next
  case (RwIntr c b)
  assume inv: "rw_inv s R w"
  have "rw_inv (rw_set_intr c b s) R w" if "rw_pc s c = ROut"
    by (rule rw_inv_move [OF inv, where c = c and i = b and e = "rw_entry s c" and p = ROut])
      (use that rw_invD [OF inv, of c] rw_inv_count [OF inv] in \<open>auto simp: rw_ops\<close>)
  with inv RwIntr show ?thesis
    by auto
qed

lemma rw_inv_run: "rw_inv s R w \<Longrightarrow> \<exists>R' w'. rw_inv (fold rw_event es s) R' w'"
  by (rule fold_invariant [where P = "\<lambda>s. \<exists>R w. rw_inv s R w" and Q = "\<lambda>_. True"]) (blast intro: rw_inv_event)+

section \<open>Once\<close>

definition UNINIT :: u8 where "UNINIT = 0"
definition RUNNING :: u8 where "RUNNING = 1"
definition DONE :: u8 where "DONE = 2"

text \<open>
  Where a processor is in \<^verbatim>\<open>call_once\<close>: before the exchange, with the value its
  closure would return; before the store of the data; before the store of the state;
  spinning; and after the return. \<open>on_runs\<close> counts the closures that ran.
\<close>

datatype 'a once_pc = OOut | OCas 'a | OInit 'a | OPub | OSpin | ORet

record 'a once_sys =
  on_state :: u8
  on_data :: "'a option"
  on_pc :: "nat \<Rightarrow> 'a once_pc"
  on_runs :: nat

definition Once_new :: "'a once_sys" where
  "Once_new = \<lparr>on_state = UNINIT, on_data = None, on_pc = \<lambda>_. OOut, on_runs = 0\<rparr>"

definition once_get :: "'a once_sys \<Rightarrow> 'a option" where
  "once_get s = (if on_state s = DONE then on_data s else None)"

definition call_once_step :: "nat \<Rightarrow> 'a once_sys \<Rightarrow> 'a once_sys" where
  "call_once_step c s =
     (case on_pc s c of
        OOut \<Rightarrow> s
      | OCas v \<Rightarrow>
          if on_state s = UNINIT then s\<lparr>on_state := RUNNING, on_pc := (on_pc s)(c := OInit v)\<rparr>
          else s\<lparr>on_pc := (on_pc s)(c := OSpin)\<rparr>
      | OInit v \<Rightarrow> s\<lparr>on_data := Some v, on_runs := on_runs s + 1, on_pc := (on_pc s)(c := OPub)\<rparr>
      | OPub \<Rightarrow> s\<lparr>on_state := DONE, on_pc := (on_pc s)(c := ORet)\<rparr>
      | OSpin \<Rightarrow> if on_state s = DONE then s\<lparr>on_pc := (on_pc s)(c := ORet)\<rparr> else s
      | ORet \<Rightarrow> s)"

datatype 'a once_ev = CallOnce nat 'a | OnceStep nat

fun once_event :: "'a once_ev \<Rightarrow> 'a once_sys \<Rightarrow> 'a once_sys" where
  "once_event (CallOnce c v) s =
     (if on_pc s c = OOut \<or> on_pc s c = ORet then s\<lparr>on_pc := (on_pc s)(c := OCas v)\<rparr> else s)"
| "once_event (OnceStep c) s = call_once_step c s"

text \<open>
  The invariant, with the processor that initialises: one clause per state of the
  cell and one per position of a processor.
\<close>

fun once_pc_ok :: "'a once_sys \<Rightarrow> nat option \<Rightarrow> nat \<Rightarrow> 'a once_pc \<Rightarrow> bool" where
  "once_pc_ok s ini c OOut \<longleftrightarrow> ini \<noteq> Some c"
| "once_pc_ok s ini c (OCas v) \<longleftrightarrow> ini \<noteq> Some c"
| "once_pc_ok s ini c (OInit v) \<longleftrightarrow> ini = Some c \<and> on_runs s = 0"
| "once_pc_ok s ini c OPub \<longleftrightarrow> ini = Some c \<and> on_runs s = 1 \<and> on_data s \<noteq> None"
| "once_pc_ok s ini c OSpin \<longleftrightarrow> ini \<noteq> Some c"
| "once_pc_ok s ini c ORet \<longleftrightarrow> ini \<noteq> Some c \<and> on_state s = DONE"

definition once_cell_ok :: "'a once_sys \<Rightarrow> nat option \<Rightarrow> bool" where
  "once_cell_ok s ini \<longleftrightarrow>
     (if on_state s = UNINIT then ini = None \<and> on_runs s = 0
      else if on_state s = RUNNING then ini \<noteq> None \<and> on_runs s \<le> 1
      else on_state s = DONE \<and> ini = None \<and> on_runs s = 1 \<and> on_data s \<noteq> None)"

definition once_inv :: "'a once_sys \<Rightarrow> nat option \<Rightarrow> bool" where
  "once_inv s ini \<longleftrightarrow> once_cell_ok s ini \<and> (\<forall>c. once_pc_ok s ini c (on_pc s c))"

lemmas once_states = UNINIT_def RUNNING_def DONE_def

lemma once_distinct [simp]:
  "UNINIT \<noteq> RUNNING" "RUNNING \<noteq> UNINIT" "UNINIT \<noteq> DONE" "DONE \<noteq> UNINIT" "RUNNING \<noteq> DONE" "DONE \<noteq> RUNNING"
  by (simp_all add: once_states)

fun once_init :: "nat \<Rightarrow> 'a once_sys \<Rightarrow> nat option \<Rightarrow> nat option" where
  "once_init c s ini =
     (case on_pc s c of
        OCas _ \<Rightarrow> if on_state s = UNINIT then Some c else ini
      | OPub \<Rightarrow> None
      | _ \<Rightarrow> ini)"

lemma once_pc_other:
  assumes "once_inv s ini" "d \<noteq> c"
  shows "once_pc_ok (call_once_step c s) (once_init c s ini) d (on_pc s d)"
proof -
  from assms(1) have "once_pc_ok s ini d (on_pc s d)" "once_pc_ok s ini c (on_pc s c)" "once_cell_ok s ini"
    by (simp_all add: once_inv_def)
  with assms(2) show ?thesis
    by (cases "on_pc s d"; cases "on_pc s c") (auto simp: call_once_step_def once_cell_ok_def split: if_splits)
qed

lemma once_inv_step:
  assumes "once_inv s ini"
  shows "once_inv (call_once_step c s) (once_init c s ini)"
proof -
  from assms have c: "once_pc_ok s ini c (on_pc s c)" "once_cell_ok s ini"
    by (simp_all add: once_inv_def)
  have "once_cell_ok (call_once_step c s) (once_init c s ini)"
    using c by (cases "on_pc s c") (auto simp: call_once_step_def once_cell_ok_def split: if_splits)
  moreover have "once_pc_ok (call_once_step c s) (once_init c s ini) c (on_pc (call_once_step c s) c)"
    using c by (cases "on_pc s c") (auto simp: call_once_step_def once_cell_ok_def split: if_splits)
  moreover have "on_pc (call_once_step c s) d = on_pc s d" if "d \<noteq> c" for d
    using that by (cases "on_pc s c") (auto simp: call_once_step_def)
  ultimately show ?thesis
    unfolding once_inv_def by (metis once_pc_other [OF assms])
qed

lemma once_inv_event: "once_inv s ini \<Longrightarrow> \<exists>ini'. once_inv (once_event e s) ini'"
proof (cases e)
  case (CallOnce c v)
  assume inv: "once_inv s ini"
  have eq: "once_pc_ok (once_event e s) ini d p = once_pc_ok s ini d p" for d p
    by (cases p) (simp_all add: CallOnce)
  have "once_cell_ok (once_event e s) ini"
    using inv by (auto simp: CallOnce once_inv_def once_cell_ok_def split: if_splits)
  moreover have "once_pc_ok s ini d (on_pc (once_event e s) d)" for d
  proof (cases "d = c \<and> (on_pc s c = OOut \<or> on_pc s c = ORet)")
    case True
    then have "once_pc_ok s ini c (OCas v)"
      using inv [unfolded once_inv_def] by (auto elim!: allE [of _ c])
    with True show ?thesis
      by (auto simp: CallOnce)
  next
    case False
    with inv show ?thesis
      by (auto simp: CallOnce once_inv_def)
  qed
  ultimately have "once_inv (once_event e s) ini"
    unfolding once_inv_def eq by blast
  then show ?thesis ..
next
  case (OnceStep c)
  assume "once_inv s ini"
  from once_inv_step [OF this] show ?thesis
    by (metis OnceStep once_event.simps(2))
qed

lemma once_inv_run: "once_inv s ini \<Longrightarrow> \<exists>ini'. once_inv (fold once_event es s) ini'"
  by (rule fold_invariant [where P = "\<lambda>s. \<exists>ini. once_inv s ini" and Q = "\<lambda>_. True"]) (blast intro: once_inv_event)+

lemma once_inv_new: "once_inv Once_new None"
  by (simp add: once_inv_def once_cell_ok_def Once_new_def)

lemma once_get_stable_step:
  assumes "once_inv s ini" "once_get s = Some v"
  shows "once_get (once_event e s) = Some v"
proof -
  from assms(2) have st: "on_state s = DONE" "on_data s = Some v"
    by (auto simp: once_get_def split: if_splits)
  with assms(1) have ini: "ini = None" and pc: "\<And>c. once_pc_ok s ini c (on_pc s c)"
    by (auto simp: once_inv_def once_cell_ok_def)
  show ?thesis
  proof (cases e)
    case (OnceStep c)
    with pc [of c] st ini show ?thesis
      by (cases "on_pc s c") (auto simp: once_get_def call_once_step_def)
  qed (use st in \<open>simp add: once_get_def\<close>)
qed

lemma once_get_stable:
  "once_inv s ini \<Longrightarrow> once_get s = Some v \<Longrightarrow> once_get (fold once_event es s) = Some v"
proof (induction es arbitrary: s ini)
  case (Cons e es)
  from once_inv_event [OF Cons.prems(1)] obtain ini' where "once_inv (once_event e s) ini'"
    by blast
  from Cons.IH [OF this once_get_stable_step [OF Cons.prems]] show ?case
    by simp
qed simp

section \<open>Properties\<close>

text \<open>
  C4: \<^verbatim>\<open>SpinLock\<close> under every interleaving: at most one processor is inside, its
  interrupts are off there, and a processor that has released the lock leaves with the
  interrupt flag it had when it called \<^verbatim>\<open>lock\<close>.
\<close>

theorem spinlock_safe:
  assumes s: "s = fold spin_event es (spin_start intr)"
  shows "(\<forall>c d. sy_pc s c = SIn \<longrightarrow> sy_pc s d = SIn \<longrightarrow> c = d)
    \<and> (\<forall>c. sy_pc s c = SIn \<longrightarrow> \<not> sy_intr s c)
    \<and> (\<forall>c b. sy_pc s c = SRest b \<longrightarrow> sy_pc (spin_step c s) c = SOut \<and> sy_intr (spin_step c s) c = sy_entry s c)"
proof -
  from spin_inv_run [OF spin_inv_start] obtain ow where inv: "spin_inv s ow"
    unfolding s by blast
  have "c = d" if "sy_pc s c = SIn" "sy_pc s d = SIn" for c d
    using owns_SIn [OF inv that(1)] owns_SIn [OF inv that(2)] by simp
  moreover have "\<not> sy_intr s c" if "sy_pc s c = SIn" for c
    using inv that by (force simp: spin_inv_def)
  moreover have "sy_pc (spin_step c s) c = SOut \<and> sy_intr (spin_step c s) c = sy_entry s c" if "sy_pc s c = SRest b" for c b
  proof -
    have "b = sy_entry s c" "\<not> sy_intr s c"
      using inv that by (force simp: spin_inv_def)+
    with that show ?thesis
      by (simp add: spin_step_def)
  qed
  ultimately show ?thesis
    by blast
qed

theorem spinlock_safe_witness:
  "(let s = fold spin_event [Step 0, Step 1, Step 1, Step 0, Step 1] (spin_start (\<lambda>_. True))
    in sy_pc s 1 = SIn \<and> sy_pc s 0 = SSpin True \<and> \<not> sy_intr s 1)"
proof -
  define s where "s = fold spin_event [Step 0, Step 1, Step 1, Step 0, Step 1] (spin_start (\<lambda>_. True))"
  have "sy_pc s 1 = SIn" "sy_pc s 0 = SSpin True"
    by (simp_all add: s_def spin_step_def spin_start_def SpinLock_new_def)
  with spinlock_safe [OF s_def] show ?thesis
    unfolding s_def by simp
qed

text \<open>
  C30: \<^verbatim>\<open>SpinLock\<close> never gets stuck: from every reachable state, a processor that
  waits for the lock is inside after at most six steps of itself and of the present
  owner.
\<close>

theorem spinlock_progress:
  assumes s: "s = fold spin_event es (spin_start intr)" and c: "waits (sy_pc s c)"
  shows "\<exists>ds. length ds \<le> 6 \<and> (\<forall>d \<in> set ds. d = c \<or> owns (sy_pc s d)) \<and> sy_pc (fold spin_step ds s) c = SIn"
proof -
  from spin_inv_run [OF spin_inv_start] obtain ow where inv: "spin_inv s ow"
    unfolding s by blast
  from spin_progress [OF inv c] show ?thesis
    by (simp add: spin_owns [OF inv])
qed

theorem spinlock_progress_witness:
  "\<exists>ds. length ds \<le> 6 \<and> sy_pc (fold spin_step ds (fold spin_event [Step 0, Step 1, Step 1, Step 0] (spin_start (\<lambda>_. True)))) 0 = SIn"
proof -
  define s where "s = fold spin_event [Step 0, Step 1, Step 1, Step 0] (spin_start (\<lambda>_. True))"
  have "waits (sy_pc s 0)"
    by (simp add: s_def spin_step_def spin_start_def SpinLock_new_def)
  from spinlock_progress [OF s_def this] show ?thesis
    unfolding s_def by blast
qed

text \<open>
  C28: \<^verbatim>\<open>RWSpinLock\<close> under every interleaving and every spurious failure of the
  exchange: a writer is alone, the counter is the number of readers while there is no
  writer, so it never wraps, interrupts are off inside, and dropping a guard restores
  the flag the processor had when it asked for the lock.
\<close>

theorem rwlock_safe:
  assumes s: "s = fold rw_event es (rw_start intr)"
  shows "(\<forall>c d. writes (rw_pc s c) \<longrightarrow> writes (rw_pc s d) \<or> reads (rw_pc s d) \<longrightarrow> c = d)
    \<and> (finite {c. reads (rw_pc s c)})
    \<and> ((\<forall>c. \<not> writes (rw_pc s c)) \<longrightarrow> unat (rw_cnt s) = card {c. reads (rw_pc s c)})
    \<and> (\<forall>c. reads (rw_pc s c) \<or> writes (rw_pc s c) \<longrightarrow> \<not> rw_intr s c)
    \<and> (\<forall>c b. rw_pc s c = RwRest b \<longrightarrow> rw_pc (rw_step c w s) c = ROut \<and> rw_intr (rw_step c w s) c = rw_entry s c)"
proof -
  from rw_inv_run [OF rw_inv_start] obtain R wr where inv: "rw_inv s R wr"
    unfolding s by blast
  note d = rw_invD [OF inv] and cnt = rw_inv_count [OF inv, unfolded rw_count_def]
  have R: "{c. reads (rw_pc s c)} = R"
    by (simp add: d(1))
  have "c = e" if "writes (rw_pc s c)" "writes (rw_pc s e) \<or> reads (rw_pc s e)" for c e
    using that cnt by (auto simp: d(1,2))
  moreover have "unat (rw_cnt s) = card R" if "\<forall>c. \<not> writes (rw_pc s c)"
    using that cnt by (cases wr) (auto simp: d(2))
  moreover have "\<not> rw_intr s c" if "reads (rw_pc s c) \<or> writes (rw_pc s c)" for c
    using that d(5) [of c] by (cases "rw_pc s c") auto
  moreover have "rw_pc (rw_step c w s) c = ROut \<and> rw_intr (rw_step c w s) c = rw_entry s c" if "rw_pc s c = RwRest b" for c b
    using that d(4) [of c b] d(5) [of c] by (auto simp: rw_step_def rw_ops)
  ultimately show ?thesis
    unfolding R using cnt by blast
qed

text \<open>Two readers and a writer that waits for them.\<close>

theorem rwlock_safe_witness:
  "(let s = fold rw_event [LockRead 0, LockRead 1, LockWrite 2, RwStep 0 False, RwStep 0 False, RwStep 1 False,
        RwStep 1 False, RwStep 2 False] (rw_start (\<lambda>_. True))
    in rw_pc s 0 = RIn True \<and> rw_pc s 1 = RIn True \<and> rw_pc s 2 = WSpin True \<and> rw_cnt s = 2 \<and> \<not> rw_intr s 1)"
proof -
  define s where "s = fold rw_event [LockRead 0, LockRead 1, LockWrite 2, RwStep 0 False, RwStep 0 False, RwStep 1 False,
        RwStep 1 False, RwStep 2 False] (rw_start (\<lambda>_. True))"
  have "rw_pc s 0 = RIn True" "rw_pc s 1 = RIn True" "rw_pc s 2 = WSpin True" "rw_cnt s = 2"
    by (simp_all add: s_def rw_step_def rw_ops rw_start_def word_le_nat_alt)
  with rwlock_safe [OF s_def] show ?thesis
    unfolding s_def [symmetric] Let_def by force
qed

text \<open>
  C29: \<^verbatim>\<open>Once\<close> under every interleaving of callers: at most one closure runs; when a
  call of \<^verbatim>\<open>call_once\<close> has returned, \<^verbatim>\<open>get\<close> gives a value, and that value never changes.
\<close>

theorem once_safe:
  assumes s: "s = fold once_event es Once_new"
  shows "on_runs s \<le> 1 \<and> (\<forall>c. on_pc s c = ORet \<longrightarrow> once_get s \<noteq> None)
    \<and> (\<forall>v. once_get s = Some v \<longrightarrow> once_get (fold once_event fs s) = Some v)"
proof -
  from once_inv_run [OF once_inv_new] obtain ini where inv: "once_inv s ini"
    unfolding s by blast
  then have cell: "once_cell_ok s ini" and pc: "\<And>c. once_pc_ok s ini c (on_pc s c)"
    by (simp_all add: once_inv_def)
  have "on_runs s \<le> 1"
    using cell by (simp add: once_cell_ok_def split: if_splits)
  moreover have "once_get s \<noteq> None" if "on_pc s c = ORet" for c
    using that pc [of c] cell by (simp add: once_get_def once_cell_ok_def)
  ultimately show ?thesis
    using once_get_stable [OF inv] by blast
qed

theorem once_safe_witness:
  "(let s = fold once_event [CallOnce 0 (7 :: nat), CallOnce 1 9, OnceStep 1, OnceStep 0, OnceStep 1, OnceStep 1, OnceStep 0] Once_new
    in on_pc s 0 = ORet \<and> on_runs s \<le> 1 \<and> once_get s = Some 9
      \<and> once_get (fold once_event [CallOnce 0 8, OnceStep 0, OnceStep 0] s) = Some 9)"
proof -
  define s where "s = fold once_event [CallOnce 0 (7 :: nat), CallOnce 1 9, OnceStep 1, OnceStep 0, OnceStep 1, OnceStep 1,
    OnceStep 0] Once_new"
  have "on_pc s 0 = ORet" "once_get s = Some 9"
    by (simp_all add: s_def call_once_step_def once_get_def Once_new_def)
  with once_safe [OF s_def, of "[CallOnce 0 8, OnceStep 0, OnceStep 0]"] show ?thesis
    unfolding s_def [symmetric] Let_def by blast
qed

end
