(* ===== verification/Sched.thy ===== *)
theory Sched
  imports Lists X86Cpu Vmm Locks
begin

text \<open>
  The scheduler of \<^verbatim>\<open>kernel/src/scheduler/mod.rs\<close> on one processor: the run queue is
  an \<^verbatim>\<open>ArcInvasiveList\<close> of threads in the processor's \<^verbatim>\<open>cpu_local\<close>
  (\<^verbatim>\<open>arch/mod.rs\<close>), and a yield swaps the interrupted register frame for that of
  the next thread (\<^verbatim>\<open>context_switch\<close>, \<^verbatim>\<open>arch/x86_64/mod.rs\<close>). A thread is named by
  the address its \<^verbatim>\<open>Arc\<close> points to.
\<close>

section \<open>State\<close>

record thread =
  th_stack_ptr :: u64
  th_cpucontext :: "usize list"
  th_timeslice :: usize

text \<open>
  \<^verbatim>\<open>cpu_local\<close>, whose \<^verbatim>\<open>run_queue\<close> is the inherited list, with the threads and task
  state segments its pointers refer to, the \<^verbatim>\<open>GS_BASE\<close> register that holds its
  address, the scheduler's lock (\<open>None\<close> before \<^verbatim>\<open>call_once\<close>) and what the local
  interrupt controller was last told.
\<close>

record sched_state = owned_list +
  threads :: "u64 \<Rightarrow> thread option"
  sel :: u64
  run_lock :: bool
  cur_thread :: "u64 option"
  idle_thread :: "u64 option"
  preempt :: bool
  interrupt_stack :: u64
  cpu_gdt :: "GdtTable option"
  tss_ptr :: u64
  tss_at :: "u64 \<Rightarrow> tss option"
  gs_base :: u64
  schedlock :: "SpinLock option"
  lapic_ready :: bool
  timer_ms :: "usize option"
  acked :: nat
  intr_on :: bool

definition option_list :: "'a option \<Rightarrow> 'a list" where
  "option_list o' = (case o' of None \<Rightarrow> [] | Some x \<Rightarrow> [x])"

definition STACK_SIZE :: usize where "STACK_SIZE = 0x40000"

section \<open>Operations\<close>

definition sched_lock :: "'z sched_state_scheme \<Rightarrow> panic + 'z sched_state_scheme" where
  "sched_lock s =
     and_then (unwrap_opt (schedlock s)) (\<lambda>l.
     and_then (SpinLock_lock (intr_on s, l)) (\<lambda>(i, l').
       Inr (s\<lparr>schedlock := Some l', intr_on := i\<rparr>)))"

definition sched_unlock :: "'z sched_state_scheme \<Rightarrow> panic + 'z sched_state_scheme" where
  "sched_unlock s =
     and_then (unwrap_opt (schedlock s)) (\<lambda>l.
       let (i, l') = SpinLock_unlock (intr_on s, l)
       in Inr (s\<lparr>schedlock := Some l', intr_on := i\<rparr>))"

definition arc_clone :: "u64 \<Rightarrow> 'z owned_list_scheme \<Rightarrow> 'z owned_list_scheme" where
  "arc_clone x s = s\<lparr>strong := (strong s)(x := strong s x + 1)\<rparr>"

definition thread_at :: "u64 \<Rightarrow> 'z sched_state_scheme \<Rightarrow> panic + thread" where
  "thread_at t s = (case threads s t of None \<Rightarrow> Inl BadPointer | Some th \<Rightarrow> Inr th)"

text \<open>
  \<^verbatim>\<open>context_switch\<close> copies the interrupted frame into the old thread, whose
  reference it then drops, and the registers of the new thread into the frame.
  \<^verbatim>\<open>copy_from_slice\<close> panics on slices of different lengths.
\<close>

definition context_switch ::
    "u64 option \<Rightarrow> u64 \<Rightarrow> usize list \<Rightarrow> 'z sched_state_scheme \<Rightarrow> panic + (usize list \<times> 'z sched_state_scheme)" where
  "context_switch old_thread nxt fra s =
     and_then (case old_thread of
         None \<Rightarrow> Inr s
       | Some old_thr \<Rightarrow>
           and_then (thread_at old_thr s) (\<lambda>th.
             if length (th_cpucontext th) \<noteq> length fra then Inl OutOfBounds
             else Inr (s\<lparr>threads := (threads s)(old_thr \<mapsto> th\<lparr>th_cpucontext := fra\<rparr>)\<rparr>))) (\<lambda>s1.
     and_then (thread_at nxt s1) (\<lambda>new_thread.
       if length (th_cpucontext new_thread) \<noteq> length fra then Inl OutOfBounds
       else Inr (th_cpucontext new_thread,
         case old_thread of None \<Rightarrow> s1 | Some old_thr \<Rightarrow> arc_drop old_thr s1)))"

definition set_timer_ms :: "usize \<Rightarrow> 'z sched_state_scheme \<Rightarrow> panic + 'z sched_state_scheme" where
  "set_timer_ms ms s = (if lapic_ready s then Inr (s\<lparr>timer_ms := Some ms\<rparr>) else Inl UnwrapNone)"

definition acknowledge_interrupt :: "'z sched_state_scheme \<Rightarrow> panic + 'z sched_state_scheme" where
  "acknowledge_interrupt s = (if lapic_ready s then Inr (s\<lparr>acked := acked s + 1\<rparr>) else Inl UnwrapNone)"

definition thread_current :: "'z sched_state_scheme \<Rightarrow> u64 option" where
  "thread_current s = cur_thread s"

definition sched_yield ::
    "u64 \<Rightarrow> usize list \<Rightarrow> 'z sched_state_scheme \<Rightarrow> panic + (usize list \<times> 'z sched_state_scheme)" where
  "sched_yield off cpuframe s =
     and_then (sched_lock s) (\<lambda>s0.
     and_then (case cur_thread s0 of
         None \<Rightarrow> Inr (None, s0)
       | Some old_thr \<Rightarrow>
           let s1 = arc_clone old_thr (s0\<lparr>cur_thread := None\<rparr>);
               (res, s2) = Arc_push_back off old_thr s1
           in and_then (unwrap_res res) (\<lambda>_. Inr (Some old_thr, s2))) (\<lambda>(oldregs, s3).
     and_then (case Arc_pop_front off s3 of
         (Some thr, s4) \<Rightarrow> Inr (thr, s4)
       | (None, s4) \<Rightarrow>
           (case idle_thread s4 of
              None \<Rightarrow> Inl (PanicMsg ''no idle thread'')
            | Some idle \<Rightarrow> Inr (idle, s4\<lparr>idle_thread := None\<rparr>))) (\<lambda>(nxt, s5).
     and_then (context_switch oldregs nxt cpuframe s5) (\<lambda>(frame, s6).
     and_then (thread_at nxt s6) (\<lambda>th.
     and_then (set_timer_ms (th_timeslice th) s6) (\<lambda>s7.
     and_then (sched_unlock (s7\<lparr>cur_thread := Some nxt\<rparr>)) (\<lambda>s8.
       Inr (frame, s8))))))))"

text \<open>
  \<^verbatim>\<open>idt_handler\<close>: the vector decides. A page fault and every vector without a case
  panic; the timer is acknowledged and, when the processor may be preempted, yields.
\<close>

definition idt_handler ::
    "u64 \<Rightarrow> u64 \<Rightarrow> usize list \<Rightarrow> 'z sched_state_scheme \<Rightarrow> panic + (usize list \<times> 'z sched_state_scheme)" where
  "idt_handler off intn frame s =
     (if intn = 0xe then Inl (PanicMsg ''page fault my dude'')
      else if intn = 0xff then Inr (frame, s)
      else if intn = 0x21 then
        and_then (acknowledge_interrupt s) (\<lambda>s1.
          if preempt s1 then sched_yield off frame s1 else Inr (frame, s1))
      else Inl (PanicMsg ''unhandled exception''))"

text \<open>
  \<^verbatim>\<open>thread::new\<close> and \<^verbatim>\<open>cpu_local::new\<close> allocate their stacks in the kernel's page map
  (\<^verbatim>\<open>early_init_pagemap!\<close>). The addresses that \<^verbatim>\<open>Box::new\<close> and \<^verbatim>\<open>Arc::new\<close> return are
  arguments: \<open>l\<close> of the \<^verbatim>\<open>cpu_local\<close>, \<open>bt\<close> of the boxed task state segment, \<open>p1\<close>
  and \<open>p2\<close> of the two threads.
\<close>

definition alloc_stack ::
    "u64 \<Rightarrow> 'm vmm_state_scheme arch_ops \<Rightarrow> 'm vmm_state_scheme \<Rightarrow> panic + (u64 \<times> 'm vmm_state_scheme)" where
  "alloc_stack hh A m =
     and_then (early_init_pagemap m) (\<lambda>pm.
     and_then (vmm_alloc hh A pm STACK_SIZE (VMM_WRITE OR VMM_EXECUTABLE) m) (\<lambda>(stack, m1).
       Inr (stack + STACK_SIZE, m1)))"

definition thread_new ::
    "u64 \<Rightarrow> 'm vmm_state_scheme arch_ops \<Rightarrow> usize \<Rightarrow> usize \<Rightarrow> bool \<Rightarrow> 'm vmm_state_scheme
      \<Rightarrow> panic + (thread \<times> 'm vmm_state_scheme)" where
  "thread_new hh A func timeslice user m =
     and_then (alloc_stack hh A m) (\<lambda>(stack_pt, m1).
     and_then (Prepare_thread (replicate N_CPUREGS_x86 0) func stack_pt user) (\<lambda>cpuctx.
       Inr (\<lparr>th_stack_ptr = stack_pt, th_cpucontext = cpuctx, th_timeslice = timeslice\<rparr>, m1)))"

definition init_cpu_local :: "u64 \<Rightarrow> 'z sched_state_scheme \<Rightarrow> 'z sched_state_scheme" where
  "init_cpu_local p s = s\<lparr>gs_base := p\<rparr>"

definition cpu_local_new ::
    "u64 \<Rightarrow> 'm vmm_state_scheme arch_ops \<Rightarrow> bool \<Rightarrow> u64 \<Rightarrow> u64 \<Rightarrow> u64 \<Rightarrow> (u64 \<Rightarrow> tss option) \<Rightarrow> 'm vmm_state_scheme
      \<Rightarrow> panic + (sched_state \<times> 'm vmm_state_scheme)" where
  "cpu_local_new hh A bsp BSP_TSS l bt tm m =
     and_then (alloc_stack hh A m) (\<lambda>(stack, m1).
       let c0 = \<lparr>inner = InvasiveList_new, nodes = \<lambda>_. InvasiveListNode_new, strong = \<lambda>_. 0, boxes = {},
             threads = Map.empty, sel = 0, run_lock = False, cur_thread = None, idle_thread = None, preempt = True,
             interrupt_stack = stack, cpu_gdt = None, tss_ptr = 0, tss_at = tm, gs_base = 0,
             schedlock = None, lapic_ready = False, timer_ms = None, acked = 0, intr_on = False\<rparr>;
           c1 = c0\<lparr>sel := l\<rparr>;
           c2 = (if bsp then c1\<lparr>tss_ptr := BSP_TSS\<rparr> else c1\<lparr>tss_ptr := bt, tss_at := tm(bt \<mapsto> tss_new)\<rparr>);
           c3 = (if bsp then c2
                 else c2\<lparr>cpu_gdt := Some (GdtTable_new\<lparr>gdt_tss := GDTtss_new (tss_ptr c2)\<rparr>)\<rparr>)
       in Inr (init_cpu_local l c3, m1))"

definition arc_new :: "u64 \<Rightarrow> u64 \<Rightarrow> thread \<Rightarrow> 'z sched_state_scheme \<Rightarrow> 'z sched_state_scheme" where
  "arc_new off p th s = s\<lparr>threads := (threads s)(p \<mapsto> th), strong := (strong s)(p := 1),
     nodes := (nodes s)(list_node off p := InvasiveListNode_new)\<rparr>"

definition cpu_set_interrupt_stack :: "u64 \<Rightarrow> 'z sched_state_scheme \<Rightarrow> panic + 'z sched_state_scheme" where
  "cpu_set_interrupt_stack stack_ptr s =
     (case tss_at s (tss_ptr s) of
        None \<Rightarrow> Inl BadPointer
      | Some t \<Rightarrow> Inr (s\<lparr>tss_at := (tss_at s)(tss_ptr s \<mapsto> set_interrupt_stack stack_ptr t)\<rparr>))"

text \<open>\<^verbatim>\<open>sched_init\<close> up to its final loop, which only waits for interrupts.\<close>

definition sched_init ::
    "u64 \<Rightarrow> u64 \<Rightarrow> 'm vmm_state_scheme arch_ops \<Rightarrow> usize \<Rightarrow> usize \<Rightarrow> u64 \<Rightarrow> u64 \<Rightarrow> 'z sched_state_scheme
      \<Rightarrow> 'm vmm_state_scheme \<Rightarrow> panic + ('z sched_state_scheme \<times> 'm vmm_state_scheme)" where
  "sched_init off hh A useless kentry p1 p2 s m =
     (let s0 = (if schedlock s = None then s\<lparr>schedlock := Some SpinLock_new\<rparr> else s)
      in and_then (cpu_set_interrupt_stack (interrupt_stack s0) s0) (\<lambda>s1.
         and_then (thread_new hh A useless 10 False m) (\<lambda>(idle, m1).
         and_then (thread_new hh A kentry 1 False m1) (\<lambda>(main, m2).
         let (res, s2) = Arc_push_back off p1 (arc_new off p1 main s1)
         in and_then (unwrap_res res) (\<lambda>_.
            let s3 = arc_new off p2 idle s2;
                s4 = (case idle_thread s3 of None \<Rightarrow> s3 | Some q \<Rightarrow> arc_drop q s3)\<lparr>idle_thread := Some p2\<rparr>
            in and_then (set_timer_ms 10 s4) (\<lambda>s5.
                 Inr (s5\<lparr>intr_on := True\<rparr>, m2)))))))"

section \<open>The ring of threads\<close>

text \<open>
  What the scheduler promises: the running thread and the queue behind it form a
  ring. A yield stores the interrupted registers in the running thread and turns the
  ring by one.
\<close>

fun ring_step :: "usize list \<Rightarrow> u64 list \<times> (u64 \<Rightarrow> usize list) \<Rightarrow> usize list \<times> u64 list \<times> (u64 \<Rightarrow> usize list)" where
  "ring_step f (r, m) = (let m' = m(hd r := f) in (m' (hd (rotate1 r)), rotate1 r, m'))"

primrec ring_run ::
    "usize list list \<Rightarrow> u64 list \<times> (u64 \<Rightarrow> usize list) \<Rightarrow> usize list list \<times> u64 list \<times> (u64 \<Rightarrow> usize list)" where
  "ring_run [] rm = ([], rm)"
| "ring_run (f # fs) rm = (let (g, rm1) = ring_step f rm; (gs, rm2) = ring_run fs rm1 in (g # gs, rm2))"

text \<open>The machine under timer interrupts: every tick brings the registers it interrupts.\<close>

primrec timer_run ::
    "u64 \<Rightarrow> usize list list \<Rightarrow> 'z sched_state_scheme \<Rightarrow> panic + (usize list list \<times> 'z sched_state_scheme)" where
  "timer_run off [] s = Inr ([], s)"
| "timer_run off (f # fs) s =
     and_then (idt_handler off 0x21 f s) (\<lambda>(g, s1).
     and_then (timer_run off fs s1) (\<lambda>(gs, s2). Inr (g # gs, s2)))"

definition ctx_of :: "'z sched_state_scheme \<Rightarrow> u64 \<Rightarrow> usize list" where
  "ctx_of s t = (case threads s t of None \<Rightarrow> [] | Some th \<Rightarrow> th_cpucontext th)"

text \<open>Every thread that the ring or the idle slot holds is alive, once, with one reference.\<close>

definition thread_ok :: "u64 \<Rightarrow> 'z sched_state_scheme \<Rightarrow> u64 \<Rightarrow> bool" where
  "thread_ok off s t \<longleftrightarrow> list_item off t \<and> strong s t = 1
     \<and> (\<exists>th. threads s t = Some th \<and> length (th_cpucontext th) = N_CPUREGS_x86)"

definition sched_ok :: "u64 \<Rightarrow> 'z sched_state_scheme \<Rightarrow> u64 list \<Rightarrow> bool" where
  "sched_ok off s xs \<longleftrightarrow> owned_rep off s xs \<and> (\<exists>l. schedlock s = Some l \<and> \<not> sl_held l) \<and> lapic_ready s
     \<and> distinct (xs @ option_list (cur_thread s) @ option_list (idle_thread s))
     \<and> (\<forall>t \<in> set (xs @ option_list (cur_thread s) @ option_list (idle_thread s)). thread_ok off s t)"

lemma option_list_simps [simp]: "option_list None = []" "option_list (Some x) = [x]"
  by (simp_all add: option_list_def)

text \<open>The queue operations leave the rest of the processor's state alone.\<close>

lemma Arc_push_back_frame:
  "Arc_push_back off x s = (Inr (), s') \<Longrightarrow> \<exists>i n. s' = s\<lparr>inner := i, nodes := n\<rparr>"
  by (auto simp: Arc_push_back_def with_inner_def Let_def split: prod.splits sum.splits)

lemma Arc_pop_front_frame:
  "Arc_pop_front off s = (r, s') \<Longrightarrow> \<exists>i n. s' = s\<lparr>inner := i, nodes := n\<rparr>"
  by (auto simp: Arc_pops with_inner_def split: prod.splits)

lemma owned_rep_cong: "inner s' = inner s \<Longrightarrow> nodes s' = nodes s \<Longrightarrow> owned_rep off s' xs \<longleftrightarrow> owned_rep off s xs"
  by (simp add: owned_rep_def)

lemma sched_okD:
  assumes "sched_ok off s xs"
  shows "owned_rep off s xs" "lapic_ready s"
    "distinct (xs @ option_list (cur_thread s) @ option_list (idle_thread s))"
    "\<And>t. t \<in> set (xs @ option_list (cur_thread s) @ option_list (idle_thread s)) \<Longrightarrow> thread_ok off s t"
  using assms by (auto simp: sched_ok_def)

text \<open>Putting the running thread behind the queue and taking the first: the queue turns by one.\<close>

lemma requeue_ok:
  assumes "owned_rep off s xs" "list_item off c" "c \<notin> set xs"
  shows "\<exists>s1 s2 i n. Arc_push_back off c s = (Inr (), s1) \<and> Arc_pop_front off s1 = (Some (hd (xs @ [c])), s2)
    \<and> s2 = s\<lparr>inner := i, nodes := n\<rparr> \<and> owned_rep off s2 (tl (xs @ [c]))"
proof -
  from arc.pushb_new [OF assms] obtain s1 where 1: "Arc_push_back off c s = (Inr (), s1)" "owned_rep off s1 (xs @ [c])"
    by blast
  then have "owned_rep off s1 (hd (xs @ [c]) # tl (xs @ [c]))"
    by simp
  from arc.popf_Cons [OF this] obtain s2 where
    2: "Arc_pop_front off s1 = (Some (hd (xs @ [c])), s2)" "owned_rep off s2 (tl (xs @ [c]))"
    by blast
  from Arc_push_back_frame [OF 1(1)] obtain i1 n1 where s1: "s1 = s\<lparr>inner := i1, nodes := n1\<rparr>"
    by blast
  from Arc_pop_front_frame [OF 2(1)] obtain i n where "s2 = s1\<lparr>inner := i, nodes := n\<rparr>"
    by blast
  then have "s2 = s\<lparr>inner := i, nodes := n\<rparr>"
    by (simp add: s1)
  with 1 2 show ?thesis
    by blast
qed

lemma yield_running:
  assumes ok: "sched_ok off s xs" and cur: "cur_thread s = Some c" and len: "length f = N_CPUREGS_x86"
    and n: "n = hd (xs @ [c])"
  shows "\<exists>s'. sched_yield off f s = Inr (ctx_of s' n, s') \<and> sched_ok off s' (tl (xs @ [c])) \<and> cur_thread s' = Some n
    \<and> ctx_of s' = (ctx_of s)(c := f) \<and> idle_thread s' = idle_thread s \<and> strong s' = strong s \<and> intr_on s' = intr_on s
    \<and> timer_ms s' = Some (th_timeslice (the (threads s n))) \<and> preempt s' = preempt s \<and> acked s' = acked s"
proof -
  note d = sched_okD [OF ok]
  have nin: "n \<in> set (xs @ [c])" and rot: "set (xs @ [c]) = insert n (set (tl (xs @ [c])))"
    "distinct (xs @ [c]) \<Longrightarrow> n \<notin> set (tl (xs @ [c])) \<and> distinct (tl (xs @ [c]))"
    unfolding n by (cases xs; auto)+
  have tc: "thread_ok off s c" and tn: "thread_ok off s n"
    using d(4) [of c] d(4) [of n] nin by (auto simp: cur)
  from tc obtain th where th: "threads s c = Some th" "length (th_cpucontext th) = N_CPUREGS_x86" "strong s c = 1" "list_item off c"
    by (auto simp: thread_ok_def)
  from tn obtain tn where tn: "threads s n = Some tn" "length (th_cpucontext tn) = N_CPUREGS_x86"
    by (auto simp: thread_ok_def)
  from ok obtain l where l: "schedlock s = Some l" "\<not> sl_held l"
    by (auto simp: sched_ok_def)
  define s1 where "s1 = arc_clone c (s\<lparr>schedlock := Some \<lparr>sl_held = True, sl_prev = intr_on s\<rparr>, intr_on := False, cur_thread := None\<rparr>)"
  have "owned_rep off s1 xs"
    using d(1) by (simp add: s1_def arc_clone_def owned_rep_def)
  from requeue_ok [OF this th(4)] d(3) obtain s2 s3 i nn where
    q: "Arc_push_back off c s1 = (Inr (), s2)" "Arc_pop_front off s2 = (Some n, s3)"
      "s3 = s1\<lparr>inner := i, nodes := nn\<rparr>" "owned_rep off s3 (tl (xs @ [c]))"
    unfolding n by (auto simp: cur)
  define s' where "s' = s\<lparr>inner := i, nodes := nn, threads := (threads s)(c \<mapsto> th\<lparr>th_cpucontext := f\<rparr>),
     timer_ms := Some (th_timeslice (the (threads s n))), cur_thread := Some n,
     schedlock := Some \<lparr>sl_held = False, sl_prev = intr_on s\<rparr>\<rparr>"
  have ctx: "ctx_of s' = (ctx_of s)(c := f)"
    by (rule ext) (simp add: s'_def ctx_of_def)
  have str: "(strong s)(c := Suc 0) = strong s"
    using th(3) by auto
  have "sched_yield off f s = Inr (ctx_of s' n, s')"
    using l q(1,2) th tn len d(2)
    by (cases "n = c")
      (simp_all add: sched_yield_def sched_lock_def SpinLock_lock_def s1_def [symmetric] cur Let_def context_switch_def
        thread_at_def q(3) set_timer_ms_def sched_unlock_def SpinLock_unlock_def s'_def ctx_of_def,
       simp_all add: s1_def arc_clone_def arc_drop_def str)
  moreover have "sched_ok off s' (tl (xs @ [c]))"
    unfolding sched_ok_def
  proof (intro conjI ballI)
    show "owned_rep off s' (tl (xs @ [c]))"
      using q(4) by (simp add: q(3) s'_def owned_rep_def)
    show "\<exists>l. schedlock s' = Some l \<and> \<not> sl_held l" "lapic_ready s'"
      using d(2) by (simp_all add: s'_def)
    show "distinct (tl (xs @ [c]) @ option_list (cur_thread s') @ option_list (idle_thread s'))"
      using d(3) rot by (auto simp: s'_def cur)
    fix t
    assume "t \<in> set (tl (xs @ [c]) @ option_list (cur_thread s') @ option_list (idle_thread s'))"
    with rot(1) have "t \<in> set (xs @ option_list (cur_thread s) @ option_list (idle_thread s))"
      by (auto simp: s'_def cur)
    from d(4) [OF this] len show "thread_ok off s' t"
      by (auto simp: thread_ok_def s'_def)
  qed
  ultimately show ?thesis
    using ctx by (intro exI [of _ s']) (simp add: s'_def)
qed

lemma yield_first:
  assumes ok: "sched_ok off s (x # xs)" and cur: "cur_thread s = None" and len: "length f = N_CPUREGS_x86"
  shows "\<exists>s'. sched_yield off f s = Inr (ctx_of s x, s') \<and> sched_ok off s' xs \<and> cur_thread s' = Some x
    \<and> ctx_of s' = ctx_of s \<and> idle_thread s' = idle_thread s \<and> preempt s' = preempt s"
proof -
  note d = sched_okD [OF ok]
  from d(4) [of x] obtain th where th: "threads s x = Some th" "length (th_cpucontext th) = N_CPUREGS_x86"
    by (auto simp: thread_ok_def)
  from ok obtain l where l: "schedlock s = Some l" "\<not> sl_held l"
    by (auto simp: sched_ok_def)
  define s0 where "s0 = s\<lparr>schedlock := Some \<lparr>sl_held = True, sl_prev = intr_on s\<rparr>, intr_on := False\<rparr>"
  have "owned_rep off s0 (x # xs)"
    using d(1) by (simp add: s0_def owned_rep_def)
  from arc.popf_Cons [OF this] obtain s1 where q: "Arc_pop_front off s0 = (Some x, s1)" "owned_rep off s1 xs"
    by blast
  from Arc_pop_front_frame [OF q(1)] obtain i n where s1: "s1 = s0\<lparr>inner := i, nodes := n\<rparr>"
    by blast
  define s' where "s' = s\<lparr>inner := i, nodes := n, timer_ms := Some (th_timeslice th), cur_thread := Some x,
     schedlock := Some \<lparr>sl_held = False, sl_prev = intr_on s\<rparr>\<rparr>"
  have "sched_yield off f s = Inr (ctx_of s x, s')"
    using l q(1) th len d(2)
    by (simp add: sched_yield_def sched_lock_def SpinLock_lock_def cur s0_def [symmetric] context_switch_def
        thread_at_def s1 set_timer_ms_def sched_unlock_def SpinLock_unlock_def s'_def ctx_of_def)
      (simp add: s0_def cur th set_timer_ms_def)
  moreover have "sched_ok off s' xs"
    using d q(2) s1 by (auto simp: sched_ok_def s'_def cur owned_rep_def thread_ok_def)
  moreover have "ctx_of s' = ctx_of s"
    by (rule ext) (simp add: ctx_of_def s'_def)
  ultimately show ?thesis
    by (intro exI [of _ s']) (simp add: s'_def)
qed

lemma sched_ok_acked [simp]: "sched_ok off (s\<lparr>acked := n\<rparr>) xs = sched_ok off s xs" "ctx_of (s\<lparr>acked := n\<rparr>) = ctx_of s"
  by (auto simp: sched_ok_def owned_rep_def thread_ok_def ctx_of_def fun_eq_iff)

lemma tick_running:
  assumes ok: "sched_ok off s xs" and "preempt s" and cur: "cur_thread s = Some c" and len: "length f = N_CPUREGS_x86"
    and n: "n = hd (xs @ [c])"
  shows "\<exists>s'. idt_handler off 0x21 f s = Inr (ctx_of s' n, s') \<and> sched_ok off s' (tl (xs @ [c])) \<and> cur_thread s' = Some n
    \<and> ctx_of s' = (ctx_of s)(c := f) \<and> preempt s' \<and> acked s' = acked s + 1
    \<and> timer_ms s' = Some (th_timeslice (the (threads s n))) \<and> intr_on s' = intr_on s"
proof -
  have "sched_ok off (s\<lparr>acked := acked s + 1\<rparr>) xs" "cur_thread (s\<lparr>acked := acked s + 1\<rparr>) = Some c"
    using ok cur by simp_all
  from yield_running [OF this len n] obtain s' where
    s': "sched_yield off f (s\<lparr>acked := acked s + 1\<rparr>) = Inr (ctx_of s' n, s')" "sched_ok off s' (tl (xs @ [c]))"
      "cur_thread s' = Some n" "ctx_of s' = (ctx_of s)(c := f)" "preempt s' = preempt s" "acked s' = acked s + 1"
      "timer_ms s' = Some (th_timeslice (the (threads s n)))" "intr_on s' = intr_on s"
    by auto
  with assms(2) sched_okD(2) [OF ok] show ?thesis
    by (intro exI [of _ s']) (simp add: idt_handler_def acknowledge_interrupt_def)
qed

lemma timer_run_ok:
  assumes "sched_ok off s xs" "preempt s" "cur_thread s = Some c" "\<forall>f \<in> set fs. length f = N_CPUREGS_x86"
  shows "\<exists>gs s' c' xs'. timer_run off fs s = Inr (gs, s') \<and> ring_run fs (c # xs, ctx_of s) = (gs, c' # xs', ctx_of s')
    \<and> sched_ok off s' xs' \<and> cur_thread s' = Some c' \<and> preempt s' \<and> acked s' = acked s + length fs"
  using assms
proof (induction fs arbitrary: s xs c)
  case (Cons f fs)
  let ?n = "hd (xs @ [c])" and ?r = "tl (xs @ [c])"
  have "length f = N_CPUREGS_x86"
    using Cons.prems(4) by simp
  from tick_running [OF Cons.prems(1,2,3) this refl] obtain s1 where
    s1: "idt_handler off 0x21 f s = Inr (ctx_of s1 ?n, s1)" "sched_ok off s1 ?r" "cur_thread s1 = Some ?n"
      "ctx_of s1 = (ctx_of s)(c := f)" "preempt s1" "acked s1 = acked s + 1"
    by blast
  from Cons.IH [OF s1(2,5,3)] Cons.prems(4) obtain gs s' c' xs' where
    r: "timer_run off fs s1 = Inr (gs, s')" "ring_run fs (?n # ?r, ctx_of s1) = (gs, c' # xs', ctx_of s')"
      "sched_ok off s' xs'" "cur_thread s' = Some c'" "preempt s'" "acked s' = acked s1 + length fs"
    by auto
  have "ring_run fs (xs @ [c], (ctx_of s)(c := f)) = (gs, c' # xs', ctx_of s')"
    using r(2) s1(4) by simp
  with r s1 show ?case
    by (intro exI [of _ "ctx_of s1 ?n # gs"] exI [of _ s'] exI [of _ c'] exI [of _ xs']) simp
qed simp

section \<open>One round of the ring\<close>

lemma ring_run_append:
  "ring_run (fs @ gs) rm = (let (a, rm1) = ring_run fs rm; (b, rm2) = ring_run gs rm1 in (a @ b, rm2))"
  by (induction fs arbitrary: rm) (simp_all add: Let_def split: prod.splits)

primrec store :: "u64 list \<Rightarrow> usize list list \<Rightarrow> (u64 \<Rightarrow> usize list) \<Rightarrow> u64 \<Rightarrow> usize list" where
  "store [] fs m = m"
| "store (x # xs) fs m = store xs (tl fs) (m(x := hd fs))"

lemma ring_run_part:
  "length fs = length r1 \<Longrightarrow> r2 \<noteq> [] \<Longrightarrow> distinct (r1 @ r2) \<Longrightarrow>
     ring_run fs (r1 @ r2, m) = (map m (tl (r1 @ [hd r2])), r2 @ r1, store r1 fs m)"
proof (induction r1 arbitrary: fs r2 m)
  case (Cons x r1)
  then obtain f fs' where fs: "fs = f # fs'" "length fs' = length r1"
    by (cases fs) auto
  have "ring_run fs' (r1 @ r2 @ [x], m') = (map m' (tl (r1 @ [hd r2])), r2 @ [x] @ r1, store r1 fs' m')" for m'
    using Cons.IH [OF fs(2), of "r2 @ [x]" m'] Cons.prems by simp
  moreover have "map (m(x := f)) (tl (r1 @ [hd r2])) = map m (tl (r1 @ [hd r2]))"
    using Cons.prems(2,3) by (cases r1; cases r2) auto
  moreover have "hd (r1 @ r2 @ [x]) = hd (r1 @ [hd r2])" "hd (r1 @ [hd r2]) \<noteq> x"
    using Cons.prems(2,3) by (cases r1; cases r2; auto)+
  ultimately show ?case
    by (cases r1) (simp_all add: fs(1) fun_upd_def)
qed simp

lemma store_other: "x \<notin> set xs \<Longrightarrow> store xs fs m x = m x"
  by (induction xs arbitrary: fs m) auto

lemma store_nth:
  "distinct xs \<Longrightarrow> length fs = length xs \<Longrightarrow> k < length xs \<Longrightarrow> store xs fs m (xs ! k) = fs ! k"
proof (induction xs arbitrary: fs m k)
  case (Cons y ys)
  then obtain f fs' where "fs = f # fs'" "length fs' = length ys"
    by (cases fs) auto
  with Cons show ?case
    by (cases k) (auto simp: store_other)
qed simp

text \<open>
  As many steps as the ring has threads: every waiting thread has got the registers
  it was left with, in order, the first thread those of the first step, and the ring is
  back where it was.
\<close>

lemma ring_round:
  assumes "length fs = Suc (length q)" "distinct (c # q)"
  shows "\<exists>m'. ring_run fs (c # q, m) = (map m q @ [hd fs], c # q, m') \<and> (\<forall>k < length fs. m' ((c # q) ! k) = fs ! k)"
proof -
  obtain r l where rl: "c # q = r @ [l]"
    by (metis list.distinct(1) rev_exhaust)
  obtain gs g where fs: "fs = gs @ [g]" "length gs = length q"
    using assms(1) by (metis length_append_singleton nat.inject rev_exhaust length_0_conv nat.distinct(1))
  have len: "length gs = length r"
    using rl fs(2) by (metis length_Cons length_append_singleton nat.inject)
  let ?m = "store r gs m"
  have dis: "distinct (r @ [l])"
    using assms(2) rl by simp
  have tl: "tl (r @ [l]) = q" and hd: "hd (r @ [l]) = c"
    using rl by (metis list.sel(3), metis list.sel(1))
  from ring_run_part [OF len _ dis, of m] tl have part: "ring_run gs (c # q, m) = (map m q, l # r, ?m)"
    by (simp add: rl)
  have last: "ring_step g (l # r, ?m) = (hd fs, c # q, ?m(l := g))"
  proof (cases r)
    case Nil
    with len fs rl show ?thesis by auto
  next
    case (Cons y ys)
    with len obtain h hs where "gs = h # hs"
      by (cases gs) auto
    moreover from this Cons have "?m y = h"
      using store_nth [of r gs 0 m] dis len by simp
    ultimately show ?thesis
      using Cons dis rl fs(1) by auto
  qed
  have "(?m(l := g)) ((c # q) ! k) = fs ! k" if "k < length fs" for k
  proof (cases "k < length r")
    case True
    with dis have "r ! k \<noteq> l"
      by (auto simp: in_set_conv_nth)
    with True store_nth [of r gs k m] dis len show ?thesis
      by (simp add: rl fs(1) nth_append)
  next
    case False
    with that fs len have "k = length r"
      by simp
    with len show ?thesis
      by (simp add: rl fs(1) nth_append)
  qed
  with part last show ?thesis
    by (simp add: fs(1) ring_run_append del: ring_step.simps)
qed

section \<open>Starting the scheduler\<close>

lemma owned_rep_new: "owned_rep off s [] \<longleftrightarrow> inner s = InvasiveList_new \<and> nodes s = (\<lambda>_. InvasiveListNode_new)"
  by (auto simp: owned_rep_def list_rep_def dlist_Nil)

lemma thread_new_ctx:
  assumes "thread_new hh A func ts False m = Inr (th, m')"
  shows "th_timeslice th = ts \<and> length (th_cpucontext th) = N_CPUREGS_x86
    \<and> (\<exists>cx. ctx_of_words (th_cpucontext th) = Some cx \<and> c_rip cx = func \<and> c_rsp cx = th_stack_ptr th
          \<and> c_cs cx = 8 \<and> c_ss cx = 16 \<and> c_rflags cx = 0x202 \<and> \<not> is_user cx)"
  using assms
  by (auto simp: thread_new_def Prepare_thread_def and_then_Inr_iff N_CPUREGS_x86_def ctx_roundtrip is_user_def
      off_kernelcode_def off_kerneldata_def ctx_of_words_def [of "replicate _ _"])

lemma arc_new_clear:
  assumes "nodes s (list_node off p) = InvasiveListNode_new"
  shows "arc_new off p th s = s\<lparr>threads := (threads s)(p \<mapsto> th), strong := (strong s)(p := 1)\<rparr>"
proof -
  have "(nodes s)(list_node off p := InvasiveListNode_new) = nodes s"
    using assms by (simp add: fun_upd_idem)
  then show ?thesis
    by (simp add: arc_new_def)
qed

lemma sched_init_ok:
  assumes run: "sched_init off hh A useless kentry p1 p2 s m = Inr (s', m')"
    and s: "owned_rep off s []" "schedlock s = None" "cur_thread s = None" "idle_thread s = None" "lapic_ready s"
    and p: "p1 \<noteq> p2" "list_item off p1" "list_item off p2"
  shows "sched_ok off s' [p1] \<and> cur_thread s' = None \<and> idle_thread s' = Some p2 \<and> intr_on s' \<and> preempt s' = preempt s
    \<and> timer_ms s' = Some 10 \<and> map_option ist1 (tss_at s' (tss_ptr s')) = Some (interrupt_stack s)
    \<and> (\<exists>main idle m1. threads s' p1 = Some main \<and> threads s' p2 = Some idle
          \<and> thread_new hh A useless 10 False m = Inr (idle, m1) \<and> thread_new hh A kentry 1 False m1 = Inr (main, m'))"
proof -
  let ?s0 = "s\<lparr>schedlock := Some SpinLock_new\<rparr>"
  from run s(2) obtain s1 idle m1 main m2 where
    1: "cpu_set_interrupt_stack (interrupt_stack s) ?s0 = Inr s1" "thread_new hh A useless 10 False m = Inr (idle, m1)"
      "thread_new hh A kentry 1 False m1 = Inr (main, m2)"
    and 2: "(let (res, s2) = Arc_push_back off p1 (arc_new off p1 main s1)
         in and_then (unwrap_res res) (\<lambda>_.
            let s3 = arc_new off p2 idle s2;
                s4 = (case idle_thread s3 of None \<Rightarrow> s3 | Some q \<Rightarrow> arc_drop q s3)\<lparr>idle_thread := Some p2\<rparr>
            in and_then (set_timer_ms 10 s4) (\<lambda>s5. Inr (s5\<lparr>intr_on := True\<rparr>, m2)))) = Inr (s', m')"
    by (auto simp: sched_init_def and_then_Inr_iff)
  from 1(1) obtain t where t: "tss_at s (tss_ptr s) = Some t"
      "s1 = ?s0\<lparr>tss_at := (tss_at s)(tss_ptr s \<mapsto> set_interrupt_stack (interrupt_stack s) t)\<rparr>"
    by (auto simp: cpu_set_interrupt_stack_def split: option.splits)
  let ?a = "s1\<lparr>threads := (threads s)(p1 \<mapsto> main), strong := (strong s)(p1 := 1)\<rparr>"
  have a: "arc_new off p1 main s1 = ?a" and rep: "owned_rep off ?a []"
    using s(1) by (simp_all add: arc_new_clear t(2) owned_rep_new)
  from arc.pushb_new [OF rep p(2)] obtain s2 where s2: "Arc_push_back off p1 ?a = (Inr (), s2)" "owned_rep off s2 [p1]"
    by auto
  from Arc_push_back_frame [OF s2(1)] obtain i n where fr: "s2 = ?a\<lparr>inner := i, nodes := n\<rparr>"
    by blast
  have "nodes s2 (list_node off p2) = InvasiveListNode_new"
    using s2(2) p(1) by (simp add: owned_rep_def list_rep_def)
  then have b: "arc_new off p2 idle s2 = s2\<lparr>threads := (threads s2)(p2 \<mapsto> idle), strong := (strong s2)(p2 := 1)\<rparr>"
    by (rule arc_new_clear)
  have s': "s' = s2\<lparr>threads := (threads s2)(p2 \<mapsto> idle), strong := (strong s2)(p2 := 1), idle_thread := Some p2,
      timer_ms := Some 10, intr_on := True\<rparr>"
  proof -
    have "idle_thread s2 = None" "lapic_ready s2"
      using s(4,5) by (simp_all add: fr t(2))
    with 2 [unfolded a s2(1)] b show ?thesis
      by (simp add: set_timer_ms_def)
  qed
  have "thread_ok off s' p1" "thread_ok off s' p2"
    using thread_new_ctx [OF 1(2)] thread_new_ctx [OF 1(3)] p by (auto simp: thread_ok_def s' fr t(2))
  then have "sched_ok off s' [p1]"
    using s2(2) s p by (auto simp: sched_ok_def s' fr t(2) owned_rep_def SpinLock_new_def)
  moreover have "threads s' p1 = Some main" "threads s' p2 = Some idle"
    using p(1) by (simp_all add: s' fr)
  moreover have "m2 = m'"
    using 2 [unfolded a s2(1)] by (auto simp: and_then_Inr_iff Let_def)
  moreover have "map_option ist1 (tss_at s' (tss_ptr s')) = Some (interrupt_stack s)"
    by (simp add: s' fr t set_interrupt_stack_def)
  ultimately show ?thesis
    using 1(2,3) s by (auto simp: s' fr t(2))
qed

section \<open>Stacks\<close>

text \<open>
  The addresses of a stack from \<open>b\<close> on, its pages, and that each of them is mapped with
  the flags stacks are asked for.
\<close>

definition stack_addrs :: "u64 \<Rightarrow> nat set" where
  "stack_addrs b = {unat b..<unat b + 0x40000}"

definition stack_pages :: "u64 \<Rightarrow> u64 list" where
  "stack_pages b = range_step b (b + 0x40000) 4096"

definition stack_mapped :: "u64 \<Rightarrow> u64 \<Rightarrow> u64 \<Rightarrow> memory \<Rightarrow> bool" where
  "stack_mapped hh root b m \<longleftrightarrow>
     (\<forall>x\<in>set (stack_pages b). \<exists>f. x86_mmu hh root x m = Some (x86_pte f (x86_from_vmmflags (VMM_WRITE OR VMM_EXECUTABLE))))"

text \<open>The frames a stack may cost: one for the region's object, one per page, and the tables.\<close>

definition stack_frames :: "u64 \<Rightarrow> nat" where
  "stack_frames b = 65 + card (\<Union>x\<in>set (stack_pages b). tpaths 4 x)"

definition stack_base_ok :: "u64 \<Rightarrow> bool" where
  "stack_base_ok b \<longleftrightarrow> page_aligned b \<and> high_half 4 b \<and> unat b + 0x40000 < 2 ^ 64"

lemma stack_pages_in:
  assumes "stack_base_ok b" "x \<in> set (stack_pages b)"
  shows "unat x \<in> stack_addrs b" "high_half 4 x" "page_aligned x"
proof -
  have b: "page_aligned b" "high_half 4 b" "unat b + unat (0x40000 :: u64) < 2 ^ 64"
    using assms(1) by (simp_all add: stack_base_ok_def)
  obtain k where k: "k < length (stack_pages b)" "x = stack_pages b ! k"
    using assms(2) by (auto simp: in_set_conv_nth)
  then show "unat x \<in> stack_addrs b"
    using unat_range_nth [OF b(3), of k] by (simp add: stack_pages_def stack_addrs_def)
  show "high_half 4 x" "page_aligned x"
    using vpn_range_distinct(2) [OF _ b, of x] assms(2) by (simp_all add: stack_pages_def)
qed

lemma stack_mapped_frame:
  assumes b: "stack_base_ok b" "stack_base_ok c" "stack_addrs b \<inter> stack_addrs c = {}" and m: "stack_mapped hh root b m"
    and same: "\<forall>va. vpn 4 va \<notin> vpn 4 ` set (stack_pages c) \<longrightarrow> x86_mmu hh root va m' = x86_mmu hh root va m"
  shows "stack_mapped hh root b m'"
proof -
  have "vpn 4 x \<notin> vpn 4 ` set (stack_pages c)" if x: "x \<in> set (stack_pages b)" for x
  proof
    assume "vpn 4 x \<in> vpn 4 ` set (stack_pages c)"
    then obtain y where y: "y \<in> set (stack_pages c)" "vpn 4 x = vpn 4 y"
      by auto
    then have "page_of x = page_of y"
      using vpn_high_half [of 4 x y] stack_pages_in(2) [OF b(1) x] stack_pages_in(2) [OF b(2) y(1)] by simp
    then have "x = y"
      using stack_pages_in(3) [OF b(1) x] stack_pages_in(3) [OF b(2) y(1)] by simp
    then show False
      using stack_pages_in(1) [OF b(1) x] stack_pages_in(1) [OF b(2) y(1)] b(3) by auto
  qed
  with m same show ?thesis
    by (simp add: stack_mapped_def)
qed

lemma stack_size: "align_up STACK_SIZE PAGE_SIZE = 0x40000" "STACK_SIZE = 0x40000" "VMM_WRITE OR VMM_EXECUTABLE = 3"
  "\<not> contains 3 VMM_USER" "0 < (0x40000 :: usize)" "unat (0x40000 :: usize) < 2 ^ 63"
  by (simp_all add: STACK_SIZE_def align_up_def PAGE_SIZE_def VMM_WRITE_def VMM_EXECUTABLE_def contains_def VMM_USER_def)

text \<open>
  A stack is allocated at the first gap, fully mapped and apart from every region there
  is; the stacks mapped before stay mapped.
\<close>

lemma alloc_stack_ok:
  fixes m :: "'m vmm_state_scheme"
  assumes inv: "kmap_inv (x86_tables hh) hh m pm ps g t" "kermap m = Some pm" "regions (vm_regions m) ps = rs" "regions_ok rs"
    and pl: "place_region 0x40000 3 rs = Some (b, rs')" and b: "page_aligned b" "high_half 4 b"
    and room: "stack_frames b \<le> slab_room g"
  shows "\<exists>m' ps' g' t'. alloc_stack hh (x86_arch hh) m = Inr (b + 0x40000, m') \<and> kmap_inv (x86_tables hh) hh m' pm ps' g' t'
    \<and> kermap m' = Some pm \<and> regions (vm_regions m') ps' = rs' \<and> regions_ok rs' \<and> set rs' = insert (b, 0x40000, 3) (set rs)
    \<and> (\<forall>r\<in>set rs. region_addrs r \<inter> stack_addrs b = {}) \<and> stack_base_ok b \<and> stack_mapped hh (arch_page pm + hh) b (mem m')
    \<and> (\<forall>c. stack_base_ok c \<and> stack_addrs c \<inter> stack_addrs b = {} \<and> stack_mapped hh (arch_page pm + hh) c (mem m) \<longrightarrow>
          stack_mapped hh (arch_page pm + hh) c (mem m'))
    \<and> slab_room g \<le> slab_room g' + stack_frames b"
proof -
  let ?root = "arch_page pm + hh"
  from place_region_ok [OF inv(4) stack_size(5,6) pl] obtain q :: region where
    "unat b + unat (0x40000 :: usize) + 4096 \<le> unat (fst q)"
    by blast
  then have ok: "stack_base_ok b"
    using b unat_lt64 [of "fst q"] by (simp add: stack_base_ok_def)
  have "unat (b + 0x40000) = unat b + 0x40000"
    using ok by (simp add: stack_base_ok_def unat_add_no_wrap)
  then have len: "length (stack_pages b) = 64"
    by (simp add: stack_pages_def length_range_step)
  have card: "card (missing_list 4 t (stack_pages b)) \<le> card (\<Union>x\<in>set (stack_pages b). tpaths 4 x)"
    by (rule card_mono) (auto simp: missing_list_def missing_def tpaths_def)
  have room': "length (stack_pages b) + card (missing_list 4 t (stack_pages b)) < slab_room g"
    using room card by (simp add: len stack_frames_def)
  note pages = stack_pages_def [of b]
  from x86_vmm_alloc_region [where amount = STACK_SIZE, unfolded stack_size(1), OF inv(1) stack_size(4) inv(4) [folded inv(3)]
      stack_size(5,6) pl [folded inv(3)] pages b room', unfolded inv(3)]
  obtain m' ps' g' t' fs where
    r: "vmm_alloc hh (x86_arch hh) pm STACK_SIZE 3 m = Inr (b, m')" "kmap_inv (x86_tables hh) hh m' pm ps' g' t'"
      "regions (vm_regions m') ps' = rs'" "regions_ok rs'" "set rs' = insert (b, 0x40000, 3) (set rs)"
      "\<forall>r\<in>set rs. region_addrs r \<inter> {unat b..<unat b + unat (0x40000 :: usize) + 4096} = {}"
      "\<forall>k<length (stack_pages b). x86_mmu hh ?root (stack_pages b ! k) (mem m') = Some (x86_pte (fs ! k - hh) (x86_from_vmmflags 3))"
      "\<forall>va. vpn 4 va \<notin> vpn 4 ` set (stack_pages b) \<longrightarrow> x86_mmu hh ?root va (mem m') = x86_mmu hh ?root va (mem m)"
      "slab_room g \<le> slab_room g' + length (stack_pages b) + card (missing_list 4 t (stack_pages b)) + 1" "kermap m' = kermap m"
    by (elim exE conjE)
  have "alloc_stack hh (x86_arch hh) m = Inr (b + 0x40000, m')"
    using r(1) inv(2) by (simp add: alloc_stack_def early_init_pagemap_def stack_size(2,3))
  moreover have "stack_mapped hh ?root b (mem m')"
    using r(7) unfolding stack_mapped_def stack_size(3) by (metis in_set_conv_nth)
  moreover have "slab_room g \<le> slab_room g' + stack_frames b"
    using r(9) card by (simp add: len stack_frames_def)
  moreover have "\<forall>r\<in>set rs. region_addrs r \<inter> stack_addrs b = {}"
    using r(6) by (force simp: stack_addrs_def)
  moreover have "stack_mapped hh ?root c (mem m')"
    if "stack_base_ok c" "stack_addrs c \<inter> stack_addrs b = {}" "stack_mapped hh ?root c (mem m)" for c
    by (rule stack_mapped_frame [OF that(1) ok that(2,3) r(8)])
  ultimately show ?thesis
    using r(2-5,10) inv(2) ok by (intro exI [of _ m'] exI [of _ ps'] exI [of _ g'] exI [of _ t']) simp
qed

lemma thread_new_returns:
  assumes "alloc_stack hh A m = Inr (stack, m')"
  shows "\<exists>th. thread_new hh A func ts False m = Inr (th, m') \<and> th_stack_ptr th = stack"
  using assms by (simp add: thread_new_def Prepare_thread_def ctx_of_words_def N_CPUREGS_x86_def)

lemma sched_init_returns:
  assumes "tss_at s (tss_ptr s) = Some t" "owned_rep off s []" "schedlock s = None" "idle_thread s = None" "lapic_ready s"
    and "list_item off p1" "thread_new hh A useless 10 False m = Inr (idle, m1)" "thread_new hh A kentry 1 False m1 = Inr (main, m2)"
  shows "\<exists>s'. sched_init off hh A useless kentry p1 p2 s m = Inr (s', m2)"
proof -
  let ?s1 = "s\<lparr>schedlock := Some SpinLock_new, tss_at := (tss_at s)(tss_ptr s \<mapsto> set_interrupt_stack (interrupt_stack s) t)\<rparr>"
  let ?a = "?s1\<lparr>threads := (threads s)(p1 \<mapsto> main), strong := (strong s)(p1 := 1)\<rparr>"
  have a: "arc_new off p1 main ?s1 = ?a" and rep: "owned_rep off ?a []"
    using assms(2) by (simp_all add: arc_new_clear owned_rep_new)
  from arc.pushb_new [OF rep assms(6)] obtain s2 where s2: "Arc_push_back off p1 ?a = (Inr (), s2)"
    by auto
  from Arc_push_back_frame [OF this] have "idle_thread s2 = None" "lapic_ready s2"
    using assms(4,5) by auto
  then show ?thesis
    using assms(1,3,7,8) a s2 by (simp add: sched_init_def cpu_set_interrupt_stack_def arc_new_def set_timer_ms_def)
qed

text \<open>From three stacks to the first tick.\<close>

lemma sched_boot_ok:
  assumes st: "alloc_stack hh A m = Inr (k1, m1)" "alloc_stack hh A m1 = Inr (k2, m2)" "alloc_stack hh A m2 = Inr (k3, m3)"
    and tss: "bsp \<longrightarrow> tm BSP_TSS \<noteq> None"
    and p: "p1 \<noteq> p2" "list_item off p1" "list_item off p2" and f: "length f = N_CPUREGS_x86"
  shows "\<exists>cpu s. cpu_local_new hh A bsp BSP_TSS l bt tm m = Inr (cpu, m1) \<and> gs_base cpu = l \<and> sel cpu = l
    \<and> sched_init off hh A useless kentry p1 p2 (cpu\<lparr>lapic_ready := True\<rparr>) m1 = Inr (s, m3)
    \<and> sched_ok off s [p1] \<and> idle_thread s = Some p2 \<and> intr_on s
    \<and> map_option ist1 (tss_at s (tss_ptr s)) = Some k1 \<and> map_option th_stack_ptr (threads s p2) = Some k2
    \<and> (\<exists>regs s' cx. idt_handler off 0x21 f s = Inr (regs, s') \<and> sched_ok off s' [] \<and> cur_thread s' = Some p1
        \<and> ctx_of_words regs = Some cx \<and> c_rip cx = kentry \<and> \<not> is_user cx \<and> c_rflags cx = 0x202 \<and> c_rsp cx = k3)"
proof -
  obtain cpu where cpu: "cpu_local_new hh A bsp BSP_TSS l bt tm m = Inr (cpu, m1)" "tss_at cpu (tss_ptr cpu) \<noteq> None"
    "owned_rep off cpu []" "schedlock cpu = None" "cur_thread cpu = None" "idle_thread cpu = None" "preempt cpu"
    "gs_base cpu = l" "sel cpu = l" "interrupt_stack cpu = k1"
    using tss by (auto simp: cpu_local_new_def st(1) init_cpu_local_def owned_rep_new Let_def)
  let ?c = "cpu\<lparr>lapic_ready := True\<rparr>"
  have c: "owned_rep off ?c []"
    using cpu(3) by (simp add: owned_rep_new)
  from thread_new_returns [OF st(2), of useless 10] thread_new_returns [OF st(3), of kentry 1] obtain idle main where
    th: "thread_new hh A useless 10 False m1 = Inr (idle, m2)" "th_stack_ptr idle = k2"
      "thread_new hh A kentry 1 False m2 = Inr (main, m3)" "th_stack_ptr main = k3"
    by blast
  from sched_init_returns [of ?c _ off p1, OF _ c _ _ _ p(2) th(1,3)] cpu(2,4,6) obtain s where
    init: "sched_init off hh A useless kentry p1 p2 ?c m1 = Inr (s, m3)"
    by auto
  from sched_init_ok [OF init c _ _ _ _ p] cpu(4-7,10) th(1,3) have
    s: "sched_ok off s [p1]" "cur_thread s = None" "idle_thread s = Some p2" "intr_on s" "preempt s"
      "map_option ist1 (tss_at s (tss_ptr s)) = Some k1" "threads s p1 = Some main" "threads s p2 = Some idle"
    by auto
  have "sched_ok off (s\<lparr>acked := acked s + 1\<rparr>) [p1]" "cur_thread (s\<lparr>acked := acked s + 1\<rparr>) = None"
    using s by simp_all
  from yield_first [OF this f] obtain s' where
    y: "sched_yield off f (s\<lparr>acked := acked s + 1\<rparr>) = Inr (ctx_of s p1, s')" "sched_ok off s' []" "cur_thread s' = Some p1"
    by auto
  have "idt_handler off 0x21 f s = Inr (th_cpucontext main, s')"
    using y(1) s(5,7) sched_okD(2) [OF s(1)] by (simp add: idt_handler_def acknowledge_interrupt_def ctx_of_def)
  with thread_new_ctx [OF th(3)] th(2,4) y(2,3) have
    "\<exists>regs s' cx. idt_handler off 0x21 f s = Inr (regs, s') \<and> sched_ok off s' [] \<and> cur_thread s' = Some p1
        \<and> ctx_of_words regs = Some cx \<and> c_rip cx = kentry \<and> \<not> is_user cx \<and> c_rflags cx = 0x202 \<and> c_rsp cx = k3"
    by auto
  with cpu(1,8,9) init s th(2) show ?thesis
    by (intro exI [of _ cpu] exI [of _ s]) simp
qed

section \<open>Properties\<close>

text \<open>
  C5: round robin under the timer. When a thread runs and others wait, as many ticks
  as there are threads give every one its turn: each waiting thread continues with exactly
  the registers it was left with, in the order of the queue, and the running thread
  continues, last, with the registers the first tick interrupted. No tick panics, each is
  acknowledged, the registers of every tick are saved in the thread it interrupted, and
  the queue is back where it was.
\<close>

theorem timer_round_robin:
  assumes "sched_ok off s xs" "preempt s" "cur_thread s = Some c"
    and "length fs = Suc (length xs)" "\<forall>f \<in> set fs. length f = N_CPUREGS_x86"
  shows "\<exists>s'. timer_run off fs s = Inr (map (ctx_of s) xs @ [hd fs], s')
    \<and> sched_ok off s' xs \<and> cur_thread s' = Some c \<and> preempt s' \<and> acked s' = acked s + length fs
    \<and> (\<forall>k < length fs. ctx_of s' ((c # xs) ! k) = fs ! k)"
proof -
  have "distinct (c # xs)"
    using sched_okD(3) [OF assms(1)] assms(3) by auto
  from ring_round [OF assms(4) this] obtain m' where
    m': "ring_run fs (c # xs, ctx_of s) = (map (ctx_of s) xs @ [hd fs], c # xs, m')" "\<forall>k < length fs. m' ((c # xs) ! k) = fs ! k"
    by blast
  from timer_run_ok [OF assms(1-3,5)] obtain gs s' c' xs' where
    "timer_run off fs s = Inr (gs, s')" "ring_run fs (c # xs, ctx_of s) = (gs, c' # xs', ctx_of s')"
      "sched_ok off s' xs'" "cur_thread s' = Some c'" "preempt s'" "acked s' = acked s + length fs"
    by blast
  with m' show ?thesis
    by (intro exI [of _ s']) simp
qed

definition example_thread :: "usize \<Rightarrow> thread" where
  "example_thread r = \<lparr>th_stack_ptr = 0, th_cpucontext = replicate 22 r, th_timeslice = 10\<rparr>"

definition example_cpu :: sched_state where
  "example_cpu = \<lparr>inner = InvasiveList_new, nodes = \<lambda>_. InvasiveListNode_new, strong = \<lambda>_. 1, boxes = {},
     threads = [0x2000 \<mapsto> example_thread 7, 0x3000 \<mapsto> example_thread 8], sel = 0, run_lock = False,
     cur_thread = Some 0x3000, idle_thread = None, preempt = True, interrupt_stack = 0, cpu_gdt = None, tss_ptr = 0,
     tss_at = Map.empty, gs_base = 0, schedlock = Some SpinLock_new, lapic_ready = True, timer_ms = None, acked = 0,
     intr_on = True\<rparr>"

lemma example_cpu_ok:
  "\<exists>s :: sched_state. sched_ok 0x10 s [0x2000] \<and> preempt s \<and> cur_thread s = Some 0x3000 \<and> ctx_of s 0x2000 = replicate 22 7"
proof -
  have "owned_rep 0x10 example_cpu []" "list_item 0x10 0x2000" "list_item 0x10 0x3000"
    by (simp_all add: owned_rep_new example_cpu_def list_item_def list_node_def)
  with arc.pushb_new [of "0x10" example_cpu "[]" "0x2000"] obtain s where
    s: "Arc_push_back 0x10 0x2000 example_cpu = (Inr (), s)" "owned_rep 0x10 s [0x2000]" and it: "list_item 0x10 0x2000"
      "list_item 0x10 0x3000"
    by auto
  from Arc_push_back_frame [OF s(1)] obtain i n where fr: "s = example_cpu\<lparr>inner := i, nodes := n\<rparr>"
    by blast
  show ?thesis
    using s(2) it by (intro exI [of _ s])
      (simp add: sched_ok_def fr example_cpu_def SpinLock_new_def thread_ok_def example_thread_def N_CPUREGS_x86_def ctx_of_def)
qed

theorem timer_round_robin_witness:
  "\<exists>(s :: sched_state) s'. cur_thread s = Some 0x3000
     \<and> timer_run 0x10 [replicate 22 1, replicate 22 2] s = Inr ([replicate 22 7, replicate 22 1], s')
     \<and> cur_thread s' = Some 0x3000 \<and> ctx_of s' 0x2000 = replicate 22 2"
proof -
  from example_cpu_ok obtain s :: sched_state where
    s: "sched_ok 0x10 s [0x2000]" "preempt s" "cur_thread s = Some 0x3000" "ctx_of s 0x2000 = replicate 22 7"
    by blast
  have "length [replicate 22 1, replicate 22 2 :: usize list] = Suc (length [0x2000 :: u64])"
    "\<forall>f \<in> set [replicate 22 1, replicate 22 2 :: usize list]. length f = N_CPUREGS_x86"
    by (simp_all add: N_CPUREGS_x86_def)
  from timer_round_robin [OF s(1-3) this] obtain s' where
    "timer_run 0x10 [replicate 22 1, replicate 22 2] s = Inr (map (ctx_of s) [0x2000] @ [hd [replicate 22 1, replicate 22 2]], s')"
      "cur_thread s' = Some 0x3000" "\<forall>k < length [replicate 22 1, replicate 22 2 :: usize list].
        ctx_of s' ([0x3000, 0x2000] ! k) = [replicate 22 1, replicate 22 2] ! k"
    by blast
  then have "timer_run 0x10 [replicate 22 1, replicate 22 2] s = Inr ([replicate 22 7, replicate 22 1], s')
      \<and> cur_thread s' = Some 0x3000 \<and> ctx_of s' 0x2000 = replicate 22 2"
    using s(4) by (auto simp del: replicate_Suc replicate.simps)
  with s(3) show ?thesis
    by blast
qed

text \<open>
  C31: starting the scheduler on x86_64. On a kernel map with three gaps for a stack and
  frames left, \<^verbatim>\<open>cpu_local::new\<close> and \<^verbatim>\<open>sched_init\<close> return. The interrupt stack, the idle
  thread's and the main thread's are three areas that share no address with each other or
  with any region there was, every page of each is mapped, and each stack pointer is the
  upper end of its area. The queue holds the main thread, interrupts are on and use the
  processor's own stack, and the first tick enters \<^verbatim>\<open>kentry\<close> in kernel mode on the main
  thread's stack with interrupts enabled; the invariants of the scheduler and of the kernel
  map hold from then on.
\<close>

theorem sched_boot:
  fixes m :: "'m vmm_state_scheme"
  assumes inv: "kmap_inv (x86_tables hh) hh m pm ps g t" "kermap m = Some pm" "regions_ok (regions (vm_regions m) ps)"
    and gaps: "place_region 0x40000 3 (regions (vm_regions m) ps) = Some (b1, rs1)" "place_region 0x40000 3 rs1 = Some (b2, rs2)"
      "place_region 0x40000 3 rs2 = Some (b3, rs3)" "list_all (\<lambda>b. page_aligned b \<and> high_half 4 b) [b1, b2, b3]"
    and room: "stack_frames b1 + stack_frames b2 + stack_frames b3 \<le> slab_room g"
    and tss: "bsp \<longrightarrow> tm BSP_TSS \<noteq> None"
    and p: "p1 \<noteq> p2" "list_item off p1" "list_item off p2" and f: "length f = N_CPUREGS_x86"
  shows "\<exists>cpu m1 s m3 ps' g' t'. cpu_local_new hh (x86_arch hh) bsp BSP_TSS l bt tm m = Inr (cpu, m1) \<and> gs_base cpu = l \<and> sel cpu = l
    \<and> sched_init off hh (x86_arch hh) useless kentry p1 p2 (cpu\<lparr>lapic_ready := True\<rparr>) m1 = Inr (s, m3)
    \<and> kmap_inv (x86_tables hh) hh m3 pm ps' g' t' \<and> regions (vm_regions m3) ps' = rs3 \<and> regions_ok rs3
    \<and> list_all (\<lambda>b. stack_mapped hh (arch_page pm + hh) b (mem m3)
          \<and> (\<forall>r\<in>set (regions (vm_regions m) ps). region_addrs r \<inter> stack_addrs b = {})) [b1, b2, b3]
    \<and> stack_addrs b1 \<inter> stack_addrs b2 = {} \<and> stack_addrs b1 \<inter> stack_addrs b3 = {} \<and> stack_addrs b2 \<inter> stack_addrs b3 = {}
    \<and> sched_ok off s [p1] \<and> idle_thread s = Some p2 \<and> intr_on s
    \<and> map_option ist1 (tss_at s (tss_ptr s)) = Some (b1 + 0x40000)
    \<and> map_option th_stack_ptr (threads s p2) = Some (b2 + 0x40000)
    \<and> (\<exists>regs s' cx. idt_handler off 0x21 f s = Inr (regs, s') \<and> sched_ok off s' [] \<and> cur_thread s' = Some p1
        \<and> ctx_of_words regs = Some cx \<and> c_rip cx = kentry \<and> \<not> is_user cx \<and> c_rflags cx = 0x202 \<and> c_rsp cx = b3 + 0x40000)"
proof -
  let ?root = "arch_page pm + hh"
  have al: "page_aligned b1" "high_half 4 b1" "page_aligned b2" "high_half 4 b2" "page_aligned b3" "high_half 4 b3"
    using gaps(4) by simp_all
  have "stack_frames b1 \<le> slab_room g"
    using room by simp
  from alloc_stack_ok [OF inv(1,2) refl inv(3) gaps(1) al(1,2) this] obtain m1 ps1 g1 t1 where
    1: "alloc_stack hh (x86_arch hh) m = Inr (b1 + 0x40000, m1)" "kmap_inv (x86_tables hh) hh m1 pm ps1 g1 t1" "kermap m1 = Some pm"
      "regions (vm_regions m1) ps1 = rs1" "regions_ok rs1" "set rs1 = insert (b1, 0x40000, 3) (set (regions (vm_regions m) ps))"
      "\<forall>r\<in>set (regions (vm_regions m) ps). region_addrs r \<inter> stack_addrs b1 = {}" "stack_base_ok b1"
      "stack_mapped hh ?root b1 (mem m1)" "slab_room g \<le> slab_room g1 + stack_frames b1"
    by blast
  have "stack_frames b2 \<le> slab_room g1"
    using room 1(10) by simp
  from alloc_stack_ok [OF 1(2-5) gaps(2) al(3,4) this] obtain m2 ps2 g2 t2 where
    2: "alloc_stack hh (x86_arch hh) m1 = Inr (b2 + 0x40000, m2)" "kmap_inv (x86_tables hh) hh m2 pm ps2 g2 t2" "kermap m2 = Some pm"
      "regions (vm_regions m2) ps2 = rs2" "regions_ok rs2" "set rs2 = insert (b2, 0x40000, 3) (set rs1)"
      "\<forall>r\<in>set rs1. region_addrs r \<inter> stack_addrs b2 = {}" "stack_base_ok b2" "stack_mapped hh ?root b2 (mem m2)"
      "\<forall>c. stack_base_ok c \<and> stack_addrs c \<inter> stack_addrs b2 = {} \<and> stack_mapped hh ?root c (mem m1) \<longrightarrow> stack_mapped hh ?root c (mem m2)"
      "slab_room g1 \<le> slab_room g2 + stack_frames b2"
    by blast
  have "stack_frames b3 \<le> slab_room g2"
    using room 1(10) 2(11) by simp
  from alloc_stack_ok [OF 2(2-5) gaps(3) al(5,6) this] obtain m3 ps3 g3 t3 where
    3: "alloc_stack hh (x86_arch hh) m2 = Inr (b3 + 0x40000, m3)" "kmap_inv (x86_tables hh) hh m3 pm ps3 g3 t3"
      "regions (vm_regions m3) ps3 = rs3" "regions_ok rs3" "\<forall>r\<in>set rs2. region_addrs r \<inter> stack_addrs b3 = {}"
      "stack_mapped hh ?root b3 (mem m3)"
      "\<forall>c. stack_base_ok c \<and> stack_addrs c \<inter> stack_addrs b3 = {} \<and> stack_mapped hh ?root c (mem m2) \<longrightarrow> stack_mapped hh ?root c (mem m3)"
    by blast
  have addrs: "region_addrs (b, 0x40000, 3) = stack_addrs b" for b
    by (simp add: region_addrs_def stack_addrs_def)
  have apart: "stack_addrs b1 \<inter> stack_addrs b2 = {}" "stack_addrs b1 \<inter> stack_addrs b3 = {}" "stack_addrs b2 \<inter> stack_addrs b3 = {}"
    using 2(7) 3(5) unfolding 2(6) 1(6) by (simp_all add: addrs)
  have "stack_mapped hh ?root b1 (mem m3)" "stack_mapped hh ?root b2 (mem m3)"
    using 1(8,9) 2(8-10) 3(7) apart by blast+
  then have all: "list_all (\<lambda>b. stack_mapped hh ?root b (mem m3)
      \<and> (\<forall>r\<in>set (regions (vm_regions m) ps). region_addrs r \<inter> stack_addrs b = {})) [b1, b2, b3]"
    using 3(6) 1(7) 2(7) 3(5) unfolding 2(6) 1(6) by simp
  from sched_boot_ok [where bsp = bsp and tm = tm and BSP_TSS = BSP_TSS, OF 1(1) 2(1) 3(1) tss p f, of l bt useless kentry] obtain cpu s regs s' cx where
    r: "cpu_local_new hh (x86_arch hh) bsp BSP_TSS l bt tm m = Inr (cpu, m1)" "gs_base cpu = l" "sel cpu = l"
      "sched_init off hh (x86_arch hh) useless kentry p1 p2 (cpu\<lparr>lapic_ready := True\<rparr>) m1 = Inr (s, m3)"
      "sched_ok off s [p1]" "idle_thread s = Some p2" "intr_on s" "map_option ist1 (tss_at s (tss_ptr s)) = Some (b1 + 0x40000)"
      "map_option th_stack_ptr (threads s p2) = Some (b2 + 0x40000)"
      "idt_handler off 0x21 f s = Inr (regs, s')" "sched_ok off s' []" "cur_thread s' = Some p1"
        "ctx_of_words regs = Some cx" "c_rip cx = kentry" "\<not> is_user cx" "c_rflags cx = 0x202" "c_rsp cx = b3 + 0x40000"
    by (elim exE conjE)
  show ?thesis
    by (intro exI conjI) (rule r 3(2-4) all apart)+
qed

text \<open>
  The machine of the kernel map's example has room for three stacks: their pages lie in
  one table of each level.
\<close>

lemma tpaths4_cong:
  assumes "unat x div 0x200000 = unat b div 0x200000"
  shows "tpaths 4 x = tpaths 4 b"
proof -
  have "vidx (Suc (Suc j)) y = unat y div 0x200000 div 512 ^ j mod 512" for j and y :: u64
    by (simp add: vidx_def div_mult2_eq [symmetric] mult.assoc [symmetric])
  then have "vidx (Suc (Suc j)) x = vidx (Suc (Suc j)) b" for j
    using assms by simp
  then have "take k (vpath 4 x) = take k (vpath 4 b)" if "k < 4" for k
    using that by (simp add: numeral_eq_Suc less_Suc_eq) (elim disjE; simp)
  then show ?thesis
    unfolding tpaths_def by (intro image_cong) auto
qed

lemma example_stack_frames:
  assumes "stack_base_ok b" "unat b div 0x200000 = (unat b + 0x3FFFF) div 0x200000"
  shows "stack_frames b \<le> 69"
proof -
  have "tpaths 4 x = tpaths 4 b" if "x \<in> set (stack_pages b)" for x
  proof (rule tpaths4_cong)
    have "unat b \<le> unat x" "unat x \<le> unat b + 0x3FFFF"
      using stack_pages_in(1) [OF assms(1) that] by (auto simp: stack_addrs_def)
    then show "unat x div 0x200000 = unat b div 0x200000"
      using div_le_mono [of "unat b" "unat x" "0x200000"] div_le_mono [of "unat x" "unat b + 0x3FFFF" "0x200000"] assms(2) by simp
  qed
  then have "(\<Union>x\<in>set (stack_pages b). tpaths 4 x) \<subseteq> tpaths 4 b"
    by auto
  then have "card (\<Union>x\<in>set (stack_pages b). tpaths 4 x) \<le> card (tpaths 4 b)"
    by (intro card_mono) (simp add: tpaths_def)
  then show ?thesis
    using card_tpaths4 [of b] by (simp add: stack_frames_def)
qed

lemma example_gaps:
  "place_region 0x40000 3 [(0xffff800000000000, 0x2000, 7), (0xffffffff80000000, 0x1000, 6)]
     = Some (0xffff800000002000, [(0xffff800000000000, 0x2000, 7), (0xffff800000002000, 0x40000, 3), (0xffffffff80000000, 0x1000, 6)])"
  "place_region 0x40000 3 [(0xffff800000000000, 0x2000, 7), (0xffff800000002000, 0x40000, 3), (0xffffffff80000000, 0x1000, 6)]
     = Some (0xffff800000042000, [(0xffff800000000000, 0x2000, 7), (0xffff800000002000, 0x40000, 3), (0xffff800000042000, 0x40000, 3),
         (0xffffffff80000000, 0x1000, 6)])"
  "place_region 0x40000 3 [(0xffff800000000000, 0x2000, 7), (0xffff800000002000, 0x40000, 3), (0xffff800000042000, 0x40000, 3),
         (0xffffffff80000000, 0x1000, 6)]
     = Some (0xffff800000082000, [(0xffff800000000000, 0x2000, 7), (0xffff800000002000, 0x40000, 3), (0xffff800000042000, 0x40000, 3),
         (0xffff800000082000, 0x40000, 3), (0xffffffff80000000, 0x1000, 6)])"
  "list_all (\<lambda>b. page_aligned b \<and> high_half 4 b) [0xffff800000002000, 0xffff800000042000, 0xffff800000082000]"
  "stack_frames 0xffff800000002000 + stack_frames 0xffff800000042000 + stack_frames 0xffff800000082000 \<le> 228"
proof -
  have "stack_frames 0xffff800000002000 \<le> 69" "stack_frames 0xffff800000042000 \<le> 69" "stack_frames 0xffff800000082000 \<le> 69"
    by (rule example_stack_frames; simp add: stack_base_ok_def page_aligned_def high_half_def)+
  then show "stack_frames 0xffff800000002000 + stack_frames 0xffff800000042000 + stack_frames 0xffff800000082000 \<le> 228"
    by simp
qed (simp_all add: place_region_def region_end_def PAGE_SIZE_def page_aligned_def high_half_def)

theorem sched_boot_witness:
  "\<exists>(m :: vmm_state) cpu m1 s m3 regs s' cx.
     cpu_local_new 0xffff800000000000 (x86_arch 0xffff800000000000) True 0x9000 0x5000 0 [0x9000 \<mapsto> tss_new] m = Inr (cpu, m1)
   \<and> sched_init 0x10 0xffff800000000000 (x86_arch 0xffff800000000000) 0x100 0x200 0x2000 0x3000 (cpu\<lparr>lapic_ready := True\<rparr>) m1 = Inr (s, m3)
   \<and> map_option ist1 (tss_at s (tss_ptr s)) = Some 0xffff800000042000
   \<and> map_option th_stack_ptr (threads s 0x3000) = Some 0xffff800000082000
   \<and> idt_handler 0x10 0x21 (replicate 22 0) s = Inr (regs, s') \<and> ctx_of_words regs = Some cx \<and> c_rip cx = 0x200
   \<and> c_rsp cx = 0xffff8000000c2000"
proof -
  let ?h = "0xffff800000000000 :: u64"
  from example_vmm_boot obtain s0 :: vmm_state and pm ps g t where
    b: "kmap_inv (x86_tables ?h) ?h s0 pm ps g t"
      "regions (vm_regions s0) ps = [(0xffff800000000000, 0x2000, 7), (0xffffffff80000000, 0x1000, 6)]" "228 \<le> slab_room g"
    by blast
  define m where "m = s0\<lparr>kermap := Some pm\<rparr>"
  have m: "kmap_inv (x86_tables ?h) ?h m pm ps g t" "kermap m = Some pm"
    "regions (vm_regions m) ps = [(0xffff800000000000, 0x2000, 7), (0xffffffff80000000, 0x1000, 6)]"
    using kmap_inv_core [OF _ b(1), of m] b(2) by (simp_all add: m_def vmm_core_def)
  have it: "list_item 0x10 0x2000" "list_item 0x10 0x3000" "(0x2000 :: u64) \<noteq> 0x3000" "length (replicate 22 0) = N_CPUREGS_x86"
    by (simp_all add: list_item_def list_node_def N_CPUREGS_x86_def)
  have tss: "True \<longrightarrow> [0x9000 \<mapsto> tss_new] (0x9000 :: u64) \<noteq> None"
    by simp
  have room: "stack_frames 0xffff800000002000 + stack_frames 0xffff800000042000 + stack_frames 0xffff800000082000 \<le> slab_room g"
    using example_gaps(5) b(3) by simp
  have ends: "0xffff800000002000 + 0x40000 = (0xffff800000042000 :: u64)" "0xffff800000042000 + 0x40000 = (0xffff800000082000 :: u64)"
    "0xffff800000082000 + 0x40000 = (0xffff8000000c2000 :: u64)"
    by simp_all
  from sched_boot [where bsp = True and tm = "[0x9000 \<mapsto> tss_new]" and BSP_TSS = "0x9000", OF m(1,2) example_place(2) [folded m(3)]
      example_gaps(1) [folded m(3)] example_gaps(2-4) room tss it(3,1,2,4), of "0x5000" 0 "0x100" "0x200", unfolded ends]
  obtain cpu m1 s m3 regs s' cx where
    r: "cpu_local_new ?h (x86_arch ?h) True 0x9000 0x5000 0 [0x9000 \<mapsto> tss_new] m = Inr (cpu, m1)"
      "sched_init 0x10 ?h (x86_arch ?h) 0x100 0x200 0x2000 0x3000 (cpu\<lparr>lapic_ready := True\<rparr>) m1 = Inr (s, m3)"
      "map_option ist1 (tss_at s (tss_ptr s)) = Some 0xffff800000042000" "map_option th_stack_ptr (threads s 0x3000) = Some 0xffff800000082000"
      "idt_handler 0x10 0x21 (replicate 22 0) s = Inr (regs, s')" "ctx_of_words regs = Some cx" "c_rip cx = 0x200"
      "c_rsp cx = 0xffff8000000c2000"
    by (elim exE conjE)
  then show ?thesis
    by blast
qed

end
