(* ===== verification/Virtq.thy ===== *)
theory Virtq
  imports Pmm Locks
begin

text \<open>
  The split virtqueue of \<^verbatim>\<open>kernel/src/virtio/mod.rs\<close>: the pool of descriptors with its free
  list, the rings shared with the device, and the command of the graphics driver. The
  descriptor table and the rings each fill a page of their own, which only the driver
  and the device write; they are kept as arrays. What the device does while the
  driver polls is a parameter.
\<close>

section \<open>Data\<close>

definition VIRTQ_DESC_F_NEXT :: u16 where "VIRTQ_DESC_F_NEXT = 1"
definition VIRTQ_DESC_F_WRITE :: u16 where "VIRTQ_DESC_F_WRITE = 2"
definition QUEUE_SIZE :: usize where "QUEUE_SIZE = 256"

record virtq_desc =
  vd_addr :: u64
  vd_len :: u32
  vd_flags :: u16
  vd_next :: u16

record virtq_used_elem =
  ue_id :: u32
  ue_len :: u32

record freelistdescpool =
  dp_ptr :: u64
  dp_pool :: "virtq_desc list"
  dp_queue_size :: usize
  dp_head :: u16
  dp_num_free :: u16

record virtq =
  consumer_used_idx :: u16
  vq_desc :: freelistdescpool
  avail_ptr :: u64
  avail_idx :: u16
  avail_ring :: "u16 list"
  used_ptr :: u64
  used_idx :: u16
  used_ring :: "virtq_used_elem list"
  vq_notify :: "u64 option"
  vq_notified :: "(u64 \<times> u16) list"

section \<open>The descriptor pool\<close>

text \<open>A checked index into the table, and the unchecked pointers of the two accessors.\<close>

definition desc_at :: "virtq_desc list \<Rightarrow> u16 \<Rightarrow> panic + virtq_desc" where
  "desc_at t i = (if unat i < length t then Inr (t ! unat i) else Inl OutOfBounds)"

definition desc_upd :: "u16 \<Rightarrow> (virtq_desc \<Rightarrow> virtq_desc) \<Rightarrow> virtq_desc list \<Rightarrow> virtq_desc list" where
  "desc_upd i f t = t[unat i := f (t ! unat i)]"

definition get_desc_reference :: "u16 \<Rightarrow> freelistdescpool \<Rightarrow> panic + virtq_desc" where
  "get_desc_reference i p = (if unat i < length (dp_pool p) then Inr (dp_pool p ! unat i) else Inl BadPointer)"

definition get_desc_mutable :: "u16 \<Rightarrow> (virtq_desc \<Rightarrow> virtq_desc) \<Rightarrow> freelistdescpool \<Rightarrow> panic + freelistdescpool" where
  "get_desc_mutable i f p =
     (if unat i < length (dp_pool p) then Inr (p\<lparr>dp_pool := desc_upd i f (dp_pool p)\<rparr>) else Inl BadPointer)"

definition virtq_desc_next :: "virtq_desc \<Rightarrow> freelistdescpool \<Rightarrow> panic + virtq_desc option" where
  "virtq_desc_next d p =
     (if vd_flags d AND VIRTQ_DESC_F_NEXT \<noteq> 0
      then and_then (get_desc_reference (vd_next d) p) (\<lambda>e. Inr (Some e))
      else Inr None)"

definition zero_desc :: virtq_desc where
  "zero_desc = \<lparr>vd_addr = 0, vd_len = 0, vd_flags = 0, vd_next = 0\<rparr>"

text \<open>
  A fresh page is zero, so the table starts with zero descriptors. The table is a list of
  \<open>queue_size\<close> descriptors of its own here; in the source it is the page itself, which
  holds 256 descriptors of 16 bytes, and a larger queue would run over its end.
\<close>

definition freelistdescpool_new ::
    "u64 \<Rightarrow> usize \<Rightarrow> 'z pmm_state_scheme \<Rightarrow> panic + (freelistdescpool \<times> 'z pmm_state_scheme)" where
  "freelistdescpool_new hh queue_size s =
     and_then (allocate_page hh s) (\<lambda>(p, s1).
       let bla = map (\<lambda>i. zero_desc\<lparr>vd_next := of_nat i + 1\<rparr>) [0..<unat queue_size]
       in if bla = [] then Inl OutOfBounds
          else Inr (\<lparr>dp_ptr = p, dp_pool = desc_upd (of_nat (unat queue_size - 1)) (vd_next_update (\<lambda>_. 0)) bla,
             dp_queue_size = queue_size, dp_head = 0, dp_num_free = ucast queue_size\<rparr>, s1))"

primrec chain_walk :: "nat \<Rightarrow> u16 \<Rightarrow> virtq_desc list \<Rightarrow> panic + (u16 \<times> virtq_desc list)" where
  "chain_walk 0 cur t = Inr (cur, t)"
| "chain_walk (Suc n) cur t =
     and_then (desc_at t cur) (\<lambda>d.
       chain_walk n (vd_next d) (desc_upd cur (\<lambda>d. d\<lparr>vd_flags := vd_flags d OR VIRTQ_DESC_F_NEXT\<rparr>) t))"

text \<open>\<open>Inl ()\<close> inside the result is \<^verbatim>\<open>Err(())\<close>.\<close>

definition allocate_chain :: "u16 \<Rightarrow> freelistdescpool \<Rightarrow> panic + ((unit + u16) \<times> freelistdescpool)" where
  "allocate_chain chainlength p =
     (if chainlength = 0 \<or> dp_num_free p < chainlength then Inr (Inl (), p)
      else and_then (chain_walk (unat (chainlength - 1)) (dp_head p) (dp_pool p)) (\<lambda>(cur, t).
           and_then (desc_at t cur) (\<lambda>d.
             Inr (Inr (dp_head p),
               p\<lparr>dp_num_free := dp_num_free p - chainlength,
                 dp_pool := desc_upd cur (\<lambda>d. d\<lparr>vd_flags := vd_flags d AND NOT VIRTQ_DESC_F_NEXT, vd_next := 0\<rparr>) t,
                 dp_head := vd_next d\<rparr>))))"

text \<open>The loop of \<^verbatim>\<open>deallocate_chain\<close>, with a bound on its rounds.\<close>

primrec dealloc_walk :: "nat \<Rightarrow> u16 \<Rightarrow> u16 \<Rightarrow> virtq_desc list \<Rightarrow> panic + (u16 \<times> u16 \<times> virtq_desc list)" where
  "dealloc_walk 0 cur nf t = Inl OutOfFuel"
| "dealloc_walk (Suc fuel) cur nf t =
     and_then (desc_at t cur) (\<lambda>d.
       if vd_flags d AND VIRTQ_DESC_F_NEXT \<noteq> 0
       then dealloc_walk fuel (vd_next d) (nf + 1) (desc_upd cur (vd_flags_update (\<lambda>_. 0)) t)
       else Inr (cur, nf, t))"

definition deallocate_chain :: "u16 \<Rightarrow> freelistdescpool \<Rightarrow> panic + freelistdescpool" where
  "deallocate_chain headofthechain p =
     and_then (dealloc_walk (Suc (length (dp_pool p))) headofthechain (dp_num_free p) (dp_pool p)) (\<lambda>(cur, nf, t).
       Inr (p\<lparr>dp_pool := desc_upd cur (\<lambda>d. d\<lparr>vd_next := dp_head p, vd_flags := 0\<rparr>) t,
         dp_num_free := nf + 1, dp_head := headofthechain\<rparr>))"

section \<open>The rings\<close>

definition virtq_new :: "u64 \<Rightarrow> usize \<Rightarrow> 'z pmm_state_scheme \<Rightarrow> panic + (virtq \<times> 'z pmm_state_scheme)" where
  "virtq_new hh queue_size s =
     and_then (freelistdescpool_new hh queue_size s) (\<lambda>(pool, s1).
     and_then (allocate_page hh s1) (\<lambda>(av, s2).
     and_then (allocate_page hh s2) (\<lambda>(us, s3).
       Inr (\<lparr>consumer_used_idx = 0, vq_desc = pool, avail_ptr = av, avail_idx = 0,
              avail_ring = replicate (unat queue_size) 0, used_ptr = us, used_idx = 0,
              used_ring = replicate (unat queue_size) \<lparr>ue_id = 0, ue_len = 0\<rparr>, vq_notify = None, vq_notified = []\<rparr>, s3))))"

definition expose_queue_addrs :: "virtq \<Rightarrow> u64 \<times> u64 \<times> u64" where
  "expose_queue_addrs v = (dp_ptr (vq_desc v), avail_ptr v, used_ptr v)"

definition virtq_notify :: "u16 \<Rightarrow> virtq \<Rightarrow> panic + virtq" where
  "virtq_notify queue_idx v =
     and_then (unwrap_opt (vq_notify v)) (\<lambda>n. Inr (v\<lparr>vq_notified := vq_notified v @ [(n, queue_idx)]\<rparr>))"

definition ring_slot :: "u16 \<Rightarrow> usize \<Rightarrow> nat \<Rightarrow> panic + nat" where
  "ring_slot idx q len =
     (if q = 0 then Inl DivByZero
      else let k = unat (ucast idx mod q :: usize) in if k < len then Inr k else Inl OutOfBounds)"

definition virtq_submit :: "u16 \<Rightarrow> virtq \<Rightarrow> panic + virtq" where
  "virtq_submit command_chain v =
     and_then (ring_slot (avail_idx v) (dp_queue_size (vq_desc v)) (length (avail_ring v))) (\<lambda>k.
       Inr (v\<lparr>avail_ring := (avail_ring v)[k := command_chain], avail_idx := avail_idx v + 1\<rparr>))"

definition submit_to_queue :: "u16 \<Rightarrow> virtq \<Rightarrow> panic + ((unit + unit) \<times> virtq)" where
  "submit_to_queue command_chain v =
     (let la = avail_idx v - consumer_used_idx v
      in if la \<ge> ucast (dp_queue_size (vq_desc v)) then Inr (Inl (), v)
         else and_then (virtq_submit command_chain v) (\<lambda>v1. Inr (Inr (), v1)))"

text \<open>
  \<^verbatim>\<open>read_used_queue_blocking\<close>: one round per look at the index of the device, which makes
  the step \<open>dev\<close> in between.
\<close>

primrec read_used_queue_blocking :: "nat \<Rightarrow> (virtq \<Rightarrow> virtq) \<Rightarrow> virtq \<Rightarrow> panic + (virtq_used_elem \<times> virtq)" where
  "read_used_queue_blocking 0 dev v = Inl OutOfFuel"
| "read_used_queue_blocking (Suc fuel) dev v =
     (if used_idx v = consumer_used_idx v then read_used_queue_blocking fuel dev (dev v)
      else and_then (ring_slot (consumer_used_idx v) (dp_queue_size (vq_desc v)) (length (used_ring v))) (\<lambda>k.
             Inr (used_ring v ! k, v\<lparr>consumer_used_idx := consumer_used_idx v + 1\<rparr>)))"

section \<open>Commands\<close>

text \<open>\<^verbatim>\<open>static virtq\<close> with its lock and the interrupt flag of the processor.\<close>

record gpu_state = pmm_state +
  g_virtq :: "virtq option"
  g_lock :: SpinLock
  g_intr :: bool

text \<open>\<^verbatim>\<open>size_of::<virtio_gpu_ctrl_hdr>()\<close> is 24: three cells, of which only the type is not zero.\<close>

definition gpu_hdr_bytes :: u32 where "gpu_hdr_bytes = 24"

definition gpu_hdr_write :: "u64 \<Rightarrow> u32 \<Rightarrow> memory \<Rightarrow> memory" where
  "gpu_hdr_write req B m = m(req := ucast B, req + 8 := 0, req + 16 := 0)"

definition lock_virtq :: "'z gpu_state_scheme \<Rightarrow> panic + (virtq \<times> 'z gpu_state_scheme)" where
  "lock_virtq s =
     and_then (unwrap_opt (g_virtq s)) (\<lambda>v.
     and_then (SpinLock_lock (g_intr s, g_lock s)) (\<lambda>(i, l).
       Inr (v, s\<lparr>g_intr := i, g_lock := l\<rparr>)))"

definition unlock_virtq :: "virtq \<Rightarrow> 'z gpu_state_scheme \<Rightarrow> 'z gpu_state_scheme" where
  "unlock_virtq v s =
     (let (i, l) = SpinLock_unlock (g_intr s, g_lock s) in s\<lparr>g_virtq := Some v, g_intr := i, g_lock := l\<rparr>)"

definition fill_descs :: "u64 \<Rightarrow> u16 \<Rightarrow> u64 \<Rightarrow> u64 \<Rightarrow> u32 \<Rightarrow> freelistdescpool \<Rightarrow> panic + freelistdescpool" where
  "fill_descs hh head req resp resp_bytes p =
     and_then (get_desc_mutable head (\<lambda>_. \<lparr>vd_addr = req - hh, vd_len = gpu_hdr_bytes, vd_flags = VIRTQ_DESC_F_NEXT,
         vd_next = head + 1\<rparr>) p) (\<lambda>p1.
       get_desc_mutable (head + 1) (\<lambda>_. \<lparr>vd_addr = resp - hh, vd_len = resp_bytes, vd_flags = VIRTQ_DESC_F_WRITE,
         vd_next = 0\<rparr>) p1)"

definition submit_simple_command_and_await_response ::
    "u64 \<Rightarrow> nat \<Rightarrow> (virtq \<Rightarrow> virtq) \<Rightarrow> u32 \<Rightarrow> u32 \<Rightarrow> 'z gpu_state_scheme
      \<Rightarrow> panic + ((virtq_used_elem \<times> u64 \<times> u64) \<times> 'z gpu_state_scheme)" where
  "submit_simple_command_and_await_response hh fuel dev B resp_bytes s =
     and_then (lock_virtq s) (\<lambda>(guh, s0).
     and_then (allocate_chain 2 (vq_desc guh)) (\<lambda>(r, pool).
     and_then (unwrap_res r) (\<lambda>head.
     and_then (allocate_page hh s0) (\<lambda>(req, s1).
     and_then (allocate_page hh s1) (\<lambda>(resp, s2).
       let s3 = s2\<lparr>mem := gpu_hdr_write req B (mem s2)\<rparr>
       in and_then (fill_descs hh head req resp resp_bytes pool) (\<lambda>pool1.
          and_then (submit_to_queue head (guh\<lparr>vq_desc := pool1\<rparr>)) (\<lambda>(r1, v1).
          and_then (unwrap_res r1) (\<lambda>_.
          and_then (virtq_notify 0 v1) (\<lambda>v2.
          and_then (read_used_queue_blocking fuel dev v2) (\<lambda>(used, v3).
            Inr ((used, resp, req), unlock_virtq v3 s3)))))))))))"

definition simple_command_cleanup ::
    "u64 \<Rightarrow> virtq_used_elem \<times> u64 \<times> u64 \<Rightarrow> 'z gpu_state_scheme \<Rightarrow> panic + 'z gpu_state_scheme" where
  "simple_command_cleanup hh cmd s =
     (case cmd of (used, resp, req) \<Rightarrow>
        and_then (lock_virtq s) (\<lambda>(guh, s0).
        and_then (deallocate_chain (ucast (ue_id used)) (vq_desc guh)) (\<lambda>pool.
        and_then (deallocate_page hh resp s0) (\<lambda>s1.
        and_then (deallocate_page hh req s1) (\<lambda>s2.
          Inr (unlock_virtq (guh\<lparr>vq_desc := pool\<rparr>) s2))))))"

section \<open>The free list and the chains\<close>

abbreviation (input) has_next :: "virtq_desc \<Rightarrow> bool" where
  "has_next d \<equiv> vd_flags d AND VIRTQ_DESC_F_NEXT \<noteq> 0"

fun linked :: "virtq_desc list \<Rightarrow> nat list \<Rightarrow> bool" where
  "linked t (x # y # zs) \<longleftrightarrow> unat (vd_next (t ! x)) = y \<and> linked t (y # zs)"
| "linked t xs \<longleftrightarrow> True"

text \<open>A chain as the device follows it: every descriptor but the last has a successor.\<close>

fun chained :: "virtq_desc list \<Rightarrow> nat list \<Rightarrow> bool" where
  "chained t [] \<longleftrightarrow> False"
| "chained t [x] \<longleftrightarrow> \<not> has_next (t ! x)"
| "chained t (x # y # zs) \<longleftrightarrow> has_next (t ! x) \<and> unat (vd_next (t ! x)) = y \<and> chained t (y # zs)"

definition pool_inv :: "freelistdescpool \<Rightarrow> nat list \<Rightarrow> nat list list \<Rightarrow> bool" where
  "pool_inv p free cs \<longleftrightarrow>
     length (dp_pool p) < 2 ^ 16 \<and> distinct (free @ concat cs) \<and> set (free @ concat cs) = {..<length (dp_pool p)}
     \<and> linked (dp_pool p) free \<and> (free \<noteq> [] \<longrightarrow> unat (dp_head p) = hd free) \<and> unat (dp_num_free p) = length free
     \<and> (\<forall>c \<in> set cs. chained (dp_pool p) c)"

lemma linked_cong: "(\<And>x. x \<in> set xs \<Longrightarrow> vd_next (t' ! x) = vd_next (t ! x)) \<Longrightarrow> linked t' xs = linked t xs"
  by (induction t xs rule: linked.induct) auto

lemma chained_cong: "(\<And>x. x \<in> set c \<Longrightarrow> t' ! x = t ! x) \<Longrightarrow> chained t' c = chained t c"
  by (induction t c rule: chained.induct) auto

lemma linked_Cons: "linked t (x # xs) \<longleftrightarrow> (xs \<noteq> [] \<longrightarrow> unat (vd_next (t ! x)) = hd xs) \<and> linked t xs"
  by (cases xs) auto

lemma linked_append:
  "linked t (xs @ ys) \<longleftrightarrow> linked t xs \<and> linked t ys \<and> (xs \<noteq> [] \<longrightarrow> ys \<noteq> [] \<longrightarrow> unat (vd_next (t ! last xs)) = hd ys)"
  by (induction xs) (auto simp: linked_Cons hd_append)

lemma chained_iff:
  "chained t c \<longleftrightarrow> c \<noteq> [] \<and> linked t c \<and> (\<forall>x \<in> set (butlast c). has_next (t ! x)) \<and> \<not> has_next (t ! last c)"
  by (induction t c rule: chained.induct) auto

lemma next_flag [simp]:
  "f AND VIRTQ_DESC_F_NEXT = 0 \<longleftrightarrow> \<not> bit f 0"
  "bit (f OR VIRTQ_DESC_F_NEXT) 0" "\<not> bit (f AND NOT VIRTQ_DESC_F_NEXT) 0"
  by (simp add: VIRTQ_DESC_F_NEXT_def and_one_eq bit_0 even_iff_mod_2_eq_zero)
    (simp_all add: VIRTQ_DESC_F_NEXT_def bit_or_iff bit_and_iff bit_not_iff)

lemma desc_at_ok: "unat i = x \<Longrightarrow> x < length t \<Longrightarrow> desc_at t i = Inr (t ! x)"
  by (simp add: desc_at_def)

lemma desc_upd_simps [simp]:
  "length (desc_upd i f t) = length t"
  "unat i < length t \<Longrightarrow> desc_upd i f t ! unat i = f (t ! unat i)"
  "x \<noteq> unat i \<Longrightarrow> desc_upd i f t ! x = t ! x"
  by (simp_all add: desc_upd_def)

lemma chain_walk_ok:
  "linked t xs \<Longrightarrow> distinct xs \<Longrightarrow> set xs \<subseteq> {..<length t} \<Longrightarrow> n < length xs \<Longrightarrow> unat cur = hd xs \<Longrightarrow>
     \<exists>t' cur'. chain_walk n cur t = Inr (cur', t') \<and> unat cur' = xs ! n \<and> length t' = length t
       \<and> (\<forall>x. x \<notin> set (take n xs) \<longrightarrow> t' ! x = t ! x)
       \<and> (\<forall>x \<in> set (take n xs). vd_next (t' ! x) = vd_next (t ! x) \<and> has_next (t' ! x))"
proof (induction n arbitrary: xs cur t)
  case 0
  then show ?case by (cases xs) auto
next
  case (Suc n)
  then obtain x y zs where xs: "xs = x # y # zs"
    by (cases xs; cases "tl xs") auto
  have x: "unat cur = x" "x < length t"
    using Suc.prems by (auto simp: xs)
  let ?t = "desc_upd cur (\<lambda>d. d\<lparr>vd_flags := vd_flags d OR VIRTQ_DESC_F_NEXT\<rparr>) t"
  have t: "vd_next (?t ! z) = vd_next (t ! z)" for z
    using x by (cases "z = unat cur") auto
  have fl: "has_next (?t ! x)"
    using x by auto
  have "linked ?t (y # zs)"
    using Suc.prems(1) linked_cong [of "y # zs" ?t t] t by (simp add: xs)
  from Suc.IH [OF this, of "vd_next (t ! x)"] Suc.prems obtain t' cur' where
    r: "chain_walk n (vd_next (t ! x)) ?t = Inr (cur', t')" "unat cur' = (y # zs) ! n" "length t' = length t"
      "\<forall>z. z \<notin> set (take n (y # zs)) \<longrightarrow> t' ! z = ?t ! z"
      "\<forall>z \<in> set (take n (y # zs)). vd_next (t' ! z) = vd_next (?t ! z) \<and> has_next (t' ! z)"
    by (auto simp: xs)
  have nx: "x \<notin> set (take n (y # zs))"
    using Suc.prems(2) by (auto simp: xs dest: in_set_takeD)
  have "chain_walk (Suc n) cur t = Inr (cur', t')"
    using r(1) desc_at_ok [OF x] by simp
  moreover have "t' ! z = t ! z" if "z \<notin> set (take (Suc n) xs)" for z
    using that r(4) x by (auto simp: xs)
  moreover have "vd_next (t' ! z) = vd_next (t ! z) \<and> has_next (t' ! z)" if "z \<in> set (take (Suc n) xs)" for z
    using that r(4,5) nx fl t by (auto simp: xs)
  ultimately show ?case
    using r(2,3) by (intro exI [of _ t'] exI [of _ cur']) (auto simp: xs)
qed

lemma linked_take_drop: "linked t xs \<Longrightarrow> linked t (take n xs) \<and> linked t (drop n xs)"
  by (metis append_take_drop_id linked_append)

lemma distinct_swap: "distinct ((xs @ ys) @ zs) \<Longrightarrow> distinct (ys @ xs @ zs)"
  by auto

lemma allocate_chain_ok:
  assumes inv: "pool_inv p free cs" and n: "n \<noteq> 0" "unat n \<le> length free"
  shows "\<exists>p'. allocate_chain n p = Inr (Inr (dp_head p), p') \<and> pool_inv p' (drop (unat n) free) (take (unat n) free # cs)
    \<and> unat (dp_head p) = hd free \<and> length (dp_pool p') = length (dp_pool p) \<and> dp_queue_size p' = dp_queue_size p \<and> dp_ptr p' = dp_ptr p"
proof -
  let ?k = "unat n - 1" and ?t = "dp_pool p"
  let ?c = "take (unat n) free" and ?r = "drop (unat n) free"
  have k: "?k < length free" "Suc ?k = unat n" "free \<noteq> []"
  proof -
    from n(1) have "0 < unat n"
      by (simp add: unat_gt_0)
    with n(2) show "?k < length free" "Suc ?k = unat n" "free \<noteq> []"
      by auto
  qed
  have d: "linked ?t free" "distinct free" "set free \<subseteq> {..<length ?t}" "unat (dp_head p) = hd free"
    "unat (dp_num_free p) = length free" "\<forall>c \<in> set cs. chained ?t c" "set free \<inter> set (concat cs) = {}"
    using inv k(3) by (auto simp: pool_inv_def)
  from chain_walk_ok [OF d(1-3) k(1) d(4)] obtain t' cur where
    w: "chain_walk ?k (dp_head p) ?t = Inr (cur, t')" "unat cur = free ! ?k" "length t' = length ?t"
      "\<forall>x. x \<notin> set (take ?k free) \<longrightarrow> t' ! x = ?t ! x"
      "\<forall>x \<in> set (take ?k free). vd_next (t' ! x) = vd_next (?t ! x) \<and> has_next (t' ! x)"
    by blast
  have c: "?c = take ?k free @ [unat cur]"
    using k w(2) by (metis take_Suc_conv_app_nth)
  have cur: "unat cur < length t'" "unat cur \<notin> set (take ?k free)" "unat cur \<notin> set ?r"
  proof -
    show "unat cur < length t'"
      using d(3) w(2,3) k(1) nth_mem by fastforce
    have "distinct (?c @ ?r)"
      using d(2) by simp
    then show "unat cur \<notin> set (take ?k free)" "unat cur \<notin> set ?r"
      unfolding c by auto
  qed
  let ?o = "desc_upd cur (\<lambda>d. d\<lparr>vd_flags := vd_flags d AND NOT VIRTQ_DESC_F_NEXT, vd_next := 0\<rparr>) t'"
  let ?p = "p\<lparr>dp_num_free := dp_num_free p - n, dp_pool := ?o, dp_head := vd_next (t' ! unat cur)\<rparr>"
  have lt: "\<not> dp_num_free p < n" and sub: "unat (dp_num_free p - n) = length free - unat n"
    using n d(5) by (auto simp: word_less_nat_alt word_le_nat_alt unat_sub)
  have run: "allocate_chain n p = Inr (Inr (dp_head p), ?p)"
    using n(1) lt w(1) cur(1) desc_at_ok [OF refl cur(1)] unat_minus_one [OF n(1)] by (simp add: allocate_chain_def)
  have same: "?o ! x = ?t ! x" if "x \<notin> set ?c" for x
    using that w(4) by (simp add: c)
  have ch: "chained ?o ?c"
  proof -
    have nx: "vd_next (?o ! x) = vd_next (?t ! x) \<and> has_next (?o ! x)" if "x \<in> set (take ?k free)" for x
      using that w(5) cur(2) by (cases "x = unat cur") auto
    have "linked ?t (take ?k free @ [unat cur])"
      using linked_take_drop [OF d(1), of "unat n"] by (simp add: c)
    then have "linked ?o (take ?k free @ [unat cur])"
      using nx linked_cong [of "take ?k free" ?o ?t] by (cases "take ?k free" rule: rev_cases) (auto simp: linked_append)
    with nx cur(1) show ?thesis
      unfolding chained_iff c by auto
  qed
  have "linked ?o ?r"
  proof -
    have "distinct (?c @ ?r)"
      using d(2) by simp
    then have "x \<notin> set ?c" if "x \<in> set ?r" for x
      using that unfolding distinct_append by blast
    with same linked_take_drop [OF d(1), of "unat n"] show ?thesis
      by (subst linked_cong [of ?r ?o ?t]) (auto simp del: desc_upd_simps)
  qed
  moreover have "unat (vd_next (t' ! unat cur)) = hd ?r" if "?r \<noteq> []"
  proof -
    have "linked ?t (?c @ ?r)"
      using d(1) by simp
    with that show ?thesis
      using w(4) cur(2) by (simp add: linked_append linked_Cons c)
  qed
  moreover have "chained ?o c" if "c \<in> set cs" for c
  proof -
    have "x \<notin> set ?c" if "x \<in> set c" for x
      using d(7) \<open>c \<in> set cs\<close> that by (auto dest: in_set_takeD)
    then show ?thesis
      using chained_cong [of c ?o ?t] same d(6) \<open>c \<in> set cs\<close> by blast
  qed
  moreover have "set (?r @ concat (?c # cs)) = set (free @ concat cs)"
    using set_append [of ?c ?r] by auto
  moreover have "distinct (?r @ concat (?c # cs))"
  proof -
    have "distinct ((?c @ ?r) @ concat cs)"
      using inv by (simp add: pool_inv_def)
    from distinct_swap [OF this] show ?thesis
      by simp
  qed
  ultimately have "pool_inv ?p ?r (?c # cs)"
    using inv ch sub w(3) by (simp add: pool_inv_def)
  with run d(4) w(3) show ?thesis
    by (intro exI [of _ ?p]) simp
qed

lemma allocate_chain_err:
  "pool_inv p free cs \<Longrightarrow> n = 0 \<or> length free < unat n \<Longrightarrow> allocate_chain n p = Inr (Inl (), p)"
  by (auto simp: allocate_chain_def pool_inv_def word_less_nat_alt)

lemma dealloc_walk_ok:
  "chained t c \<Longrightarrow> distinct c \<Longrightarrow> set c \<subseteq> {..<length t} \<Longrightarrow> length c \<le> fuel \<Longrightarrow> unat cur = hd c \<Longrightarrow>
     \<exists>t' cur'. dealloc_walk fuel cur nf t = Inr (cur', nf + of_nat (length c - 1), t') \<and> unat cur' = last c \<and> length t' = length t
       \<and> (\<forall>x. x \<notin> set (butlast c) \<longrightarrow> t' ! x = t ! x) \<and> (\<forall>x. vd_next (t' ! x) = vd_next (t ! x))"
proof (induction c arbitrary: fuel cur t nf)
  case (Cons x c)
  then obtain fuel' where fuel: "fuel = Suc fuel'"
    by (cases fuel) auto
  have x: "unat cur = x" "x < length t"
    using Cons.prems by auto
  show ?case
  proof (cases c)
    case Nil
    with Cons.prems(1) x fuel desc_at_ok [OF x] show ?thesis
      by auto
  next
    case (Cons y zs)
    let ?t = "desc_upd cur (vd_flags_update (\<lambda>_. 0)) t"
    have c: "bit (vd_flags (t ! x)) 0" "unat (vd_next (t ! x)) = y" "chained t c"
      using Cons.prems(1) by (simp_all add: Cons)
    have nx: "vd_next (?t ! z) = vd_next (t ! z)" for z
      using x by (cases "z = unat cur") auto
    have "chained ?t c"
    proof -
      have "z \<noteq> unat cur" if "z \<in> set c" for z
        using Cons.prems(2) x(1) that by auto
      with c(3) show ?thesis
        by (subst chained_cong [of c ?t t]) simp_all
    qed
    from Cons.IH [OF this, of fuel' "vd_next (t ! x)" "nf + 1"] Cons.prems fuel c(2) Cons obtain t' cur' where
      r: "dealloc_walk fuel' (vd_next (t ! x)) (nf + 1) ?t = Inr (cur', nf + 1 + of_nat (length c - 1), t')" "unat cur' = last c"
        "length t' = length t" "\<forall>x. x \<notin> set (butlast c) \<longrightarrow> t' ! x = ?t ! x" "\<forall>x. vd_next (t' ! x) = vd_next (?t ! x)"
      by auto
    have "dealloc_walk fuel cur nf t = Inr (cur', nf + of_nat (length (x # c) - 1), t')"
      using r(1) c(1) desc_at_ok [OF x] Cons by (simp add: fuel algebra_simps)
    with r(2-5) nx x Cons show ?thesis
      by (intro exI [of _ t'] exI [of _ cur']) auto
  qed
qed simp

lemma deallocate_chain_ok:
  assumes inv: "pool_inv p free (cs1 @ c # cs2)" and h: "unat h = hd c"
  shows "\<exists>p'. deallocate_chain h p = Inr p' \<and> pool_inv p' (c @ free) (cs1 @ cs2)
    \<and> length (dp_pool p') = length (dp_pool p) \<and> dp_queue_size p' = dp_queue_size p \<and> dp_ptr p' = dp_ptr p"
proof -
  let ?t = "dp_pool p"
  have d: "chained ?t c" "distinct c" "set c \<subseteq> {..<length ?t}" "linked ?t free" "free \<noteq> [] \<Longrightarrow> unat (dp_head p) = hd free"
    "unat (dp_num_free p) = length free" "set c \<inter> set free = {}" "length ?t < 2 ^ 16"
    using inv by (auto simp: pool_inv_def)
  have len: "length c + length free \<le> length ?t"
  proof -
    have "card (set (c @ free)) \<le> card {..<length ?t}"
      using inv by (intro card_mono) (auto simp: pool_inv_def)
    then show ?thesis
      using d(2,7) inv by (simp add: distinct_card card_Un_disjoint pool_inv_def)
  qed
  from dealloc_walk_ok [OF d(1-3), of "Suc (length ?t)" h "dp_num_free p"] len h obtain t' cur where
    w: "dealloc_walk (Suc (length ?t)) h (dp_num_free p) ?t = Inr (cur, dp_num_free p + of_nat (length c - 1), t')"
      "unat cur = last c" "length t' = length ?t" "\<forall>x. x \<notin> set (butlast c) \<longrightarrow> t' ! x = ?t ! x"
      "\<forall>x. vd_next (t' ! x) = vd_next (?t ! x)"
    by auto
  have ne: "c \<noteq> []" "linked ?t c"
    using d(1) by (auto simp: chained_iff)
  let ?o = "desc_upd cur (\<lambda>d. d\<lparr>vd_next := dp_head p, vd_flags := 0\<rparr>) t'"
  let ?p = "p\<lparr>dp_pool := ?o, dp_num_free := dp_num_free p + of_nat (length c - 1) + 1, dp_head := h\<rparr>"
  have cur: "unat cur < length t'" "unat cur \<in> set c"
    using subsetD [OF d(3) last_in_set [OF ne(1)]] w(2,3) ne(1) by simp_all
  have same: "?o ! x = ?t ! x" if "x \<notin> set c" for x
    using that w(4) cur(2) by (metis desc_upd_simps(3) in_set_butlastD)
  have "linked ?o (butlast c @ [last c])"
  proof -
    have "vd_next (?o ! x) = vd_next (?t ! x)" if "x \<in> set (butlast c)" for x
    proof -
      have "x \<noteq> last c"
        using that d(2) ne(1) by (metis append_butlast_last_id distinct_append disjoint_insert(1) list.set(2))
      with w(2,5) show ?thesis by simp
    qed
    moreover have "linked ?t (butlast c @ [last c])"
      using ne by simp
    ultimately show ?thesis
      using linked_cong [of "butlast c" ?o ?t] by (cases "butlast c" rule: rev_cases) (auto simp: linked_append)
  qed
  then have "linked ?o c"
    using ne(1) by simp
  moreover have "linked ?o free"
    using linked_cong [of free ?o ?t] same d(4,7) by (metis disjoint_iff)
  moreover have "free \<noteq> [] \<longrightarrow> unat (vd_next (?o ! last c)) = hd free"
    using d(5) desc_upd_simps(2) [OF cur(1)] w(2) by simp
  ultimately have "linked ?o (c @ free)"
    by (simp add: linked_append)
  moreover have "unat (dp_num_free p + of_nat (length c - 1) + 1) = length (c @ free)"
  proof -
    have eq: "dp_num_free p + of_nat (length c - 1) + 1 = (of_nat (length c + length free) :: u16)"
    proof -
      obtain k where "length c = Suc k"
        using ne(1) by (cases c) auto
      moreover have "dp_num_free p = of_nat (length free)"
        by (simp add: d(6) [symmetric])
      ultimately show ?thesis
        by (simp add: algebra_simps)
    qed
    show ?thesis
      unfolding eq using len d(8) by (simp add: unat_of_nat del: of_nat_add)
  qed
  moreover have "chained ?o e" if "e \<in> set (cs1 @ cs2)" for e
  proof -
    have "x \<notin> set c" if "x \<in> set e" for x
      using inv \<open>e \<in> set (cs1 @ cs2)\<close> that by (auto simp: pool_inv_def)
    then show ?thesis
      using chained_cong [of e ?o ?t] same inv that by (auto simp: pool_inv_def)
  qed
  ultimately have "pool_inv ?p (c @ free) (cs1 @ cs2)"
    using inv h w(3) ne(1) by (auto simp: pool_inv_def)
  moreover have "deallocate_chain h p = Inr ?p"
    using w(1) by (simp add: deallocate_chain_def)
  ultimately show ?thesis
    using w(3) by (intro exI [of _ ?p]) simp
qed

lemma linked_upt: "(\<And>i. a \<le> i \<Longrightarrow> Suc i < b \<Longrightarrow> unat (vd_next (t ! i)) = Suc i) \<Longrightarrow> linked t [a..<b]"
proof (induction "b - a" arbitrary: a)
  case (Suc n)
  then have "linked t [Suc a..<b]" "a < b"
    by auto
  with Suc.prems [of a] show ?case
    by (auto simp: upt_conv_Cons linked_Cons)
qed simp

lemma unat_u16: "unat (x :: usize) < 2 ^ 16 \<Longrightarrow> unat (ucast x :: u16) = unat x"
  by (simp add: unsigned_ucast_eq take_bit_nat_eq_self)

lemma freelistdescpool_new_ok:
  assumes "freelistdescpool_new hh q s = Inr (p, s')" "unat q < 2 ^ 16"
  shows "pool_inv p [0..<unat q] [] \<and> length (dp_pool p) = unat q \<and> dp_queue_size p = q \<and> 0 < unat q"
proof -
  let ?b = "map (\<lambda>i. zero_desc\<lparr>vd_next := of_nat i + 1\<rparr>) [0..<unat q]"
  let ?t = "desc_upd (of_nat (unat q - 1)) (vd_next_update (\<lambda>_. 0)) ?b"
  from assms(1) have q: "0 < unat q" and p: "dp_pool p = ?t" "dp_queue_size p = q" "dp_head p = 0" "dp_num_free p = ucast q"
    by (auto simp: freelistdescpool_new_def Let_def and_then_Inr_iff split: if_splits)
  have last: "unat (of_nat (unat q - 1) :: u16) = unat q - 1"
    using assms(2) by (simp add: unat_of_nat)
  have "unat (vd_next (?t ! i)) = Suc i" if "Suc i < unat q" for i
  proof -
    have "?t ! i = ?b ! i"
      using that last by simp
    moreover have "unat (of_nat i + 1 :: u16) = Suc i"
    proof -
      have "(of_nat i + 1 :: u16) = of_nat (Suc i)"
        by simp
      then show ?thesis
        using that assms(2) by (simp only: unat_of_nat) simp
    qed
    ultimately show ?thesis
      using that by simp
  qed
  then have "linked ?t [0..<unat q]"
    by (intro linked_upt) simp
  moreover have "unat (ucast q :: u16) = unat q"
    using assms(2) by (simp add: unat_u16)
  ultimately show ?thesis
    using q p assms(2) by (auto simp: pool_inv_def)
qed

lemma pool_inv_fill:
  assumes inv: "pool_inv p free cs" and c: "c \<in> set cs" and t: "length t = length (dp_pool p)"
    "\<And>x. x \<notin> set c \<Longrightarrow> t ! x = dp_pool p ! x" "chained t c"
  shows "pool_inv (p\<lparr>dp_pool := t\<rparr>) free cs"
proof -
  obtain cs1 cs2 where cs: "cs = cs1 @ c # cs2"
    using c by (metis split_list)
  have "x \<notin> set c" if "x \<in> set free" for x
    using inv that c by (auto simp: pool_inv_def)
  then have "linked t free"
    using inv linked_cong [of free t "dp_pool p"] t(2) by (auto simp: pool_inv_def)
  moreover have "chained t e" if "e \<in> set cs" for e
  proof (cases "e = c")
    case False
    with that inv have "x \<notin> set c" if "x \<in> set e" for x
      using that unfolding pool_inv_def cs by fastforce
    with chained_cong [of e t "dp_pool p"] t(2) that inv show ?thesis
      by (auto simp: pool_inv_def)
  qed (simp add: t(3))
  ultimately show ?thesis
    using inv t(1) by (simp add: pool_inv_def)
qed

text \<open>
  The use of a pool: chains are allocated, their descriptors filled in without
  breaking the chain, and released. The chain of a head is what the device finds by
  following the table.
\<close>

primrec follow :: "nat \<Rightarrow> virtq_desc list \<Rightarrow> nat \<Rightarrow> nat list" where
  "follow 0 t x = [x]"
| "follow (Suc n) t x = x # (if has_next (t ! x) then follow n t (unat (vd_next (t ! x))) else [])"

definition chain_of :: "freelistdescpool \<Rightarrow> u16 \<Rightarrow> nat list" where
  "chain_of p h = follow (length (dp_pool p)) (dp_pool p) (unat h)"

inductive pool_run :: "freelistdescpool \<Rightarrow> freelistdescpool \<Rightarrow> nat list list \<Rightarrow> bool" for p0 where
  start: "pool_run p0 p0 []"
| alloc: "pool_run p0 p cs \<Longrightarrow> allocate_chain n p = Inr (Inr h, p') \<Longrightarrow> pool_run p0 p' (chain_of p' h # cs)"
| refuse: "pool_run p0 p cs \<Longrightarrow> allocate_chain n p = Inr (Inl (), p') \<Longrightarrow> pool_run p0 p' cs"
| fill: "pool_run p0 p cs \<Longrightarrow> c \<in> set cs \<Longrightarrow> length t = length (dp_pool p) \<Longrightarrow>
    (\<forall>x. x \<notin> set c \<longrightarrow> t ! x = dp_pool p ! x) \<Longrightarrow> chained t c \<Longrightarrow> pool_run p0 (p\<lparr>dp_pool := t\<rparr>) cs"
| release: "pool_run p0 p (cs1 @ c # cs2) \<Longrightarrow> unat h = hd c \<Longrightarrow> deallocate_chain h p = Inr p' \<Longrightarrow> pool_run p0 p' (cs1 @ cs2)"

lemma follow_chained: "chained t c \<Longrightarrow> length c \<le> Suc n \<Longrightarrow> follow n t (hd c) = c"
proof (induction t c arbitrary: n rule: chained.induct)
  case (2 t x)
  then show ?case by (cases n) auto
next
  case (3 t x y zs)
  then obtain n' where n: "n = Suc n'"
    by (cases n) auto
  from 3(2) have c: "has_next (t ! x)" "unat (vd_next (t ! x)) = y" "chained t (y # zs)"
    by simp_all
  have "follow n' t (hd (y # zs)) = y # zs"
    by (rule 3(1) [OF c(3)]) (use 3(3) n in simp)
  with c n show ?case
    by simp
qed simp

lemma pool_inv_length: "pool_inv p free cs \<Longrightarrow> length free + length (concat cs) = length (dp_pool p)"
  by (metis card_lessThan distinct_card length_append pool_inv_def)

lemma chain_of_eq: "pool_inv p free cs \<Longrightarrow> c \<in> set cs \<Longrightarrow> unat h = hd c \<Longrightarrow> chain_of p h = c"
proof -
  assume a: "pool_inv p free cs" "c \<in> set cs" "unat h = hd c"
  obtain cs1 cs2 where "cs = cs1 @ c # cs2"
    using a(2) by (metis split_list)
  then have "length c \<le> Suc (length (dp_pool p))"
    using pool_inv_length [OF a(1)] by simp
  moreover have "chained (dp_pool p) c"
    using a(1,2) by (simp add: pool_inv_def)
  ultimately show ?thesis
    using follow_chained a(3) by (simp add: chain_of_def)
qed

lemma pool_run_inv:
  assumes "pool_run p0 p cs" "pool_inv p0 free0 []"
  shows "\<exists>free. pool_inv p free cs \<and> length (dp_pool p) = length (dp_pool p0)"
  using assms
proof (induction rule: pool_run.induct)
  case (alloc p cs n h p')
  then obtain free where inv: "pool_inv p free cs" "length (dp_pool p) = length (dp_pool p0)"
    by blast
  have n: "n \<noteq> 0" "unat n \<le> length free"
    using alloc.hyps(2) allocate_chain_err [OF inv(1), of n] by (metis Inr_inject old.prod.inject sum.distinct(1) not_le)+
  from allocate_chain_ok [OF inv(1) n] alloc.hyps(2) have
    p': "pool_inv p' (drop (unat n) free) (take (unat n) free # cs)" "unat h = hd free" "length (dp_pool p') = length (dp_pool p)"
    by auto
  have "hd (take (unat n) free) = hd free"
    using n by (simp add: unat_gt_0)
  with chain_of_eq [OF p'(1), of "take (unat n) free" h] p' inv(2) show ?case
    by auto
next
  case (refuse p cs n p')
  then have "p' = p"
    by (auto simp: allocate_chain_def and_then_Inr_iff split: if_splits)
  with refuse show ?case
    by blast
next
  case (fill p cs c t)
  then obtain free where "pool_inv p free cs" "length (dp_pool p) = length (dp_pool p0)"
    by blast
  with pool_inv_fill [of p free cs c t] fill.hyps show ?case
    by auto
next
  case (release p cs1 c cs2 h p')
  then obtain free where "pool_inv p free (cs1 @ c # cs2)" "length (dp_pool p) = length (dp_pool p0)"
    by blast
  with deallocate_chain_ok [of p free cs1 c cs2 h] release.hyps show ?case
    by auto
qed auto

text \<open>The loop of \<^verbatim>\<open>deallocate_chain\<close> clears a flag in every round, so it ends on every table.\<close>

lemma dealloc_walk_ends:
  "card {i. i < length t \<and> bit (vd_flags (t ! i)) 0} < fuel \<Longrightarrow> dealloc_walk fuel cur nf t \<noteq> Inl OutOfFuel"
proof (induction fuel arbitrary: cur nf t)
  case (Suc fuel)
  show ?case
  proof (cases "unat cur < length t \<and> bit (vd_flags (t ! unat cur)) 0")
    case True
    let ?t = "desc_upd cur (vd_flags_update (\<lambda>_. 0)) t"
    have "?t ! i = t ! i" if "i \<noteq> unat cur" for i
      using that by simp
    then have "{i. i < length ?t \<and> bit (vd_flags (?t ! i)) 0} = {i. i < length t \<and> bit (vd_flags (t ! i)) 0} - {unat cur}"
      using True by (auto simp del: desc_upd_simps(3)) metis
    moreover have "card ({i. i < length t \<and> bit (vd_flags (t ! i)) 0} - {unat cur}) < card {i. i < length t \<and> bit (vd_flags (t ! i)) 0}"
      using True by (intro card_Diff1_less) auto
    ultimately have "card {i. i < length ?t \<and> bit (vd_flags (?t ! i)) 0} < fuel"
      using Suc.prems by simp
    from Suc.IH [OF this] True show ?thesis
      by (simp add: desc_at_def)
  qed (auto simp: desc_at_def)
qed simp

section \<open>The rings as a queue\<close>

text \<open>
  The commands between the two indices, oldest first. The size of the queue is a power
  of two, as the device promises, so the slots stay apart when the 16 bit indices wrap.
\<close>

definition in_flight :: "virtq \<Rightarrow> u16 list" where
  "in_flight v = map (\<lambda>k. avail_ring v ! ((unat (consumer_used_idx v) + k) mod length (avail_ring v)))
     [0..<unat (avail_idx v - consumer_used_idx v)]"

definition ring_ok :: "virtq \<Rightarrow> bool" where
  "ring_ok v \<longleftrightarrow> (let q = length (avail_ring v) in
     0 < q \<and> q dvd 2 ^ 16 \<and> q < 2 ^ 16 \<and> unat (dp_queue_size (vq_desc v)) = q \<and> length (used_ring v) = q
     \<and> length (in_flight v) \<le> q)"

lemma in_flight_len [simp]: "length (in_flight v) = unat (avail_idx v - consumer_used_idx v)"
  by (simp add: in_flight_def)

lemma unat_lt16: "unat (x :: u16) < 65536"
  using unsigned_less [where ?'a = nat and w = x] by simp

lemma unat_u64_u16: "unat (ucast (x :: u16) :: usize) = unat x"
  using unat_lt16 [of x] by (simp add: unsigned_ucast_eq take_bit_nat_eq_self)

lemma unat_plus1: "unat (w :: u16) < 2 ^ 16 - 1 \<Longrightarrow> unat (w + 1) = Suc (unat w)"
  by (simp add: unat_word_ariths)

lemma ring_slot_ok:
  assumes "ring_ok v" "n = length (avail_ring v)"
  shows "ring_slot i (dp_queue_size (vq_desc v)) n = Inr (unat i mod n)"
proof -
  have q: "unat (dp_queue_size (vq_desc v)) = n" "0 < n"
    using assms by (auto simp: ring_ok_def Let_def)
  then have "dp_queue_size (vq_desc v) \<noteq> 0"
    by auto
  with q show ?thesis
    by (simp add: ring_slot_def unat_mod unat_u64_u16)
qed

lemma idx_mod:
  assumes "q dvd 2 ^ 16"
  shows "unat ((i :: u16) + j) mod q = (unat i + unat j) mod q"
  using assms by (simp add: unat_word_ariths mod_mod_cancel)

lemma slots_differ:
  assumes "k < n" "n < q"
  shows "(a + k) mod q \<noteq> (a + n) mod (q :: nat)"
proof
  assume "(a + k) mod q = (a + n) mod q"
  then have "q dvd (a + n) - (a + k)"
    using assms(1) by (metis add_le_cancel_left less_imp_le mod_eq_dvd_iff_nat)
  with assms show False
    by (auto dest: dvd_imp_le)
qed

lemma submit_to_queue_ok:
  assumes ok: "ring_ok v" and room: "length (in_flight v) < length (avail_ring v)"
  shows "\<exists>v'. submit_to_queue c v = Inr (Inr (), v') \<and> in_flight v' = in_flight v @ [c] \<and> ring_ok v'
    \<and> v' = v\<lparr>avail_ring := avail_ring v', avail_idx := avail_idx v + 1\<rparr>"
proof -
  let ?q = "length (avail_ring v)" and ?n = "unat (avail_idx v - consumer_used_idx v)"
  have q: "0 < ?q" "?q dvd 2 ^ 16" "?q < 2 ^ 16" "unat (dp_queue_size (vq_desc v)) = ?q"
    using ok by (auto simp: ring_ok_def Let_def)
  have n: "?n < ?q"
    using room by simp
  let ?v = "v\<lparr>avail_ring := (avail_ring v)[unat (avail_idx v) mod ?q := c], avail_idx := avail_idx v + 1\<rparr>"
  have run: "submit_to_queue c v = Inr (Inr (), ?v)"
    using n q(3,4) ring_slot_ok [OF ok refl, of "avail_idx v"]
    by (simp add: submit_to_queue_def virtq_submit_def word_le_nat_alt unat_u16)
  have la: "unat (avail_idx v + 1 - consumer_used_idx v) = Suc ?n"
  proof -
    have "avail_idx v + 1 - consumer_used_idx v = (avail_idx v - consumer_used_idx v) + 1"
      by simp
    moreover have "?n < 2 ^ 16 - 1"
      using n q(3) by simp
    ultimately show ?thesis
      using unat_plus1 by presburger
  qed
  have slot: "unat (avail_idx v) mod ?q = (unat (consumer_used_idx v) + ?n) mod ?q"
    using idx_mod [OF q(2), of "consumer_used_idx v" "avail_idx v - consumer_used_idx v"] by simp
  have "(avail_ring v)[unat (avail_idx v) mod ?q := c] ! ((unat (consumer_used_idx v) + k) mod ?q)
      = avail_ring v ! ((unat (consumer_used_idx v) + k) mod ?q)" if "k < ?n" for k
    using slots_differ [OF that n, of "unat (consumer_used_idx v)"] unfolding slot by simp
  then have fl: "in_flight ?v = in_flight v @ [c]"
    using q(1) by (simp add: in_flight_def la) (simp add: slot)
  have "ring_ok ?v"
    using ok n la by (simp add: ring_ok_def Let_def)
  with run fl show ?thesis
    by (intro exI [of _ ?v]) simp
qed

lemma submit_to_queue_full:
  "ring_ok v \<Longrightarrow> length (in_flight v) = length (avail_ring v) \<Longrightarrow> submit_to_queue c v = Inr (Inl (), v)"
  by (simp add: submit_to_queue_def ring_ok_def Let_def word_le_nat_alt unat_u16)

lemma read_used_ok:
  assumes ok: "ring_ok v" and fl: "in_flight v = c # cs" and used: "used_idx v \<noteq> consumer_used_idx v"
  shows "\<exists>v'. read_used_queue_blocking (Suc fuel) dev v
      = Inr (used_ring v ! (unat (consumer_used_idx v) mod length (used_ring v)), v')
    \<and> in_flight v' = cs \<and> ring_ok v' \<and> v' = v\<lparr>consumer_used_idx := consumer_used_idx v + 1\<rparr>"
proof -
  let ?q = "length (avail_ring v)" and ?n = "unat (avail_idx v - consumer_used_idx v)"
  have q: "0 < ?q" "?q dvd 2 ^ 16" "length (used_ring v) = ?q"
    using ok by (auto simp: ring_ok_def Let_def)
  have n: "?n = Suc (length cs)"
    using fl by (metis in_flight_len length_Cons)
  let ?v = "v\<lparr>consumer_used_idx := consumer_used_idx v + 1\<rparr>"
  have la: "unat (avail_idx v - (consumer_used_idx v + 1)) = length cs"
  proof -
    have "avail_idx v - (consumer_used_idx v + 1) = (avail_idx v - consumer_used_idx v) - 1"
      by simp
    moreover have "avail_idx v - consumer_used_idx v \<noteq> 0"
      using n by (metis nat.distinct(1) unat_0)
    ultimately show ?thesis
      using n unat_minus_one [of "avail_idx v - consumer_used_idx v"] by presburger
  qed
  have "(unat (consumer_used_idx v + 1) + k) mod ?q = (unat (consumer_used_idx v) + Suc k) mod ?q" for k
  proof -
    have "(unat (consumer_used_idx v + 1) + k) mod ?q = (unat (consumer_used_idx v + 1) mod ?q + k) mod ?q"
      by (simp add: mod_add_left_eq)
    also have "\<dots> = ((unat (consumer_used_idx v) + 1) mod ?q + k) mod ?q"
      using idx_mod [OF q(2), of "consumer_used_idx v" 1] by simp
    also have "\<dots> = (unat (consumer_used_idx v) + Suc k) mod ?q"
      by (simp add: mod_add_left_eq)
    finally show ?thesis .
  qed
  then have "in_flight ?v = map (\<lambda>k. avail_ring v ! ((unat (consumer_used_idx v) + Suc k) mod ?q)) [0..<length cs]"
    by (simp add: in_flight_def la)
  also have "\<dots> = tl (in_flight v)"
    unfolding in_flight_def n upt_conv_Cons [OF zero_less_Suc] list.map list.sel
    by (simp add: map_Suc_upt [symmetric] del: upt_Suc)
  finally have "in_flight ?v = cs"
    by (simp add: fl)
  moreover have "ring_ok ?v"
    using ok la n by (simp add: ring_ok_def Let_def)
  ultimately show ?thesis
    using used ring_slot_ok [OF ok refl, of "consumer_used_idx v"] q(3)
    by (intro exI [of _ ?v]) simp
qed

section \<open>Commands of the graphics driver\<close>

text \<open>
  What the device promises: while one command is in flight it leaves the rings alone
  for fewer than \<open>fuel\<close> steps and then returns the head of its chain in the next slot of the used
  ring.
\<close>

definition device_completes :: "nat \<Rightarrow> (virtq \<Rightarrow> virtq) \<Rightarrow> bool" where
  "device_completes fuel dev \<longleftrightarrow>
     (\<forall>v c. used_idx v = consumer_used_idx v \<longrightarrow> in_flight v = [c] \<longrightarrow>
       (\<exists>n e. n < fuel \<and> ue_id e = ucast c
          \<and> (\<forall>m<n. used_idx ((dev ^^ m) v) = consumer_used_idx ((dev ^^ m) v))
          \<and> (dev ^^ n) v = v\<lparr>used_ring := (used_ring v)[unat (used_idx v) mod length (used_ring v) := e],
               used_idx := used_idx v + 1\<rparr>))"

lemma read_used_wait:
  "(\<And>m. m < n \<Longrightarrow> used_idx ((dev ^^ m) v) = consumer_used_idx ((dev ^^ m) v)) \<Longrightarrow>
     read_used_queue_blocking (n + fuel) dev v = read_used_queue_blocking fuel dev ((dev ^^ n) v)"
proof (induction n arbitrary: v)
  case (Suc n)
  have "used_idx v = consumer_used_idx v"
    using Suc.prems [of 0] by simp
  moreover have "read_used_queue_blocking (n + fuel) dev (dev v) = read_used_queue_blocking fuel dev ((dev ^^ n) (dev v))"
    using Suc.prems [of "Suc m" for m] by (intro Suc.IH) (simp add: funpow_swap1)
  ultimately show ?case
    by (simp add: funpow_swap1)
qed simp

lemma read_used_completes:
  assumes dev: "device_completes fuel dev" and ok: "ring_ok v" "in_flight v = [c]" "used_idx v = consumer_used_idx v"
  shows "\<exists>e v'. read_used_queue_blocking fuel dev v = Inr (e, v') \<and> ue_id e = ucast c \<and> in_flight v' = [] \<and> ring_ok v'
    \<and> used_idx v' = consumer_used_idx v' \<and> vq_desc v' = vq_desc v \<and> vq_notify v' = vq_notify v"
proof -
  from dev ok(2,3) obtain n e where n: "n < fuel" "ue_id e = ucast c"
    "\<forall>m<n. used_idx ((dev ^^ m) v) = consumer_used_idx ((dev ^^ m) v)"
    "(dev ^^ n) v = v\<lparr>used_ring := (used_ring v)[unat (used_idx v) mod length (used_ring v) := e], used_idx := used_idx v + 1\<rparr>"
    unfolding device_completes_def by metis
  let ?w = "v\<lparr>used_ring := (used_ring v)[unat (used_idx v) mod length (used_ring v) := e], used_idx := used_idx v + 1\<rparr>"
  obtain k where k: "fuel = n + Suc k"
    using n(1) by (metis less_iff_Suc_add add_Suc_right)
  have w: "ring_ok ?w" "in_flight ?w = [c]" "used_idx ?w \<noteq> consumer_used_idx ?w" "0 < length (used_ring v)"
    using ok by (simp_all add: ring_ok_def Let_def in_flight_def Suc_le_eq)
  from read_used_ok [OF w(1-3), of k dev] obtain v' where
    v': "read_used_queue_blocking (Suc k) dev ?w = Inr (used_ring ?w ! (unat (consumer_used_idx ?w) mod length (used_ring ?w)), v')"
      "in_flight v' = []" "ring_ok v'" "v' = ?w\<lparr>consumer_used_idx := consumer_used_idx ?w + 1\<rparr>"
    by blast
  have "read_used_queue_blocking fuel dev v = Inr (e, v')"
    using read_used_wait [of n dev v "Suc k"] n(3,4) v'(1) w(4) ok(3) by (simp add: k)
  with n(2) v' ok(3) show ?thesis
    by (intro exI [of _ e] exI [of _ v']) simp
qed

lemma gpu_more:
  "pmm_state.more (s' :: 'z gpu_state_scheme) = pmm_state.more (s :: 'z gpu_state_scheme) \<Longrightarrow>
     g_virtq s' = g_virtq s \<and> g_lock s' = g_lock s \<and> g_intr s' = g_intr s"
  by (cases s, cases s') simp

lemma pmm_free_gpu [simp]:
  "pmm_free hh (s\<lparr>g_virtq := x\<rparr>) vs = pmm_free hh s vs" "pmm_free hh (s\<lparr>g_lock := l\<rparr>) vs = pmm_free hh s vs"
  "pmm_free hh (s\<lparr>g_intr := i\<rparr>) vs = pmm_free hh s vs"
  by (simp_all add: pmm_free_def)

lemma lock_virtq_ok:
  "g_virtq s = Some v \<Longrightarrow> \<not> sl_held (g_lock s) \<Longrightarrow>
     lock_virtq s = Inr (v, s\<lparr>g_intr := False, g_lock := \<lparr>sl_held = True, sl_prev = g_intr s\<rparr>\<rparr>)"
  by (simp add: lock_virtq_def SpinLock_lock_def)

lemma unlock_virtq_eq:
  "g_intr s = False \<Longrightarrow> g_lock s = \<lparr>sl_held = True, sl_prev = i\<rparr> \<Longrightarrow>
     unlock_virtq v s = s\<lparr>g_virtq := Some v, g_intr := i, g_lock := \<lparr>sl_held = False, sl_prev = i\<rparr>\<rparr>"
  by (simp add: unlock_virtq_def SpinLock_unlock_def)

definition cmd_descs :: "u64 \<Rightarrow> u16 \<Rightarrow> u64 \<Rightarrow> u64 \<Rightarrow> u32 \<Rightarrow> virtq_desc list" where
  "cmd_descs hh head req resp len = [
     \<lparr>vd_addr = req - hh, vd_len = gpu_hdr_bytes, vd_flags = VIRTQ_DESC_F_NEXT, vd_next = head + 1\<rparr>,
     \<lparr>vd_addr = resp - hh, vd_len = len, vd_flags = VIRTQ_DESC_F_WRITE, vd_next = 0\<rparr>]"

lemma fill_descs_ok:
  assumes inv: "pool_inv p free cs" and c: "[x, Suc x] \<in> set cs" and h: "unat head = x"
  shows "\<exists>p'. fill_descs hh head req resp len p = Inr p' \<and> pool_inv p' free cs \<and> length (dp_pool p') = length (dp_pool p)
    \<and> dp_queue_size p' = dp_queue_size p \<and> map (\<lambda>i. dp_pool p' ! i) [x, Suc x] = cmd_descs hh head req resp len"
proof -
  have "set [x, Suc x] \<subseteq> {..<length (dp_pool p)}" "length (dp_pool p) < 2 ^ 16"
    using inv c unfolding pool_inv_def by fastforce+
  then have lt: "Suc x < length (dp_pool p)" "length (dp_pool p) < 2 ^ 16"
    by simp_all
  have h1: "unat (head + 1) = Suc x"
    using lt h by (simp add: unat_plus1)
  let ?t1 = "desc_upd head (\<lambda>_. cmd_descs hh head req resp len ! 0) (dp_pool p)"
  let ?t = "desc_upd (head + 1) (\<lambda>_. cmd_descs hh head req resp len ! 1) ?t1"
  have t: "?t ! x = cmd_descs hh head req resp len ! 0" "?t ! Suc x = cmd_descs hh head req resp len ! 1"
    using lt h h1 desc_upd_simps(2) [of "head + 1" ?t1] by (auto simp: desc_upd_def)
  have "pool_inv (p\<lparr>dp_pool := ?t\<rparr>) free cs"
  proof (rule pool_inv_fill [OF inv c])
    show "?t ! i = dp_pool p ! i" if "i \<notin> set [x, Suc x]" for i
      using that h h1 by simp
    show "chained ?t [x, Suc x]"
      using t h1 by (simp add: cmd_descs_def VIRTQ_DESC_F_WRITE_def) (simp add: VIRTQ_DESC_F_NEXT_def)
  qed simp
  moreover have "fill_descs hh head req resp len p = Inr (p\<lparr>dp_pool := ?t\<rparr>)"
    using lt h h1 by (simp add: fill_descs_def get_desc_mutable_def cmd_descs_def)
  ultimately show ?thesis
    using t by (intro exI [of _ "p\<lparr>dp_pool := ?t\<rparr>"]) (simp add: cmd_descs_def)
qed

text \<open>
  The driver between two commands: the lock is free, nothing is in flight, and the
  descriptors are held and released in pairs. \<open>fs\<close> are the free frames.
\<close>

definition pair :: "nat \<Rightarrow> nat list" where
  "pair k = [2 * k, Suc (2 * k)]"

definition queue_idle :: "virtq \<Rightarrow> nat list \<Rightarrow> nat list \<Rightarrow> bool" where
  "queue_idle v ks ls \<longleftrightarrow> ring_ok v \<and> in_flight v = [] \<and> used_idx v = consumer_used_idx v \<and> vq_notify v \<noteq> None
     \<and> pool_inv (vq_desc v) (concat (map pair ks)) (map pair ls)"

definition gpu_idle :: "u64 \<Rightarrow> 'z gpu_state_scheme \<Rightarrow> nat list \<Rightarrow> nat list \<Rightarrow> u64 list \<Rightarrow> bool" where
  "gpu_idle hh s ks ls fs \<longleftrightarrow>
     (\<exists>v. g_virtq s = Some v \<and> queue_idle v ks ls) \<and> \<not> sl_held (g_lock s) \<and> pmm_free hh s fs"

text \<open>The queue part of a command.\<close>

lemma queue_command_ok:
  assumes idle: "queue_idle v (k # ks) ls" and dev: "device_completes fuel dev"
  shows "\<exists>head pool pool1 v1 v2 used v3.
    allocate_chain 2 (vq_desc v) = Inr (Inr head, pool) \<and> unat head = 2 * k
    \<and> fill_descs hh head req resp len pool = Inr pool1
    \<and> submit_to_queue head (v\<lparr>vq_desc := pool1\<rparr>) = Inr (Inr (), v1)
    \<and> virtq_notify 0 v1 = Inr v2 \<and> read_used_queue_blocking fuel dev v2 = Inr (used, v3)
    \<and> ue_id used = ucast head \<and> queue_idle v3 ks (k # ls)
    \<and> map (\<lambda>i. dp_pool (vq_desc v3) ! i) (pair k) = cmd_descs hh head req resp len"
proof -
  have i: "ring_ok v" "in_flight v = []" "used_idx v = consumer_used_idx v" "vq_notify v \<noteq> None"
    "pool_inv (vq_desc v) (concat (map pair (k # ks))) (map pair ls)"
    using idle by (auto simp: queue_idle_def)
  from allocate_chain_ok [OF i(5), of 2] obtain pool where pool:
    "allocate_chain 2 (vq_desc v) = Inr (Inr (dp_head (vq_desc v)), pool)"
    "pool_inv pool (concat (map pair ks)) (map pair (k # ls))" "unat (dp_head (vq_desc v)) = 2 * k"
    "dp_queue_size pool = dp_queue_size (vq_desc v)"
    by (auto simp: pair_def)
  let ?h = "dp_head (vq_desc v)"
  from fill_descs_ok [OF pool(2) _ pool(3), of hh req resp len] obtain pool1 where pool1:
    "fill_descs hh ?h req resp len pool = Inr pool1" "pool_inv pool1 (concat (map pair ks)) (map pair (k # ls))"
    "dp_queue_size pool1 = dp_queue_size pool" "map (\<lambda>i. dp_pool pool1 ! i) (pair k) = cmd_descs hh ?h req resp len"
    by (auto simp: pair_def)
  let ?v = "v\<lparr>vq_desc := pool1\<rparr>"
  have r: "ring_ok ?v" "in_flight ?v = []"
    using i(1,2) pool(4) pool1(3) by (simp_all add: ring_ok_def Let_def in_flight_def)
  then have "length (in_flight ?v) < length (avail_ring ?v)"
    by (simp only: r(2)) (simp add: ring_ok_def Let_def)
  from submit_to_queue_ok [OF r(1) this, of ?h] obtain v1 where v1:
    "submit_to_queue ?h ?v = Inr (Inr (), v1)" "in_flight v1 = [?h]" "ring_ok v1"
    "v1 = ?v\<lparr>avail_ring := avail_ring v1, avail_idx := avail_idx ?v + 1\<rparr>"
    using r(2) by auto
  have v1s: "used_idx v1 = consumer_used_idx v1" "vq_desc v1 = pool1" "vq_notify v1 = vq_notify v"
    by (subst v1(4), simp add: i(3)) (subst v1(4), simp)+
  from i(4) obtain n where n: "vq_notify v = Some n"
    by auto
  let ?v2 = "v1\<lparr>vq_notified := vq_notified v1 @ [(n, 0)]\<rparr>"
  have v2: "virtq_notify 0 v1 = Inr ?v2" "ring_ok ?v2" "in_flight ?v2 = [?h]" "used_idx ?v2 = consumer_used_idx ?v2"
    using v1(2,3) v1s n by (simp_all add: virtq_notify_def ring_ok_def Let_def in_flight_def)
  from read_used_completes [OF dev v2(2-4)] obtain used v3 where
    "read_used_queue_blocking fuel dev ?v2 = Inr (used, v3)" "ue_id used = ucast ?h" "in_flight v3 = []" "ring_ok v3"
    "used_idx v3 = consumer_used_idx v3" "vq_desc v3 = vq_desc ?v2" "vq_notify v3 = vq_notify ?v2"
    by blast
  then show ?thesis
    using pool(1,3) pool1 v1(1) v2(1) v1s n
    by (intro exI [of _ ?h] exI [of _ pool] exI [of _ pool1] exI [of _ v1] exI [of _ ?v2] exI [of _ used] exI [of _ v3])
      (simp add: queue_idle_def)
qed

lemma gpu_hdr_write_frame:
  assumes "page_aligned req" "req \<notin> P"
  shows "agree_on P m (gpu_hdr_write req B m)"
proof -
  have "page_of (req + 8) = req" "page_of (req + 16) = req"
    using assms(1) by (simp_all add: page_of_add)
  then show ?thesis
    using assms by (auto simp: agree_on_def gpu_hdr_write_def)
qed

lemma submit_simple_command_ok:
  assumes idle: "gpu_idle hh s (k # ks) ls (req # resp # fs)" and dev: "device_completes fuel dev"
  shows "\<exists>used s1 v head. submit_simple_command_and_await_response hh fuel dev B len s = Inr ((used, resp, req), s1)
    \<and> ue_id used = ucast head \<and> unat head = 2 * k \<and> gpu_idle hh s1 ks (k # ls) fs
    \<and> g_virtq s1 = Some v \<and> map (\<lambda>i. dp_pool (vq_desc v) ! i) (pair k) = cmd_descs hh head req resp len
    \<and> mem s1 req = ucast B \<and> g_intr s1 = g_intr s"
proof -
  from idle obtain v where v: "g_virtq s = Some v" "queue_idle v (k # ks) ls" and l: "\<not> sl_held (g_lock s)"
    and free: "pmm_free hh s (req # resp # fs)"
    by (auto simp: gpu_idle_def)
  let ?s0 = "s\<lparr>g_intr := False, g_lock := \<lparr>sl_held = True, sl_prev = g_intr s\<rparr>\<rparr>"
  from free have free0: "pmm_free hh ?s0 (req # resp # fs)"
    by simp
  from allocate_page_ok [OF free0] obtain s1 where s1: "allocate_page hh ?s0 = Inr (req, s1)" "pmm_free hh s1 (resp # fs)"
    by blast
  from allocate_page_ok [OF s1(2)] obtain s2 where s2: "allocate_page hh s1 = Inr (resp, s2)" "pmm_free hh s2 fs"
    by blast
  have m: "pmm_state.more s2 = pmm_state.more ?s0"
    using allocate_page_more [OF s1(1)] allocate_page_more [OF s2(1)] by (rule trans [rotated])
  from gpu_more [OF this] have g: "g_intr s2 = False" "g_lock s2 = \<lparr>sl_held = True, sl_prev = g_intr s\<rparr>"
    by simp_all
  let ?s3 = "s2\<lparr>mem := gpu_hdr_write req B (mem s2)\<rparr>"
  have "page_aligned req" "req \<notin> set fs"
    using free by (auto simp: pmm_free_def valid_frame_def)
  from pmm_free_frame [OF s2(2) gpu_hdr_write_frame [OF this]] have s3: "pmm_free hh ?s3 fs"
    by (simp add: set_mem_def)
  from queue_command_ok [OF v(2) dev, of hh req resp len] obtain head pool pool1 v1 v2 used v3 where q:
    "allocate_chain 2 (vq_desc v) = Inr (Inr head, pool)" "unat head = 2 * k"
    "fill_descs hh head req resp len pool = Inr pool1" "submit_to_queue head (v\<lparr>vq_desc := pool1\<rparr>) = Inr (Inr (), v1)"
    "virtq_notify 0 v1 = Inr v2" "read_used_queue_blocking fuel dev v2 = Inr (used, v3)"
    "ue_id used = ucast head" "queue_idle v3 ks (k # ls)"
    "map (\<lambda>i. dp_pool (vq_desc v3) ! i) (pair k) = cmd_descs hh head req resp len"
    by blast
  have "submit_simple_command_and_await_response hh fuel dev B len s = Inr ((used, resp, req), unlock_virtq v3 ?s3)"
    using q s1(1) s2(1) v(1) l
    by (simp add: submit_simple_command_and_await_response_def lock_virtq_ok unwrap_res_def Let_def)
  moreover have "unlock_virtq v3 ?s3 = ?s3\<lparr>g_virtq := Some v3, g_intr := g_intr s, g_lock := \<lparr>sl_held = False, sl_prev = g_intr s\<rparr>\<rparr>"
    by (rule unlock_virtq_eq) (simp_all add: g)
  ultimately show ?thesis
    using q(2,7-) s3
    by (intro exI [of _ used] exI [of _ "unlock_virtq v3 ?s3"] exI [of _ v3] exI [of _ head])
      (simp add: gpu_idle_def gpu_hdr_write_def)
qed

lemma simple_command_cleanup_ok:
  assumes idle: "gpu_idle hh s ks (ls1 @ k # ls2) fs" and h: "unat (ue_id used) = 2 * k"
    and fr: "valid_frame hh req" "valid_frame hh resp" "distinct (req # resp # fs)"
  shows "\<exists>s1. simple_command_cleanup hh (used, resp, req) s = Inr s1 \<and> gpu_idle hh s1 (k # ks) (ls1 @ ls2) (req # resp # fs)
    \<and> g_intr s1 = g_intr s"
proof -
  from idle obtain v where v: "g_virtq s = Some v" "queue_idle v ks (ls1 @ k # ls2)" and l: "\<not> sl_held (g_lock s)"
    and free: "pmm_free hh s fs"
    by (auto simp: gpu_idle_def)
  let ?s0 = "s\<lparr>g_intr := False, g_lock := \<lparr>sl_held = True, sl_prev = g_intr s\<rparr>\<rparr>"
  have inv: "pool_inv (vq_desc v) (concat (map pair ks)) (map pair ls1 @ pair k # map pair ls2)"
    using v(2) by (simp add: queue_idle_def)
  have "set (pair k) \<subseteq> {..<length (dp_pool (vq_desc v))}" "length (dp_pool (vq_desc v)) < 2 ^ 16"
    using inv unfolding pool_inv_def by auto
  then have "unat (ucast (ue_id used) :: u16) = hd (pair k)"
    using h by (simp add: pair_def unsigned_ucast_eq take_bit_nat_eq_self)
  from deallocate_chain_ok [OF inv this] obtain pool where pool: "deallocate_chain (ucast (ue_id used)) (vq_desc v) = Inr pool"
    "pool_inv pool (concat (map pair (k # ks))) (map pair (ls1 @ ls2))" "dp_queue_size pool = dp_queue_size (vq_desc v)"
    by auto
  have q: "queue_idle (v\<lparr>vq_desc := pool\<rparr>) (k # ks) (ls1 @ ls2)"
    using v(2) pool(2,3) by (simp add: queue_idle_def ring_ok_def Let_def in_flight_def)
  have free0: "pmm_free hh ?s0 fs"
    using free by simp
  from deallocate_page_ok [OF free0 fr(2)] fr(3) obtain s1 where
    s1: "deallocate_page hh resp ?s0 = Inr s1" "pmm_free hh s1 (resp # fs)"
    by auto
  from deallocate_page_ok [OF s1(2) fr(1)] fr(3) obtain s2 where
    s2: "deallocate_page hh req s1 = Inr s2" "pmm_free hh s2 (req # resp # fs)"
    by auto
  have "pmm_state.more s2 = pmm_state.more ?s0"
    using deallocate_page_more [OF s1(1)] deallocate_page_more [OF s2(1)] by (rule trans [rotated])
  from gpu_more [OF this] have g: "g_intr s2 = False" "g_lock s2 = \<lparr>sl_held = True, sl_prev = g_intr s\<rparr>"
    by simp_all
  have "simple_command_cleanup hh (used, resp, req) s = Inr (unlock_virtq (v\<lparr>vq_desc := pool\<rparr>) s2)"
    using s1(1) s2(1) v(1) l pool(1) by (simp add: simple_command_cleanup_def lock_virtq_ok)
  with g q s2(2) show ?thesis
    by (intro exI [of _ "unlock_virtq (v\<lparr>vq_desc := pool\<rparr>) s2"]) (simp add: unlock_virtq_eq gpu_idle_def)
qed

lemma virtq_new_ok:
  assumes free: "pmm_free hh s (d # av # us # fs)" and q: "0 < unat q"
  shows "\<exists>v s'. virtq_new hh q s = Inr (v, s') \<and> pmm_free hh s' fs \<and> pmm_state.more s' = pmm_state.more s"
proof -
  from allocate_page_ok [OF free] obtain s1 where s1: "allocate_page hh s = Inr (d, s1)" "pmm_free hh s1 (av # us # fs)"
    by blast
  from allocate_page_ok [OF s1(2)] obtain s2 where s2: "allocate_page hh s1 = Inr (av, s2)" "pmm_free hh s2 (us # fs)"
    by blast
  from allocate_page_ok [OF s2(2)] obtain s3 where s3: "allocate_page hh s2 = Inr (us, s3)" "pmm_free hh s3 fs"
    by blast
  have "pmm_state.more s3 = pmm_state.more s"
    using allocate_page_more [OF s1(1)] allocate_page_more [OF s2(1)] allocate_page_more [OF s3(1)] by simp
  with q s1(1) s2(1) s3 show ?thesis
    by (simp add: virtq_new_def freelistdescpool_new_def Let_def)
qed

lemma virtq_new_fields:
  assumes "virtq_new hh q s = Inr (v, s')"
  shows "\<exists>pool s1. freelistdescpool_new hh q s = Inr (pool, s1) \<and> vq_desc v = pool \<and> consumer_used_idx v = 0 \<and> avail_idx v = 0
    \<and> used_idx v = 0 \<and> length (avail_ring v) = unat q \<and> length (used_ring v) = unat q"
  using assms by (auto simp: virtq_new_def and_then_Inr_iff)

lemma concat_pairs: "concat (map pair [0..<n]) = [0..<2 * n]"
  by (induction n) (simp_all add: pair_def)

lemma virtq_new_idle:
  assumes "virtq_new hh q s = Inr (v, s')" and q: "unat q = 2 ^ k" "0 < k" "k < 16"
  shows "queue_idle (v\<lparr>vq_notify := Some a\<rparr>) [0..<2 ^ (k - 1)] []"
proof -
  from virtq_new_fields [OF assms(1)] obtain pool s1 where p: "freelistdescpool_new hh q s = Inr (pool, s1)" "vq_desc v = pool"
    "consumer_used_idx v = 0" "avail_idx v = 0" "used_idx v = 0" "length (avail_ring v) = 2 ^ k" "length (used_ring v) = 2 ^ k"
    using q(1) by auto
  have lt: "(2::nat) ^ k < 2 ^ 16" "(2::nat) ^ k dvd 2 ^ 16"
    using q(3) by (intro power_strict_increasing le_imp_power_dvd; simp)+
  have h: "2 * 2 ^ (k - 1) = (2::nat) ^ k"
    using q(2) by (cases k) simp_all
  from freelistdescpool_new_ok [OF p(1)] lt(1) q(1) have n: "pool_inv pool [0..<2 ^ k] []" "dp_queue_size pool = q"
    by simp_all
  with p lt q(1) h show ?thesis
    by (simp add: queue_idle_def ring_ok_def Let_def in_flight_def concat_pairs)
qed

text \<open>One command as the driver runs it: submit, wait, release.\<close>

definition run_command ::
    "u64 \<Rightarrow> nat \<Rightarrow> (virtq \<Rightarrow> virtq) \<Rightarrow> u32 \<times> u32 \<Rightarrow> 'z gpu_state_scheme \<Rightarrow> panic + 'z gpu_state_scheme" where
  "run_command hh fuel dev c s =
     and_then (submit_simple_command_and_await_response hh fuel dev (fst c) (snd c) s) (\<lambda>(r, s1). simple_command_cleanup hh r s1)"

lemma run_command_ok:
  assumes idle: "gpu_idle hh s (k # ks) ls (req # resp # fs)" and dev: "device_completes fuel dev"
  shows "\<exists>s'. run_command hh fuel dev c s = Inr s' \<and> gpu_idle hh s' (k # ks) ls (req # resp # fs) \<and> g_intr s' = g_intr s"
proof -
  from submit_simple_command_ok [OF assms, of "fst c" "snd c"] obtain used s1 head where s1:
    "submit_simple_command_and_await_response hh fuel dev (fst c) (snd c) s = Inr ((used, resp, req), s1)"
    "ue_id used = ucast (head :: u16)" "unat head = 2 * k" "gpu_idle hh s1 ks (k # ls) fs" "g_intr s1 = g_intr s"
    by (elim exE conjE) (rule that, assumption+)
  have u: "unat (ue_id used) = 2 * k"
    using s1(2,3) unsigned_less [where ?'a = nat and w = head]
    by (simp add: unsigned_ucast_eq take_bit_nat_eq_self)
  have "valid_frame hh req" "valid_frame hh resp" "distinct (req # resp # fs)"
    using idle by (auto simp: gpu_idle_def pmm_free_def)
  moreover have "gpu_idle hh s1 ks ([] @ k # ls) fs"
    using s1(4) by simp
  ultimately obtain s2 where "simple_command_cleanup hh (used, resp, req) s1 = Inr s2"
    "gpu_idle hh s2 (k # ks) ([] @ ls) (req # resp # fs)" "g_intr s2 = g_intr s1"
    using simple_command_cleanup_ok [of hh s1 ks "[]" k ls fs used req resp] u by blast
  then show ?thesis
    using s1(1,5)
    by (auto simp: run_command_def)
qed

lemma run_commands_ok:
  assumes dev: "device_completes fuel dev"
  shows "gpu_idle hh s (k # ks) ls (req # resp # fs) \<Longrightarrow>
    \<exists>s'. for_each (run_command hh fuel dev) cs s = Inr s' \<and> gpu_idle hh s' (k # ks) ls (req # resp # fs) \<and> g_intr s' = g_intr s"
proof (induction cs arbitrary: s)
  case (Cons c cs)
  from run_command_ok [OF Cons.prems dev, of c] obtain s1 where
    "run_command hh fuel dev c s = Inr s1" "gpu_idle hh s1 (k # ks) ls (req # resp # fs)" "g_intr s1 = g_intr s"
    by blast
  with Cons.IH [of s1] show ?case
    by auto
qed auto

section \<open>Properties\<close>

text \<open>
  C19: whatever sequence of chain allocations, refused allocations, descriptor writes of
  the owners and releases is run on a new pool, the chains held are disjoint, the counter
  of free descriptors is exact, following the flags and links from the head of a held
  chain visits exactly its descriptors, and an allocation of at most the number of
  free descriptors succeeds with a chain of the length asked for that no one holds.
\<close>

theorem virtq_pool_safe:
  assumes new: "freelistdescpool_new hh q s = Inr (p0, s')" "unat q < 2 ^ 16" and run: "pool_run p0 p cs"
  shows "distinct (concat cs) \<and> set (concat cs) \<subseteq> {..<unat q} \<and> unat (dp_num_free p) + length (concat cs) = unat q
    \<and> (\<forall>c \<in> set cs. chain_of p (of_nat (hd c)) = c)
    \<and> (\<forall>n. 0 < n \<and> n \<le> dp_num_free p \<longrightarrow> (\<exists>h p'. allocate_chain n p = Inr (Inr h, p')
         \<and> length (chain_of p' h) = unat n \<and> set (chain_of p' h) \<inter> set (concat cs) = {}))"
proof -
  from freelistdescpool_new_ok [OF new] pool_run_inv [OF run] obtain free where
    inv: "pool_inv p free cs" "length (dp_pool p) = unat q"
    by metis
  note d = inv(1) [unfolded pool_inv_def]
  have c: "chain_of p (of_nat (hd c)) = c" if "c \<in> set cs" for c
  proof (rule chain_of_eq [OF inv(1) that])
    have "chained (dp_pool p) c"
      using d that by simp
    then have "c \<noteq> []"
      by auto
    then have "hd c \<in> set (free @ concat cs)"
      using that hd_in_set [of c] unfolding set_append set_concat by blast
    moreover have "set (free @ concat cs) = {..<length (dp_pool p)}" "length (dp_pool p) < 2 ^ 16"
      using d by simp_all
    ultimately have "hd c < 2 ^ 16"
      by (metis lessThan_iff less_trans)
    then show "unat (of_nat (hd c) :: u16) = hd c"
      by (simp add: unat_of_nat)
  qed
  have a: "\<exists>h p'. allocate_chain n p = Inr (Inr h, p') \<and> length (chain_of p' h) = unat n \<and> set (chain_of p' h) \<inter> set (concat cs) = {}"
    if n: "0 < n \<and> n \<le> dp_num_free p" for n
  proof -
    have le: "unat n \<le> length free" "n \<noteq> 0" "take (unat n) free \<noteq> []"
      using n d by (auto simp: word_le_nat_alt unat_eq_zero)
    from allocate_chain_ok [OF inv(1) le(2,1)] obtain p' where p': "allocate_chain n p = Inr (Inr (dp_head p), p')"
      "pool_inv p' (drop (unat n) free) (take (unat n) free # cs)" "unat (dp_head p) = hd free"
      by blast
    have "chain_of p' (dp_head p) = take (unat n) free"
      using le(3) p'(3) by (intro chain_of_eq [OF p'(2)]) (simp_all add: hd_take)
    moreover have "set (take (unat n) free) \<inter> set (concat cs) = {}"
      using p'(2) unfolding pool_inv_def by auto
    ultimately show ?thesis
      using p'(1) le(1) by (intro exI [of _ "dp_head p"] exI [of _ p']) simp
  qed
  have "distinct (concat cs)" "set (concat cs) \<subseteq> {..<unat q}" "unat (dp_num_free p) = length free"
    using d inv(2) by auto
  then show ?thesis
    using inv(2) pool_inv_length [OF inv(1)] c a by simp
qed

text \<open>The examples run on five frames and queues of two descriptors.\<close>

definition example_gpu :: gpu_state where
  "example_gpu = \<lparr>mem = (\<lambda>_. 0)(0x105000 := 0x4000, 0x104000 := 0x3000, 0x103000 := 0x2000, 0x102000 := 0x1000),
     FREELIST = Some 0x5000, g_virtq = None, g_lock = \<lparr>sl_held = False, sl_prev = False\<rparr>, g_intr = True\<rparr>"

lemma example_gpu_free: "pmm_free 0x100000 example_gpu [0x105000, 0x104000, 0x103000, 0x102000, 0x101000]"
  by (simp add: pmm_free_def example_gpu_def valid_frame_def page_aligned_def)

theorem virtq_pool_safe_witness:
  "\<exists>p0 s' p h. freelistdescpool_new 0x100000 2 example_gpu = Inr (p0, s') \<and> allocate_chain 1 p0 = Inr (Inr h, p)
     \<and> dp_num_free p = 1 \<and> (\<exists>h' p'. allocate_chain 1 p = Inr (Inr h', p') \<and> set (chain_of p' h') \<inter> set (chain_of p h) = {})"
proof -
  obtain s' where s': "allocate_page 0x100000 example_gpu = Inr (0x105000, s')"
    using allocate_page_ok [OF example_gpu_free] by blast
  obtain p0 where p0: "freelistdescpool_new 0x100000 2 example_gpu = Inr (p0, s')"
    using s' by (simp add: freelistdescpool_new_def Let_def upt_rec)
  then have p0_eq: "p0 = \<lparr>dp_ptr = 0x105000, dp_pool = [zero_desc\<lparr>vd_next := 1\<rparr>, zero_desc], dp_queue_size = 2,
      dp_head = 0, dp_num_free = 2\<rparr>"
    using s' by (simp add: freelistdescpool_new_def Let_def upt_rec desc_upd_def zero_desc_def)
  obtain h p where p: "allocate_chain 1 p0 = Inr (Inr h, p)" "dp_num_free p = 1"
    by (simp add: allocate_chain_def p0_eq desc_at_def)
  have "pool_run p0 p [chain_of p h]"
    using pool_run.alloc [OF pool_run.start p(1)] .
  from virtq_pool_safe [OF p0 _ this, THEN conjunct2, THEN conjunct2, THEN conjunct2, THEN conjunct2, THEN spec, of 1]
  have "\<exists>h' p'. allocate_chain 1 p = Inr (Inr h', p')
      \<and> length (chain_of p' h') = unat (1 :: u16) \<and> set (chain_of p' h') \<inter> set (concat [chain_of p h]) = {}"
    using p(2) by simp
  then show ?thesis
    using p0 p by (intro exI [of _ p0] exI [of _ s'] exI [of _ p] exI [of _ h]) auto
qed

text \<open>
  C37: the loop of \<^verbatim>\<open>deallocate_chain\<close> ends on every pool, also one in which the device
  or a wrong head has made the links circular: it clears the flag it followed, so
  it makes at most one round per descriptor.
\<close>

theorem deallocate_chain_terminates: "deallocate_chain h p \<noteq> Inl OutOfFuel"
proof -
  have "card {i. i < length (dp_pool p) \<and> bit (vd_flags (dp_pool p ! i)) 0} \<le> card {..<length (dp_pool p)}"
    by (intro card_mono) auto
  then have "dealloc_walk (Suc (length (dp_pool p))) h (dp_num_free p) (dp_pool p) \<noteq> Inl OutOfFuel"
    by (intro dealloc_walk_ends) simp
  then show ?thesis
    by (auto simp: deallocate_chain_def and_then_def split: sum.splits)
qed

text \<open>
  C21: the rings refine a bounded queue of chain heads, also across the wrap of the
  16-bit indices: \<^verbatim>\<open>submit_to_queue\<close> appends when there is room and refuses without a
  change exactly when the ring is full, and a completed \<^verbatim>\<open>read_used_queue_blocking\<close> retires
  the oldest command and returns the element the device wrote for it.
\<close>

theorem virtq_ring_refines_queue:
  assumes ok: "ring_ok v"
  shows "(length (in_flight v) < length (avail_ring v) \<longrightarrow>
      (\<exists>v'. submit_to_queue c v = Inr (Inr (), v') \<and> in_flight v' = in_flight v @ [c] \<and> ring_ok v'))
    \<and> (length (in_flight v) = length (avail_ring v) \<longrightarrow> submit_to_queue c v = Inr (Inl (), v))
    \<and> (in_flight v \<noteq> [] \<and> used_idx v \<noteq> consumer_used_idx v \<longrightarrow>
        (\<exists>v'. read_used_queue_blocking (Suc fuel) dev v
            = Inr (used_ring v ! (unat (consumer_used_idx v) mod length (used_ring v)), v')
          \<and> in_flight v' = tl (in_flight v) \<and> ring_ok v'))"
proof (intro conjI impI)
  show "\<exists>v'. submit_to_queue c v = Inr (Inr (), v') \<and> in_flight v' = in_flight v @ [c] \<and> ring_ok v'"
    if "length (in_flight v) < length (avail_ring v)"
    using submit_to_queue_ok [OF ok that] by blast
  show "submit_to_queue c v = Inr (Inl (), v)" if "length (in_flight v) = length (avail_ring v)"
    using ok that by (rule submit_to_queue_full)
  assume "in_flight v \<noteq> [] \<and> used_idx v \<noteq> consumer_used_idx v"
  then show "\<exists>v'. read_used_queue_blocking (Suc fuel) dev v
      = Inr (used_ring v ! (unat (consumer_used_idx v) mod length (used_ring v)), v')
    \<and> in_flight v' = tl (in_flight v) \<and> ring_ok v'"
    using read_used_ok [OF ok _, of "hd (in_flight v)" "tl (in_flight v)"] by auto
qed

definition example_ring :: virtq where
  "example_ring = \<lparr>consumer_used_idx = 0xFFFF, vq_desc = \<lparr>dp_ptr = 0, dp_pool = [zero_desc, zero_desc], dp_queue_size = 2,
       dp_head = 0, dp_num_free = 0\<rparr>,
     avail_ptr = 0, avail_idx = 0, avail_ring = [7, 5], used_ptr = 0, used_idx = 0,
     used_ring = [\<lparr>ue_id = 1, ue_len = 0\<rparr>, \<lparr>ue_id = 5, ue_len = 24\<rparr>], vq_notify = None, vq_notified = []\<rparr>"

theorem virtq_ring_refines_queue_witness:
  "in_flight example_ring = [5]
   \<and> (\<exists>v'. submit_to_queue 9 example_ring = Inr (Inr (), v') \<and> in_flight v' = [5, 9])
   \<and> (\<exists>v'. read_used_queue_blocking 1 id example_ring = Inr (\<lparr>ue_id = 5, ue_len = 24\<rparr>, v') \<and> in_flight v' = [])"
proof -
  have fl: "in_flight example_ring = [5]"
    by (simp add: in_flight_def example_ring_def numeral_2_eq_2 [symmetric])
  have "ring_ok example_ring"
    by (simp add: ring_ok_def Let_def) (simp add: example_ring_def numeral_2_eq_2 [symmetric])
  moreover have "length (avail_ring example_ring) = 2" "used_idx example_ring \<noteq> consumer_used_idx example_ring"
    "used_ring example_ring ! (unat (consumer_used_idx example_ring) mod length (used_ring example_ring)) = \<lparr>ue_id = 5, ue_len = 24\<rparr>"
    by (simp_all add: example_ring_def numeral_2_eq_2 [symmetric])
  ultimately show ?thesis
    using virtq_ring_refines_queue [of example_ring 9 0 id] fl
    by (auto simp del: in_flight_len read_used_queue_blocking.simps)
qed

text \<open>
  C20: with a device that answers every command, any sequence of commands on a new queue
  runs to its end: each command is described to the device by the chain of its
  request and response page, the element returned carries the head of that chain, and
  after the clean-up the descriptors, the two frames, the lock and the interrupt flag
  are as they were.
\<close>

theorem gpu_commands_complete:
  assumes new: "virtq_new hh q s0 = Inr (v, s1)" "unat q = 2 ^ k" "0 < k" "k < 16" and free: "pmm_free hh s1 (req # resp # fs)"
    and s: "s = s1\<lparr>g_virtq := Some (v\<lparr>vq_notify := Some a\<rparr>), g_lock := \<lparr>sl_held = False, sl_prev = i\<rparr>\<rparr>"
    and dev: "device_completes fuel dev"
  shows "\<exists>s'. for_each (run_command hh fuel dev) cs s = Inr s' \<and> pmm_free hh s' (req # resp # fs) \<and> g_intr s' = g_intr s
    \<and> \<not> sl_held (g_lock s')
    \<and> (\<exists>used s2 w. submit_simple_command_and_await_response hh fuel dev B len s' = Inr ((used, resp, req), s2)
         \<and> ue_id used = 0 \<and> mem s2 req = ucast B \<and> g_virtq s2 = Some w \<and> chain_of (vq_desc w) 0 = [0, 1]
         \<and> map (\<lambda>i. dp_pool (vq_desc w) ! i) [0, 1] = cmd_descs hh 0 req resp len)"
proof -
  obtain m where m: "(2::nat) ^ (k - 1) = Suc m"
    by (metis Suc_pred zero_less_power zero_less_numeral)
  have "[0..<2 ^ (k - 1)] = 0 # [1..<2 ^ (k - 1)]"
    using m by (simp add: upt_rec)
  then have "gpu_idle hh s (0 # [1..<2 ^ (k - 1)]) [] (req # resp # fs)"
    using virtq_new_idle [OF new, of a] free by (simp add: gpu_idle_def s)
  from run_commands_ok [OF dev this, of cs] obtain s' where s':
    "for_each (run_command hh fuel dev) cs s = Inr s'" "gpu_idle hh s' (0 # [1..<2 ^ (k - 1)]) [] (req # resp # fs)"
    "g_intr s' = g_intr s"
    by blast
  from submit_simple_command_ok [OF s'(2) dev, of B len] obtain used s2 w head where s2:
    "submit_simple_command_and_await_response hh fuel dev B len s' = Inr ((used, resp, req), s2)"
    "ue_id used = ucast head" "unat head = 2 * 0" "gpu_idle hh s2 [1..<2 ^ (k - 1)] [0] fs"
    "g_virtq s2 = Some w" "map (\<lambda>i. dp_pool (vq_desc w) ! i) (pair 0) = cmd_descs hh head req resp len" "mem s2 req = ucast B"
    by (elim exE conjE) (rule that, assumption+)
  have h: "head = 0"
    using s2(3) by (simp add: unat_eq_zero)
  have "pool_inv (vq_desc w) (concat (map pair [1..<2 ^ (k - 1)])) [pair 0]"
    using s2(4,5) by (simp add: gpu_idle_def queue_idle_def)
  from chain_of_eq [OF this, of "pair 0" 0] have "chain_of (vq_desc w) 0 = [0, 1]"
    by (simp add: pair_def)
  with s' s2 h show ?thesis
    by (intro exI [of _ s'] conjI exI [of _ used] exI [of _ s2] exI [of _ w]) (simp_all add: gpu_idle_def pair_def)
qed

text \<open>A device that answers at its first step.\<close>

definition example_device :: "virtq \<Rightarrow> virtq" where
  "example_device v =
     (case in_flight v of [] \<Rightarrow> v
      | c # _ \<Rightarrow> v\<lparr>used_ring := (used_ring v)[unat (used_idx v) mod length (used_ring v) := \<lparr>ue_id = ucast c, ue_len = 0\<rparr>],
          used_idx := used_idx v + 1\<rparr>)"

lemma example_device_completes: "device_completes 2 example_device"
  unfolding device_completes_def
proof (intro allI impI)
  fix v c
  assume "used_idx v = consumer_used_idx v" "in_flight v = [c]"
  then show "\<exists>n e. n < 2 \<and> ue_id e = ucast c
      \<and> (\<forall>m<n. used_idx ((example_device ^^ m) v) = consumer_used_idx ((example_device ^^ m) v))
      \<and> (example_device ^^ n) v = v\<lparr>used_ring := (used_ring v)[unat (used_idx v) mod length (used_ring v) := e],
           used_idx := used_idx v + 1\<rparr>"
    by (intro exI [of _ 1] exI [of _ "\<lparr>ue_id = ucast c, ue_len = 0\<rparr>"]) (simp add: example_device_def)
qed

theorem gpu_commands_complete_witness:
  "\<exists>v s1 s s'. virtq_new 0x100000 2 example_gpu = Inr (v, s1)
     \<and> s = s1\<lparr>g_virtq := Some (v\<lparr>vq_notify := Some 0xFE000000\<rparr>), g_lock := \<lparr>sl_held = False, sl_prev = False\<rparr>\<rparr>
     \<and> for_each (run_command 0x100000 2 example_device) [(0x100, 24), (0x101, 40)] s = Inr s'
     \<and> pmm_free 0x100000 s' [0x102000, 0x101000]
     \<and> (\<exists>used s2. submit_simple_command_and_await_response 0x100000 2 example_device 0x100 24 s'
           = Inr ((used, 0x101000, 0x102000), s2) \<and> ue_id used = 0 \<and> mem s2 0x102000 = 0x100)"
proof -
  obtain v s1 where v: "virtq_new 0x100000 2 example_gpu = Inr (v, s1)" "pmm_free 0x100000 s1 [0x102000, 0x101000]"
    using virtq_new_ok [OF example_gpu_free, of 2] by auto
  let ?s = "s1\<lparr>g_virtq := Some (v\<lparr>vq_notify := Some 0xFE000000\<rparr>), g_lock := \<lparr>sl_held = False, sl_prev = False\<rparr>\<rparr>"
  have q: "unat (2 :: usize) = 2 ^ 1" "0 < (1::nat)" "(1::nat) < 16"
    by simp_all
  from gpu_commands_complete [OF v(1) q v(2) refl example_device_completes,
      where a = "0xFE000000" and i = False and cs = "[(0x100, 24), (0x101, 40)]" and B = "0x100" and len = 24]
  obtain s' used s2 where "for_each (run_command 0x100000 2 example_device) [(0x100, 24), (0x101, 40)] ?s = Inr s'"
    "pmm_free 0x100000 s' [0x102000, 0x101000]"
    "submit_simple_command_and_await_response 0x100000 2 example_device 0x100 24 s' = Inr ((used, 0x101000, 0x102000), s2)"
    "ue_id used = 0" "mem s2 0x102000 = ucast (0x100 :: u32)"
    by (elim exE conjE) (rule that, assumption+)
  then show ?thesis
    using v(1)
    by (intro exI [of _ v] exI [of _ s1] exI [of _ ?s] exI [of _ s'] conjI refl exI [of _ used] exI [of _ s2]) simp_all
qed

end
