(* ===== verification/Timers.thy ===== *)
theory Timers
  imports Vmm
begin

text \<open>
  The timers of the x86_64 target: the high precision event timer
  (\<^verbatim>\<open>arch/x86_64/hpet/mod.rs\<close>), against which the timer of the local interrupt
  controller (\<^verbatim>\<open>arch/x86_64/lapic/mod.rs\<close>) is calibrated, and the instructions of
  \<^verbatim>\<open>arch/x86_64/mod.rs\<close> they use. Device registers are cells of 32 bits at virtual
  addresses; what a device does between two accesses of a polling loop is the
  parameter \<open>tick\<close>. The processor's \<^verbatim>\<open>cpuid\<close> is a parameter.
\<close>

section \<open>Constants\<close>

definition IA32_APIC_BASE_MSR :: u32 where "IA32_APIC_BASE_MSR = 0x1B"
definition IA32_X2APIC_BASE_MSR :: u32 where "IA32_X2APIC_BASE_MSR = 0x800"
definition IA32_APIC_BASE_BSP :: usize where "IA32_APIC_BASE_BSP = push_bit 8 1"
definition IA32_APIC_BASE_ENABLE :: usize where "IA32_APIC_BASE_ENABLE = push_bit 11 1"
definition IA32_APIC_BASE_ENABLE_X2APIC :: usize where "IA32_APIC_BASE_ENABLE_X2APIC = push_bit 10 1"
definition IA32_CPUID_FEATURE_X2APIC :: u32 where "IA32_CPUID_FEATURE_X2APIC = push_bit 21 1"
definition LAPIC_ICR_LOW :: u32 where "LAPIC_ICR_LOW = 0x300"
definition LAPIC_ICR_HIGH :: u32 where "LAPIC_ICR_HIGH = 0x310"
definition LAPIC_X2APIC_ICR :: u32 where "LAPIC_X2APIC_ICR = 0x300"
definition IA32_LAPIC_LVT_TIMER :: u32 where "IA32_LAPIC_LVT_TIMER = 0x320"
definition IA32_LAPIC_LVT_THERMAL :: u32 where "IA32_LAPIC_LVT_THERMAL = 0x330"
definition IA32_LAPIC_LVT_PERF :: u32 where "IA32_LAPIC_LVT_PERF = 0x340"
definition IA32_LAPIC_LVT_LINT0 :: u32 where "IA32_LAPIC_LVT_LINT0 = 0x350"
definition IA32_LAPIC_LVT_LINT1 :: u32 where "IA32_LAPIC_LVT_LINT1 = 0x360"
definition IA32_LAPIC_LVT_ERROR :: u32 where "IA32_LAPIC_LVT_ERROR = 0x370"
definition IA32_LAPIC_TIMER_INIT_COUNT :: u32 where "IA32_LAPIC_TIMER_INIT_COUNT = 0x380"
definition IA32_LAPIC_TIMER_CUR_COUNT :: u32 where "IA32_LAPIC_TIMER_CUR_COUNT = 0x390"
definition IA32_LAPIC_TIMER_DIV :: u32 where "IA32_LAPIC_TIMER_DIV = 0x3E0"
definition IA32_LAPIC_ID :: u32 where "IA32_LAPIC_ID = 0x20"
definition IA32_LAPIC_TPR :: u32 where "IA32_LAPIC_TPR = 0x80"
definition IA32_LAPIC_EOI :: u32 where "IA32_LAPIC_EOI = 0xB0"
definition IA32_LAPIC_LDR :: u32 where "IA32_LAPIC_LDR = 0xD0"
definition IA32_LAPIC_DFR :: u32 where "IA32_LAPIC_DFR = 0xE0"
definition IA32_LAPIC_SPURIOUS :: u32 where "IA32_LAPIC_SPURIOUS = 0xF0"
definition IA32_LAPIC_MASK_MASKED :: u32 where "IA32_LAPIC_MASK_MASKED = 0x10000"
definition IA32_LAPIC_SHORTHAND_NONE :: u32 where "IA32_LAPIC_SHORTHAND_NONE = 0x00000"
definition IA32_LAPIC_SHORTHAND_ALL_EXCL_SELF :: u32 where "IA32_LAPIC_SHORTHAND_ALL_EXCL_SELF = 0xC0000"

lemmas lapic_regs = IA32_LAPIC_LVT_TIMER_def IA32_LAPIC_LVT_THERMAL_def IA32_LAPIC_LVT_PERF_def IA32_LAPIC_LVT_LINT0_def
  IA32_LAPIC_LVT_LINT1_def IA32_LAPIC_LVT_ERROR_def IA32_LAPIC_TIMER_INIT_COUNT_def IA32_LAPIC_TIMER_CUR_COUNT_def
  IA32_LAPIC_TIMER_DIV_def IA32_LAPIC_ID_def IA32_LAPIC_TPR_def IA32_LAPIC_EOI_def IA32_LAPIC_LDR_def IA32_LAPIC_DFR_def
  IA32_LAPIC_SPURIOUS_def LAPIC_ICR_LOW_def LAPIC_ICR_HIGH_def

section \<open>State\<close>

record hpet =
  hpet_virt_addr :: u64
  morebitcounter :: bool
  ctr_clk_period :: usize

datatype lapic_type = Xapic | X2apic

record lapic =
  lapic_addr :: u64
  lapic_id :: u32
  ticks_per_ms :: usize
  lapic_bsp :: bool
  lapic_ty :: lapic_type

record hw_state = vmm_state +
  msrs :: "u32 \<Rightarrow> u64"
  mmio :: "u64 \<Rightarrow> u32"
  cali_timer :: "hpet option"
  cpu_lapic :: "lapic option"

section \<open>Instructions\<close>

text \<open>
  \<^verbatim>\<open>rdmsr\<close> leaves the two halves in \<^verbatim>\<open>eax\<close> and \<^verbatim>\<open>edx\<close> with the upper halves of the
  registers clear; \<^verbatim>\<open>wrmsr\<close> takes the lower halves of the two registers.
\<close>

definition rdmsr :: "u32 \<Rightarrow> 'z hw_state_scheme \<Rightarrow> usize" where
  "rdmsr m s =
     (let lo = ucast (ucast (msrs s m) :: u32); hi = ucast (ucast (drop_bit 32 (msrs s m)) :: u32)
      in lo OR push_bit 32 hi)"

definition wrmsr :: "u32 \<Rightarrow> usize \<Rightarrow> 'z hw_state_scheme \<Rightarrow> 'z hw_state_scheme" where
  "wrmsr m v s =
     (let hi = ucast (drop_bit 32 v) :: u32; lo = ucast v :: u32
      in s\<lparr>msrs := (msrs s)(m := ucast lo OR push_bit 32 (ucast hi))\<rparr>)"

type_synonym cpuid_fun = "u32 \<Rightarrow> u32 \<Rightarrow> u32 \<times> u32 \<times> u32 \<times> u32"

definition is_intel :: "cpuid_fun \<Rightarrow> bool" where
  "is_intel cpuid =
     (case cpuid 0 0 of (_, ebx, ecx, edx) \<Rightarrow> ebx = 0x756e6547 \<and> edx = 0x49656e69 \<and> ecx = 0x6c65746e)"

definition to_hhdm :: "u64 \<Rightarrow> u64 \<Rightarrow> u64" where
  "to_hhdm hh p = p + hh"

text \<open>The mapping of a page of device registers in the kernel's page map.\<close>

definition map_device_page :: "u64 \<Rightarrow> u64 \<Rightarrow> u64 \<Rightarrow> 'z vmm_state_scheme \<Rightarrow> panic + 'z vmm_state_scheme" where
  "map_device_page hh virt phys s =
     and_then (early_init_pagemap s) (\<lambda>pm.
       x86_arch_map_region hh (arch_page pm) virt 4096 [phys] (VMM_NOCACHE OR VMM_GLOBAL OR VMM_WRITE) s)"

section \<open>The event timer\<close>

definition read_reg_u32 :: "usize \<Rightarrow> hpet \<Rightarrow> 'z hw_state_scheme \<Rightarrow> u32" where
  "read_reg_u32 byte_offset h s = mmio s (hpet_virt_addr h + byte_offset)"

definition write_reg_u32 :: "usize \<Rightarrow> u32 \<Rightarrow> hpet \<Rightarrow> 'z hw_state_scheme \<Rightarrow> 'z hw_state_scheme" where
  "write_reg_u32 byte_offset val h s = s\<lparr>mmio := (mmio s)(hpet_virt_addr h + byte_offset := val)\<rparr>"

definition read_reg_u64 :: "usize \<Rightarrow> hpet \<Rightarrow> 'z hw_state_scheme \<Rightarrow> u64" where
  "read_reg_u64 byte_offset h s =
     ucast (mmio s (hpet_virt_addr h + byte_offset)) OR push_bit 32 (ucast (mmio s (hpet_virt_addr h + byte_offset + 4)))"

definition write_reg_u64 :: "usize \<Rightarrow> u64 \<Rightarrow> hpet \<Rightarrow> 'z hw_state_scheme \<Rightarrow> 'z hw_state_scheme" where
  "write_reg_u64 byte_offset val h s =
     s\<lparr>mmio := (mmio s)(hpet_virt_addr h + byte_offset := ucast val,
       hpet_virt_addr h + byte_offset + 4 := ucast (drop_bit 32 val))\<rparr>"

definition read_main_counter :: "hpet \<Rightarrow> 'z hw_state_scheme \<Rightarrow> usize" where
  "read_main_counter h s =
     (if \<not> morebitcounter h then ucast (read_reg_u32 0x0f0 h s) else read_reg_u64 0x0f0 h s)"

definition hpet_new :: "u64 \<Rightarrow> u64 \<Rightarrow> 'z hw_state_scheme \<Rightarrow> panic + (hpet \<times> 'z hw_state_scheme)" where
  "hpet_new hh addr s =
     (let virt_addr = addr + hh
      in and_then (map_device_page hh virt_addr addr s) (\<lambda>s1.
        let hpe = \<lparr>hpet_virt_addr = virt_addr, morebitcounter = False, ctr_clk_period = 0\<rparr>;
            cap = read_reg_u64 0 hpe s1;
            hm = drop_bit 13 cap AND 1;
            ctr_clock = drop_bit 32 cap AND 0xFFFFFFFF;
            hpe1 = hpe\<lparr>morebitcounter := hm = 1, ctr_clk_period := ctr_clock\<rparr>;
            gcr = read_reg_u64 0x10 hpe1 s1 OR 1
        in Inr (hpe1, write_reg_u64 0x10 gcr hpe1 s1)))"

text \<open>The products are computed in 128 bits, which two values of 64 bits cannot exceed.\<close>

definition get_ms :: "hpet \<Rightarrow> 'z hw_state_scheme \<Rightarrow> usize" where
  "get_ms h s = of_nat (unat (read_main_counter h s) * unat (ctr_clk_period h) div 1000000000000)"

definition get_ns :: "hpet \<Rightarrow> 'z hw_state_scheme \<Rightarrow> usize" where
  "get_ns h s = of_nat (unat (read_main_counter h s) * unat (ctr_clk_period h) div 1000000)"

primrec poll_loop ::
    "nat \<Rightarrow> ('z hw_state_scheme \<Rightarrow> 'z hw_state_scheme) \<Rightarrow> hpet \<Rightarrow> usize \<Rightarrow> usize \<Rightarrow> 'z hw_state_scheme
      \<Rightarrow> panic + 'z hw_state_scheme" where
  "poll_loop 0 tick h inital ms s = Inl OutOfFuel"
| "poll_loop (Suc fuel) tick h inital ms s =
     (if get_ms h s - inital < ms then poll_loop fuel tick h inital ms (tick s) else Inr s)"

definition poll_for_ms ::
    "nat \<Rightarrow> ('z hw_state_scheme \<Rightarrow> 'z hw_state_scheme) \<Rightarrow> hpet \<Rightarrow> usize \<Rightarrow> 'z hw_state_scheme
      \<Rightarrow> panic + 'z hw_state_scheme" where
  "poll_for_ms fuel tick h ms s = poll_loop fuel tick h (get_ms h s) ms (tick s)"

text \<open>\<open>tabl\<close> is what \<^verbatim>\<open>find_acpi_table\<close> answers for \<^verbatim>\<open>HPET\<close>: the address in the table, or an error.\<close>

definition hpet_init :: "u64 \<Rightarrow> string + u64 \<Rightarrow> 'z hw_state_scheme \<Rightarrow> panic + ((string + hpet) \<times> 'z hw_state_scheme)" where
  "hpet_init hh tabl s =
     (case tabl of
        Inl e \<Rightarrow> Inr (Inl e, s)
      | Inr addr \<Rightarrow> and_then (hpet_new hh addr s) (\<lambda>(new, s1). Inr (Inr new, s1)))"

definition calibrate_timer_init :: "u64 \<Rightarrow> string + u64 \<Rightarrow> 'z hw_state_scheme \<Rightarrow> panic + 'z hw_state_scheme" where
  "calibrate_timer_init hh tabl s =
     and_then (hpet_init hh tabl s) (\<lambda>(hpe, s1).
       case hpe of
         Inl _ \<Rightarrow> Inl (PanicMsg ''no hpet no dice sorry'')
       | Inr h \<Rightarrow> Inr (case cali_timer s1 of None \<Rightarrow> s1\<lparr>cali_timer := Some h\<rparr> | Some _ \<Rightarrow> s1))"

section \<open>The local interrupt controller\<close>

definition lapic_read :: "u32 \<Rightarrow> lapic \<Rightarrow> 'z hw_state_scheme \<Rightarrow> u32" where
  "lapic_read reg l s =
     (case lapic_ty l of
        Xapic \<Rightarrow> mmio s (lapic_addr l + ucast reg)
      | X2apic \<Rightarrow> ucast (rdmsr (IA32_X2APIC_BASE_MSR + drop_bit 4 reg) s))"

definition lapic_write :: "u32 \<Rightarrow> u32 \<Rightarrow> lapic \<Rightarrow> 'z hw_state_scheme \<Rightarrow> 'z hw_state_scheme" where
  "lapic_write reg val l s =
     (case lapic_ty l of
        Xapic \<Rightarrow> s\<lparr>mmio := (mmio s)(lapic_addr l + ucast reg := val)\<rparr>
      | X2apic \<Rightarrow> wrmsr (IA32_X2APIC_BASE_MSR + drop_bit 4 reg) (ucast val) s)"

definition lapic_read_64 :: "u32 \<Rightarrow> lapic \<Rightarrow> 'z hw_state_scheme \<Rightarrow> panic + u64" where
  "lapic_read_64 reg l s =
     (case lapic_ty l of
        Xapic \<Rightarrow> Inl (PanicMsg ''xapic does not support 64 bit reads'')
      | X2apic \<Rightarrow> Inr (rdmsr (IA32_X2APIC_BASE_MSR + drop_bit 4 reg) s))"

definition lapic_write_64 :: "u32 \<Rightarrow> u64 \<Rightarrow> lapic \<Rightarrow> 'z hw_state_scheme \<Rightarrow> panic + 'z hw_state_scheme" where
  "lapic_write_64 reg val l s =
     (case lapic_ty l of
        Xapic \<Rightarrow> Inl (PanicMsg ''xapic does not support 64 bit writes'')
      | X2apic \<Rightarrow> Inr (wrmsr (IA32_X2APIC_BASE_MSR + drop_bit 4 reg) val s))"

definition configure_lapic_type :: "cpuid_fun \<Rightarrow> 'z hw_state_scheme \<Rightarrow> (string + lapic_type) \<times> 'z hw_state_scheme" where
  "configure_lapic_type cpuid s =
     (let apic_config = rdmsr IA32_APIC_BASE_MSR s;
          s1 = (if \<not> (apic_config AND IA32_APIC_BASE_ENABLE > 0)
                then wrmsr IA32_APIC_BASE_MSR (apic_config OR IA32_APIC_BASE_ENABLE) s else s);
          apic_config = rdmsr IA32_APIC_BASE_MSR s1;
          (_, _, ecx, _) = cpuid 1 0
      in if ecx AND IA32_CPUID_FEATURE_X2APIC > 0
         then (Inr X2apic,
               if \<not> (apic_config AND IA32_APIC_BASE_ENABLE_X2APIC > 0)
               then wrmsr IA32_APIC_BASE_MSR (apic_config OR IA32_APIC_BASE_ENABLE_X2APIC) s1 else s1)
         else (Inr Xapic, s1))"

definition lapic_writes :: "(u32 \<times> u32) list \<Rightarrow> lapic \<Rightarrow> 'z hw_state_scheme \<Rightarrow> 'z hw_state_scheme" where
  "lapic_writes ws l s = fold (\<lambda>(reg, val). lapic_write reg val l) ws s"

definition lapic_new :: "u64 \<Rightarrow> cpuid_fun \<Rightarrow> 'z hw_state_scheme \<Rightarrow> panic + (lapic \<times> 'z hw_state_scheme)" where
  "lapic_new hh cpuid s =
     (let base_msr = rdmsr IA32_APIC_BASE_MSR s;
          is_bsp = base_msr AND IA32_APIC_BASE_BSP > 0;
          lapic_phys_addr = base_msr AND 0xFFFFFF000;
          addr = to_hhdm hh lapic_phys_addr
      in and_then (map_device_page hh addr lapic_phys_addr s) (\<lambda>s1.
         let data = \<lparr>lapic_addr = addr, lapic_id = 0, ticks_per_ms = 0, lapic_bsp = is_bsp, lapic_ty = Xapic\<rparr>;
             (r, s2) = configure_lapic_type cpuid s1
         in and_then (unwrap_res r) (\<lambda>ty.
            let data = data\<lparr>lapic_ty := ty\<rparr>;
                data = data\<lparr>lapic_id := (case ty of
                    Xapic \<Rightarrow> drop_bit 24 (lapic_read IA32_LAPIC_ID data s2) AND 0xff
                  | X2apic \<Rightarrow> lapic_read IA32_LAPIC_ID data s2)\<rparr>;
                s3 = lapic_write IA32_LAPIC_TPR 0 data s2;
                s4 = (if ty = Xapic
                      then lapic_writes [(IA32_LAPIC_DFR, 0xF0000000), (IA32_LAPIC_LDR, 0x01000000)] data s3 else s3);
                s5 = lapic_writes [(IA32_LAPIC_LVT_TIMER, IA32_LAPIC_MASK_MASKED), (IA32_LAPIC_LVT_THERMAL, IA32_LAPIC_MASK_MASKED),
                   (IA32_LAPIC_LVT_PERF, IA32_LAPIC_MASK_MASKED), (IA32_LAPIC_LVT_LINT0, IA32_LAPIC_MASK_MASKED),
                   (IA32_LAPIC_LVT_LINT1, IA32_LAPIC_MASK_MASKED), (IA32_LAPIC_LVT_ERROR, IA32_LAPIC_MASK_MASKED),
                   (IA32_LAPIC_SPURIOUS, 0xFF OR push_bit 8 1)] data s4
            in Inr (data, s5))))"

text \<open>\<open>poll\<close> is the \<^verbatim>\<open>poll_for_ms\<close> of the timer passed in.\<close>

definition calibrate_timer ::
    "(usize \<Rightarrow> 'z hw_state_scheme \<Rightarrow> panic + 'z hw_state_scheme) \<Rightarrow> lapic \<Rightarrow> 'z hw_state_scheme
      \<Rightarrow> panic + (lapic \<times> 'z hw_state_scheme)" where
  "calibrate_timer poll l s =
     (let s1 = lapic_writes [(IA32_LAPIC_LVT_TIMER, 0x21 OR push_bit 16 1), (IA32_LAPIC_TIMER_DIV, 0xb),
            (IA32_LAPIC_TIMER_INIT_COUNT, 0xFFFFFFFF)] l s
      in and_then (poll 10 s1) (\<lambda>s2.
         let cur = lapic_read IA32_LAPIC_TIMER_CUR_COUNT l s2;
             l' = l\<lparr>ticks_per_ms := ucast ((0xFFFFFFFF - cur) div 10)\<rparr>
         in Inr (l', lapic_write IA32_LAPIC_TIMER_INIT_COUNT 0 l' s2)))"

definition disable_timer :: "lapic \<Rightarrow> 'z hw_state_scheme \<Rightarrow> 'z hw_state_scheme" where
  "disable_timer l s =
     (let lvt = lapic_read IA32_LAPIC_LVT_TIMER l s OR IA32_LAPIC_MASK_MASKED in lapic_write IA32_LAPIC_LVT_TIMER lvt l s)"

definition enable_timer :: "lapic \<Rightarrow> 'z hw_state_scheme \<Rightarrow> 'z hw_state_scheme" where
  "enable_timer l s =
     (let lvt = lapic_read IA32_LAPIC_LVT_TIMER l s AND NOT IA32_LAPIC_MASK_MASKED in lapic_write IA32_LAPIC_LVT_TIMER lvt l s)"

definition set_timer :: "usize \<Rightarrow> lapic \<Rightarrow> 'z hw_state_scheme \<Rightarrow> 'z hw_state_scheme" where
  "set_timer ms l s =
     enable_timer l (lapic_write IA32_LAPIC_TIMER_INIT_COUNT (ucast (ticks_per_ms l * ms)) l (disable_timer l s))"

definition send_eoi :: "lapic \<Rightarrow> 'z hw_state_scheme \<Rightarrow> 'z hw_state_scheme" where
  "send_eoi l s = lapic_write IA32_LAPIC_EOI 0 l s"

primrec icr_wait ::
    "nat \<Rightarrow> ('z hw_state_scheme \<Rightarrow> 'z hw_state_scheme) \<Rightarrow> lapic \<Rightarrow> 'z hw_state_scheme \<Rightarrow> panic + 'z hw_state_scheme" where
  "icr_wait 0 tick l s = Inl OutOfFuel"
| "icr_wait (Suc fuel) tick l s =
     (if (ucast (lapic_read LAPIC_ICR_LOW l s) :: u64) AND push_bit 12 1 > 0 then icr_wait fuel tick l (tick s) else Inr s)"

definition send_icr ::
    "nat \<Rightarrow> ('z hw_state_scheme \<Rightarrow> 'z hw_state_scheme) \<Rightarrow> u32 \<Rightarrow> u64 \<Rightarrow> lapic \<Rightarrow> 'z hw_state_scheme
      \<Rightarrow> panic + 'z hw_state_scheme" where
  "send_icr fuel tick apic_id icr l s =
     (let icr = (if lapic_ty l = Xapic then icr OR push_bit 56 (ucast apic_id) else icr OR push_bit 32 (ucast apic_id))
      in if lapic_ty l = X2apic then lapic_write_64 LAPIC_X2APIC_ICR icr l s
         else icr_wait fuel tick l
           (lapic_writes [(LAPIC_ICR_HIGH, ucast (drop_bit 32 icr)), (LAPIC_ICR_LOW, ucast (icr AND 0xFFFFFFFF))] l s))"

definition send_ipi ::
    "nat \<Rightarrow> ('z hw_state_scheme \<Rightarrow> 'z hw_state_scheme) \<Rightarrow> u32 \<Rightarrow> u8 \<Rightarrow> lapic \<Rightarrow> 'z hw_state_scheme
      \<Rightarrow> panic + 'z hw_state_scheme" where
  "send_ipi fuel tick apic_id vector l s =
     send_icr fuel tick apic_id (ucast IA32_LAPIC_SHORTHAND_NONE OR ucast vector) l s"

definition broadcast_ipi ::
    "nat \<Rightarrow> ('z hw_state_scheme \<Rightarrow> 'z hw_state_scheme) \<Rightarrow> u32 \<Rightarrow> u8 \<Rightarrow> lapic \<Rightarrow> 'z hw_state_scheme
      \<Rightarrow> panic + 'z hw_state_scheme" where
  "broadcast_ipi fuel tick apic_id vector l s =
     send_icr fuel tick 0 (ucast IA32_LAPIC_SHORTHAND_ALL_EXCL_SELF OR ucast vector) l s"

definition lapic_init ::
    "u64 \<Rightarrow> cpuid_fun \<Rightarrow> (usize \<Rightarrow> 'z hw_state_scheme \<Rightarrow> panic + 'z hw_state_scheme) \<Rightarrow> 'z hw_state_scheme
      \<Rightarrow> panic + 'z hw_state_scheme" where
  "lapic_init hh cpuid poll s =
     and_then (lapic_new hh cpuid s) (\<lambda>(l, s1).
     and_then (calibrate_timer poll l s1) (\<lambda>(l', s2).
       Inr (s2\<lparr>cpu_lapic := Some l'\<rparr>)))"

section \<open>Timers of the processor\<close>

definition init_timer ::
    "u64 \<Rightarrow> cpuid_fun \<Rightarrow> nat \<Rightarrow> ('z hw_state_scheme \<Rightarrow> 'z hw_state_scheme) \<Rightarrow> string + u64 \<Rightarrow> 'z hw_state_scheme
      \<Rightarrow> panic + 'z hw_state_scheme" where
  "init_timer hh cpuid fuel tick tabl s =
     and_then (calibrate_timer_init hh tabl s) (\<lambda>s1.
     and_then (unwrap_opt (cali_timer s1)) (\<lambda>h.
       lapic_init hh cpuid (poll_for_ms fuel tick h) s1))"

definition lapic_set_timer_ms :: "usize \<Rightarrow> 'z hw_state_scheme \<Rightarrow> panic + 'z hw_state_scheme" where
  "lapic_set_timer_ms ms s = and_then (unwrap_opt (cpu_lapic s)) (\<lambda>l. Inr (set_timer ms l s))"

definition lapic_mask_timer :: "'z hw_state_scheme \<Rightarrow> panic + 'z hw_state_scheme" where
  "lapic_mask_timer s = and_then (unwrap_opt (cpu_lapic s)) (\<lambda>l. Inr (disable_timer l s))"

definition lapic_acknowledge_interrupt :: "'z hw_state_scheme \<Rightarrow> panic + 'z hw_state_scheme" where
  "lapic_acknowledge_interrupt s = and_then (unwrap_opt (cpu_lapic s)) (\<lambda>l. Inr (send_eoi l s))"

section \<open>Register accesses\<close>

lemma u64_halves: "ucast (ucast x :: u32) OR push_bit 32 (ucast (ucast (drop_bit 32 x) :: u32)) = (x :: u64)"
  by (rule bit_eqI) (auto simp: bit_simps)

lemma rdmsr_eq [simp]: "rdmsr m s = msrs s m"
  by (simp add: rdmsr_def Let_def u64_halves)

lemma wrmsr_eq [simp]: "wrmsr m v s = s\<lparr>msrs := (msrs s)(m := v)\<rparr>"
  by (simp add: wrmsr_def Let_def u64_halves)

lemma read_write_reg_u64 [simp]: "read_reg_u64 b h (write_reg_u64 b v h s) = v"
  by (simp add: read_reg_u64_def write_reg_u64_def u64_halves)

lemma ucast_u32_id [simp]: "ucast (ucast (v :: u32) :: u64) = v"
  by (rule bit_eqI) (auto simp: bit_simps)

lemma ucast_u32_u64_eq [simp]: "(ucast (a :: u32) :: u64) = ucast b \<longleftrightarrow> a = b"
  by (metis ucast_u32_id)

lemma unat_ucast_u32 [simp]: "unat (ucast (x :: u32) :: u64) = unat x"
  using unsigned_less [where ?'a = nat and w = x] by (simp add: unsigned_ucast_eq take_bit_nat_eq_self)

lemma lapic_read_write:
  "lapic_read r l (lapic_write r v l s) = v"
  "drop_bit 4 r \<noteq> drop_bit 4 r' \<Longrightarrow> lapic_read r' l (lapic_write r v l s) = lapic_read r' l s"
  by (auto simp: lapic_read_def lapic_write_def split: lapic_type.splits)

text \<open>Distinct registers of the controller differ in the part of the number the bus sees.\<close>

lemmas reg_simps = lapic_read_write lapic_regs

lemma lapic_same [simp]:
  "lapic_read r (l\<lparr>ticks_per_ms := t\<rparr>) s = lapic_read r l s" "lapic_write r v (l\<lparr>ticks_per_ms := t\<rparr>) s = lapic_write r v l s"
  "lapic_read r l (s\<lparr>cpu_lapic := c\<rparr>) = lapic_read r l s"
  by (auto simp: lapic_read_def lapic_write_def split: lapic_type.splits)

lemma lapic_write_frame [simp]:
  "mem (lapic_write r v l s) = mem s" "cpu_lapic (lapic_write r v l s) = cpu_lapic s"
  by (auto simp: lapic_write_def split: lapic_type.splits)

lemma lapic_write_msr:
  "msrs (lapic_write r v l s) 0x1B = msrs s 0x1B" if "drop_bit 4 r < 0x100"
proof -
  have "(0x800 :: u32) + drop_bit 4 r \<noteq> 0x1B"
    using that by (auto simp: word_less_nat_alt unat_word_ariths word_unat_eq_iff)
  then show ?thesis
    by (auto simp: lapic_write_def IA32_X2APIC_BASE_MSR_def split: lapic_type.splits)
qed

section \<open>Polling\<close>

lemma poll_loop_exits:
  "\<lbrakk>\<forall>j<k. get_ms h ((tick ^^ j) s) - i < ms; \<not> get_ms h ((tick ^^ k) s) - i < ms; k < fuel\<rbrakk> \<Longrightarrow>
     poll_loop fuel tick h i ms s = Inr ((tick ^^ k) s)"
proof (induction k arbitrary: s fuel)
  case 0
  then show ?case by (cases fuel) auto
next
  case (Suc k)
  obtain f where f: "fuel = Suc f"
    using Suc.prems(3) by (cases fuel) auto
  have "get_ms h s - i < ms"
    using Suc.prems(1) [rule_format, of 0] by simp
  moreover have "poll_loop f tick h i ms (tick s) = Inr ((tick ^^ k) (tick s))"
    using Suc.prems Suc.prems(1) [rule_format, of "Suc j" for j] f by (intro Suc.IH) (simp_all add: funpow_swap1)
  ultimately show ?case
    by (simp add: f funpow_swap1)
qed

text \<open>The milliseconds the counter stands for, as a number.\<close>

definition elapsed :: "hpet \<Rightarrow> 'z hw_state_scheme \<Rightarrow> nat" where
  "elapsed h s = unat (read_main_counter h s) * unat (ctr_clk_period h) div 1000000000000"

lemma get_ms_elapsed: "unat (ctr_clk_period h) < 2 ^ 32 \<Longrightarrow> unat (get_ms h s) = elapsed h s"
proof -
  assume p: "unat (ctr_clk_period h) < 2 ^ 32"
  have "unat (read_main_counter h s) * unat (ctr_clk_period h) \<le> 2 ^ 64 * 2 ^ 32"
    using p unsigned_less [where ?'a = nat and w = "read_main_counter h s"]
    by (intro mult_le_mono) simp_all
  then have "unat (read_main_counter h s) * unat (ctr_clk_period h) div 1000000000000 < 2 ^ 64"
    by (intro div_less_iff_less_mult [THEN iffD2]) simp_all
  then show ?thesis
    by (simp add: get_ms_def elapsed_def unat_of_nat)
qed

lemma get_ms_diff:
  assumes p: "unat (ctr_clk_period h) < 2 ^ 32" and le: "elapsed h s0 \<le> elapsed h s"
  shows "get_ms h s - get_ms h s0 < ms \<longleftrightarrow> elapsed h s < elapsed h s0 + unat ms"
proof -
  have "get_ms h s0 \<le> get_ms h s"
    using le by (simp add: word_le_nat_alt get_ms_elapsed [OF p])
  then have "unat (get_ms h s - get_ms h s0) = elapsed h s - elapsed h s0"
    by (simp add: unat_sub get_ms_elapsed [OF p])
  then show ?thesis
    using le by (auto simp: word_less_nat_alt)
qed

section \<open>Start-up\<close>

text \<open>A page map in which a device page can be mapped: well-formed tables and three free frames.\<close>

definition device_mappable :: "u64 \<Rightarrow> 'z hw_state_scheme \<Rightarrow> bool" where
  "device_mappable hh s \<longleftrightarrow> (\<exists>pm t vs. kermap s = Some pm \<and> x86_tables hh (arch_page pm + hh) t (mem s) \<and> pmm_phys hh s vs
     \<and> ran t \<inter> set vs = {} \<and> 3 \<le> length vs)"

definition kernel_mmu :: "u64 \<Rightarrow> 'z hw_state_scheme \<Rightarrow> u64 \<Rightarrow> u64 option" where
  "kernel_mmu hh s va = (case kermap s of None \<Rightarrow> None | Some pm \<Rightarrow> x86_mmu hh (arch_page pm + hh) va (mem s))"

definition device_flags :: u16 where
  "device_flags = x86_from_vmmflags (VMM_NOCACHE OR VMM_GLOBAL OR VMM_WRITE)"

lemma hw_more:
  assumes "pmm_state.more (s' :: 'z hw_state_scheme) = pmm_state.more (s :: 'z hw_state_scheme)"
  shows "kermap s' = kermap s" "msrs s' = msrs s" "mmio s' = mmio s" "cali_timer s' = cali_timer s" "cpu_lapic s' = cpu_lapic s"
  using assms by (cases s; cases s'; simp)+

lemma map_device_page_ok:
  assumes m: "device_mappable hh s" and w: "unat virt + 4096 < 2 ^ 64"
  shows "\<exists>s'. map_device_page hh virt phys s = Inr s' \<and> pmm_state.more s' = pmm_state.more s
    \<and> (\<forall>vb. kernel_mmu hh s' vb = (if vpn 4 vb = vpn 4 virt then Some (x86_pte phys device_flags) else kernel_mmu hh s vb))"
proof -
  from m obtain pm t vs where pm: "kermap s = Some pm" "x86_tables hh (arch_page pm + hh) t (mem s)" "pmm_phys hh s vs"
    "ran t \<inter> set vs = {}" "3 \<le> length vs"
    by (auto simp: device_mappable_def)
  have "contains device_flags PT_PRESENT"
    by (simp add: device_flags_def x86_from_vmmflags_def contains_def VMM_NOCACHE_def VMM_GLOBAL_def VMM_WRITE_def
        VMM_EXECUTABLE_def VMM_USER_def PT_defs)
  then have bit0: "bit device_flags 0"
    by (simp add: PT_PRESENT_def contains_16)
  have "card (missing 4 t virt) \<le> length vs"
    using card_missing [OF pm(2), of virt] pm(5) by simp
  from x86.map_ok [OF pm(2-4) this, of "x86_pte phys device_flags"] obtain s' where
    s': "x86_map4kib hh (arch_page pm) virt phys device_flags s = Inr (Inr (), s')"
      "\<forall>vb. x86_mmu hh (arch_page pm + hh) vb (mem s') = (if vpn 4 vb = vpn 4 virt
        then (if x86_present (x86_pte phys device_flags) then Some (x86_pte phys device_flags) else None)
        else x86_mmu hh (arch_page pm + hh) vb (mem s))"
    unfolding x86_mmu_def x86_map4kib_entry by auto
  have r: "range_step virt (virt + 4096) 4096 = [virt]"
    using w by (simp add: range_step_def unat_add_no_wrap)
  have one: "x86_map4kib_unwrap hh (arch_page pm) virt phys device_flags s = Inr s'"
    using s'(1) by (simp add: x86_map4kib_unwrap_def)
  then have "map_device_page hh virt phys s = Inr s'"
    using pm(1) by (simp add: map_device_page_def early_init_pagemap_def x86_arch_map_region_def Let_def r device_flags_def)
  moreover from one have more: "pmm_state.more s' = pmm_state.more s"
    by (rule x86_op_keeps)
  ultimately show ?thesis
    using s'(2) bit0 pm(1) hw_more(1) [OF more] by (intro exI [of _ s']) (simp add: kernel_mmu_def)
qed

lemma and_bit_gt: "(x AND 1024 > 0) = bit (x :: u64) 10" "(x AND 2048 > 0) = bit (x :: u64) 11"
  "(x AND 4096 > 0) = bit (x :: u64) 12"
  using bit_iff_and_push_bit_not_eq_0 [of x 10] bit_iff_and_push_bit_not_eq_0 [of x 11]
    bit_iff_and_push_bit_not_eq_0 [of x 12] by (simp_all add: word_gt_0)

lemma configure_lapic_type_ok:
  assumes "configure_lapic_type cpuid s = (r, s')"
  shows "r = Inr (if fst (snd (snd (cpuid 1 0))) AND IA32_CPUID_FEATURE_X2APIC > 0 then X2apic else Xapic)"
    "s' = s\<lparr>msrs := (msrs s)(0x1B := msrs s' 0x1B)\<rparr>" "bit (msrs s' 0x1B) 11" "r = Inr X2apic \<Longrightarrow> bit (msrs s' 0x1B) 10"
  using assms unfolding configure_lapic_type_def Let_def IA32_APIC_BASE_MSR_def IA32_APIC_BASE_ENABLE_def
    IA32_APIC_BASE_ENABLE_X2APIC_def
  by (auto simp: and_bit_gt bit_or_iff split: prod.splits if_splits)

lemma kernel_mmu_frame [simp]:
  "kernel_mmu hh (lapic_write r v l s) = kernel_mmu hh s" "kernel_mmu hh (s\<lparr>msrs := f\<rparr>) = kernel_mmu hh s"
  "kernel_mmu hh (s\<lparr>cpu_lapic := c\<rparr>) = kernel_mmu hh s"
  by (auto simp: kernel_mmu_def lapic_write_def fun_eq_iff split: lapic_type.splits option.splits)

lemma lapic_writes_simps [simp]:
  "lapic_writes [] l s = s" "lapic_writes ((r, v) # ws) l s = lapic_writes ws l (lapic_write r v l s)"
  by (simp_all add: lapic_writes_def)

text \<open>What \<^verbatim>\<open>lapic::new\<close> leaves behind.\<close>

definition lapic_set_up :: "lapic \<Rightarrow> 'z hw_state_scheme \<Rightarrow> bool" where
  "lapic_set_up l s \<longleftrightarrow> (\<forall>r \<in> {IA32_LAPIC_LVT_THERMAL, IA32_LAPIC_LVT_PERF, IA32_LAPIC_LVT_LINT0, IA32_LAPIC_LVT_LINT1,
       IA32_LAPIC_LVT_ERROR}. lapic_read r l s = IA32_LAPIC_MASK_MASKED)
     \<and> lapic_read IA32_LAPIC_SPURIOUS l s = 0x1FF \<and> lapic_read IA32_LAPIC_TPR l s = 0
     \<and> bit (msrs s 0x1B) 11 \<and> (lapic_ty l = X2apic \<longrightarrow> bit (msrs s 0x1B) 10)"

lemma lapic_new_ok:
  assumes m: "device_mappable hh s" and a: "addr = to_hhdm hh (msrs s 0x1B AND 0xFFFFFF000)" and w: "unat addr + 4096 < 2 ^ 64"
  shows "\<exists>l s1. lapic_new hh cpuid s = Inr (l, s1) \<and> lapic_addr l = addr
    \<and> lapic_ty l = (if fst (snd (snd (cpuid 1 0))) AND IA32_CPUID_FEATURE_X2APIC > 0 then X2apic else Xapic)
    \<and> lapic_set_up l s1 \<and> kernel_mmu hh s1 addr = Some (x86_pte (msrs s 0x1B AND 0xFFFFFF000) device_flags)"
proof -
  let ?p = "msrs s 0x1B AND 0xFFFFFF000"
  from map_device_page_ok [OF m w, of ?p] obtain s1 where s1: "map_device_page hh addr ?p s = Inr s1"
    "pmm_state.more s1 = pmm_state.more s" "kernel_mmu hh s1 addr = Some (x86_pte ?p device_flags)"
    by auto
  obtain r s2 where c: "configure_lapic_type cpuid s1 = (r, s2)"
    by fastforce
  note t = configure_lapic_type_ok [OF c]
  define ty where "ty = (if fst (snd (snd (cpuid 1 0))) AND IA32_CPUID_FEATURE_X2APIC > 0 then X2apic else Xapic)"
  define l where "l = \<lparr>lapic_addr = addr, lapic_id = (let data = \<lparr>lapic_addr = addr, lapic_id = 0, ticks_per_ms = 0,
        lapic_bsp = msrs s 0x1B AND IA32_APIC_BASE_BSP > 0, lapic_ty = ty\<rparr> in (case ty of
        Xapic \<Rightarrow> drop_bit 24 (lapic_read IA32_LAPIC_ID data s2) AND 0xff
      | X2apic \<Rightarrow> lapic_read IA32_LAPIC_ID data s2)),
      ticks_per_ms = 0, lapic_bsp = msrs s 0x1B AND IA32_APIC_BASE_BSP > 0, lapic_ty = ty\<rparr>"
  define s5 where "s5 = lapic_writes [(IA32_LAPIC_LVT_TIMER, IA32_LAPIC_MASK_MASKED), (IA32_LAPIC_LVT_THERMAL, IA32_LAPIC_MASK_MASKED),
                   (IA32_LAPIC_LVT_PERF, IA32_LAPIC_MASK_MASKED), (IA32_LAPIC_LVT_LINT0, IA32_LAPIC_MASK_MASKED),
                   (IA32_LAPIC_LVT_LINT1, IA32_LAPIC_MASK_MASKED), (IA32_LAPIC_LVT_ERROR, IA32_LAPIC_MASK_MASKED),
                   (IA32_LAPIC_SPURIOUS, 0xFF OR push_bit 8 1)] l (if ty = Xapic
                      then lapic_writes [(IA32_LAPIC_DFR, 0xF0000000), (IA32_LAPIC_LDR, 0x01000000)] l (lapic_write IA32_LAPIC_TPR 0 l s2)
                      else lapic_write IA32_LAPIC_TPR 0 l s2)"
  have "lapic_new hh cpuid s = Inr (l, s5)"
    using s1(1) c a t(1)
    by (cases ty) (simp_all add: lapic_new_def Let_def IA32_APIC_BASE_MSR_def ty_def [symmetric] l_def s5_def)
  moreover have "msrs s5 0x1B = msrs s2 0x1B"
    by (simp add: s5_def lapic_write_msr lapic_regs)
  then have "lapic_set_up l s5"
    using t(1,3,4) by (simp add: lapic_set_up_def s5_def reg_simps) (simp add: l_def ty_def)
  moreover have "kernel_mmu hh s5 addr = kernel_mmu hh s1 addr"
    by (simp add: s5_def) (subst t(2), simp)
  ultimately show ?thesis
    using s1(3) by (intro exI [of _ l] exI [of _ s5]) (simp add: l_def ty_def)
qed

text \<open>
  What the calibration expects of the timer it is given: \<^verbatim>\<open>poll_for_ms\<close> returns, and the
  only register of the controller that changes meanwhile is the current count, which
  counts down from the initial count: \<open>n\<close> steps in the ten milliseconds.
\<close>

definition calibrates :: "u64 \<Rightarrow> u32 \<Rightarrow> (usize \<Rightarrow> 'z hw_state_scheme \<Rightarrow> panic + 'z hw_state_scheme) \<Rightarrow> bool" where
  "calibrates addr n poll \<longleftrightarrow> (\<forall>s. \<exists>s'. poll 10 s = Inr s' \<and> mem s' = mem s \<and> kermap s' = kermap s \<and> msrs s' 0x1B = msrs s 0x1B
     \<and> (\<forall>l r. lapic_addr l = addr \<and> r < 0x400 \<and> drop_bit 4 r \<noteq> 0x39 \<longrightarrow> lapic_read r l s' = lapic_read r l s)
     \<and> (\<forall>l. lapic_addr l = addr \<longrightarrow>
          lapic_read IA32_LAPIC_TIMER_CUR_COUNT l s' = lapic_read IA32_LAPIC_TIMER_INIT_COUNT l s - n))"

lemma lapic_set_up_cong:
  "lapic_set_up l s \<Longrightarrow> msrs s' 0x1B = msrs s 0x1B \<Longrightarrow>
     (\<And>r. r < 0x400 \<Longrightarrow> drop_bit 4 r \<notin> {0x39, 0x32, 0x3E, 0x38} \<Longrightarrow> lapic_read r l s' = lapic_read r l s) \<Longrightarrow> lapic_set_up l s'"
  unfolding lapic_set_up_def by (simp add: lapic_regs)

lemma lapic_set_up_same [simp]: "lapic_set_up (l\<lparr>ticks_per_ms := t\<rparr>) s = lapic_set_up l s"
  by (simp add: lapic_set_up_def)

lemma calibrate_timer_ok:
  assumes poll: "calibrates (lapic_addr l) n poll" and up: "lapic_set_up l s"
  shows "\<exists>t s'. calibrate_timer poll l s = Inr (l\<lparr>ticks_per_ms := t\<rparr>, s') \<and> unat t = unat n div 10 \<and> lapic_set_up l s'
    \<and> lapic_read IA32_LAPIC_LVT_TIMER l s' = 0x10021 \<and> kernel_mmu hh s' = kernel_mmu hh s"
proof -
  define s1 where "s1 = lapic_writes [(IA32_LAPIC_LVT_TIMER, 0x21 OR push_bit 16 1), (IA32_LAPIC_TIMER_DIV, 0xb),
            (IA32_LAPIC_TIMER_INIT_COUNT, 0xFFFFFFFF)] l s"
  from poll obtain s2 where s2: "poll 10 s1 = Inr s2" "mem s2 = mem s1" "kermap s2 = kermap s1" "msrs s2 0x1B = msrs s1 0x1B"
    "\<And>r. r < 0x400 \<Longrightarrow> drop_bit 4 r \<noteq> 0x39 \<Longrightarrow> lapic_read r l s2 = lapic_read r l s1"
    "lapic_read IA32_LAPIC_TIMER_CUR_COUNT l s2 = lapic_read IA32_LAPIC_TIMER_INIT_COUNT l s1 - n"
    unfolding calibrates_def by metis
  let ?t = "ucast ((0xFFFFFFFF - lapic_read IA32_LAPIC_TIMER_CUR_COUNT l s2) div 10) :: usize"
  let ?s' = "lapic_write IA32_LAPIC_TIMER_INIT_COUNT 0 l s2"
  have "calibrate_timer poll l s = Inr (l\<lparr>ticks_per_ms := ?t\<rparr>, ?s')"
    using s2(1) by (simp add: calibrate_timer_def Let_def s1_def)
  moreover have "lapic_read IA32_LAPIC_TIMER_CUR_COUNT l s2 = 0xFFFFFFFF - n"
    unfolding s2(6) by (simp add: s1_def reg_simps)
  then have "unat ?t = unat n div 10"
    by (simp add: unsigned_ucast_eq unat_div take_bit_nat_eq_self)
  moreover have "lapic_set_up l ?s'"
    by (rule lapic_set_up_cong [OF up]) (auto simp: reg_simps s2(4,5) s1_def lapic_write_msr)
  moreover have "lapic_read IA32_LAPIC_LVT_TIMER l ?s' = 0x10021"
    using s2(5) [of IA32_LAPIC_LVT_TIMER] by (simp add: s1_def reg_simps)
  moreover have "kernel_mmu hh ?s' = kernel_mmu hh s"
  proof -
    have "kernel_mmu hh s2 = kernel_mmu hh s1"
      by (rule ext) (simp add: kernel_mmu_def s2(2,3) split: option.split)
    then show ?thesis
      by (simp add: s1_def)
  qed
  ultimately show ?thesis
    by (intro exI [of _ ?t] exI [of _ ?s']) simp
qed

lemma and_or_not: "(x OR m) AND NOT m = (x AND NOT m :: 'a :: len word)"
  by (rule bit_eqI) (auto simp: bit_simps)

lemma set_timer_regs:
  "lapic_read IA32_LAPIC_TIMER_INIT_COUNT l (set_timer ms l s) = ucast (ticks_per_ms l * ms)"
  "lapic_read IA32_LAPIC_LVT_TIMER l (set_timer ms l s) = lapic_read IA32_LAPIC_LVT_TIMER l s AND NOT IA32_LAPIC_MASK_MASKED"
  by (simp_all add: set_timer_def enable_timer_def disable_timer_def Let_def reg_simps and_or_not)

lemma set_timer_count: "unat (ucast (t * ms :: usize) :: u32) = unat t * unat ms mod 2 ^ 32"
  by (simp add: unsigned_ucast_eq take_bit_eq_mod unat_word_ariths mod_mod_cancel)

section \<open>Inter-processor interrupts\<close>

text \<open>
  The destination and the vector of an interrupt sent to one processor, as the controller
  decodes them, and the shorthand of a broadcast.
\<close>

lemma send_ipi_x2apic:
  assumes "lapic_ty l = X2apic"
  shows "\<exists>s'. send_ipi fuel tick apic_id vector l s = Inr s' \<and> ucast (drop_bit 32 (msrs s' 0x830)) = apic_id
    \<and> ucast (msrs s' 0x830) = vector \<and> (ucast (drop_bit 8 (msrs s' 0x830)) :: 24 word) = 0"
  using assms
  by (auto simp: send_ipi_def send_icr_def lapic_write_64_def IA32_X2APIC_BASE_MSR_def LAPIC_X2APIC_ICR_def
      IA32_LAPIC_SHORTHAND_NONE_def bit_eq_iff bit_simps dest: bit_imp_le_length)

lemma send_ipi_xapic:
  assumes "lapic_ty l = Xapic" "0 < fuel"
  shows "\<exists>s'. send_ipi fuel tick apic_id vector l s = Inr s'
    \<and> (ucast (drop_bit 24 (lapic_read LAPIC_ICR_HIGH l s')) :: u8) = ucast apic_id
    \<and> lapic_read LAPIC_ICR_LOW l s' = ucast vector"
proof -
  obtain f where f: "fuel = Suc f"
    using assms(2) by (cases fuel) auto
  let ?icr = "ucast vector OR push_bit 56 (ucast apic_id) :: u64"
  let ?s = "lapic_write LAPIC_ICR_LOW (ucast (?icr AND 0xFFFFFFFF)) l (lapic_write LAPIC_ICR_HIGH (ucast (drop_bit 32 ?icr)) l s)"
  have m: "(0xFFFFFFFF :: u64) = mask 32"
    by (simp add: mask_eq_exp_minus_1)
  have low: "ucast (?icr AND 0xFFFFFFFF) = (ucast vector :: u32)"
    by (simp only: m take_bit_eq_mask [symmetric]) (rule bit_eqI, simp add: bit_simps)
  have "\<not> bit (ucast (ucast vector :: u32) :: u64) 12"
    by (auto simp: bit_simps dest: bit_imp_le_length)
  then have "\<not> (ucast (ucast vector :: u32) :: u64) AND push_bit 12 1 > 0"
    by (simp add: and_bit_gt)
  then have "send_ipi fuel tick apic_id vector l s = Inr ?s"
    using assms(1) by (simp add: send_ipi_def send_icr_def IA32_LAPIC_SHORTHAND_NONE_def f reg_simps low)
  moreover have "(ucast (drop_bit 24 (ucast (drop_bit 32 ?icr) :: u32)) :: u8) = ucast apic_id"
    by (rule bit_eqI) (auto simp: bit_simps dest: bit_imp_le_length)
  ultimately show ?thesis
    by (intro exI [of _ ?s]) (simp add: reg_simps low)
qed

section \<open>Properties\<close>

text \<open>
  C33: polling the event timer waits for the time asked for and not longer: with a counter
  that does not wrap meanwhile and reaches the time within the bound, \<^verbatim>\<open>poll_for_ms\<close>
  returns at the first reading that is at least \<open>ms\<close> milliseconds after the initial one.
\<close>

theorem hpet_poll_waits:
  assumes p: "unat (ctr_clk_period h) < 2 ^ 32"
    and up: "\<forall>n\<le>N. elapsed h s \<le> elapsed h ((tick ^^ n) s)"
    and reach: "0 < N" "N \<le> fuel" "elapsed h s + unat ms \<le> elapsed h ((tick ^^ N) s)"
  shows "\<exists>k. 0 < k \<and> k \<le> N \<and> poll_for_ms fuel tick h ms s = Inr ((tick ^^ k) s)
    \<and> elapsed h s + unat ms \<le> elapsed h ((tick ^^ k) s)
    \<and> (\<forall>j. 0 < j \<and> j < k \<longrightarrow> elapsed h ((tick ^^ j) s) < elapsed h s + unat ms)"
proof -
  define P where "P k \<longleftrightarrow> elapsed h s + unat ms \<le> elapsed h ((tick ^^ Suc k) s)" for k
  have N: "P (N - 1)"
    using reach by (simp add: P_def)
  define k where "k = (LEAST k. P k)"
  have k: "P k" "k \<le> N - 1" "\<And>j. j < k \<Longrightarrow> \<not> P j"
    unfolding k_def using N by (auto intro: LeastI Least_le dest: not_less_Least)
  have c: "get_ms h ((tick ^^ j) (tick s)) - get_ms h s < ms \<longleftrightarrow> \<not> P j" if "j \<le> k" for j
  proof -
    have "elapsed h s \<le> elapsed h ((tick ^^ Suc j) s)"
      using up [rule_format, of "Suc j"] that k(2) reach(1) by simp
    from get_ms_diff [OF p this, of ms] show ?thesis
      by (simp add: P_def funpow_swap1 not_le)
  qed
  have "poll_loop fuel tick h (get_ms h s) ms (tick s) = Inr ((tick ^^ k) (tick s))"
    using c k reach by (intro poll_loop_exits) auto
  then have "poll_for_ms fuel tick h ms s = Inr ((tick ^^ Suc k) s)"
    by (simp add: poll_for_ms_def funpow_swap1)
  moreover have "elapsed h ((tick ^^ j) s) < elapsed h s + unat ms" if "0 < j" "j < Suc k" for j
    using k(3) [of "j - 1"] that by (cases j) (auto simp: P_def)
  ultimately show ?thesis
    using k reach(1) by (intro exI [of _ "Suc k"]) (auto simp: P_def)
qed

text \<open>A processor whose page map has room for a device, and an event timer of 1000 ticks per millisecond.\<close>

definition example_hw :: hw_state where
  "example_hw = \<lparr>mem = mem example_pt, FREELIST = FREELIST example_pt, slab_caches = [], vm_regions = Map.empty,
     kermap = Some \<lparr>arch_page = 0x1000, khead = None, uhead = None\<rparr>, max_hhdm_phy = None,
     msrs = (\<lambda>_. 0)(0x1B := 0xFEE00900), mmio = \<lambda>_. 0, cali_timer = None, cpu_lapic = None\<rparr>"

definition example_hpet :: hpet where
  "example_hpet = \<lparr>hpet_virt_addr = 0x100, morebitcounter = False, ctr_clk_period = 1000000000\<rparr>"

definition example_tick :: "hw_state \<Rightarrow> hw_state" where
  "example_tick s = s\<lparr>mmio := (mmio s)(0x1F0 := mmio s 0x1F0 + 600)\<rparr>"

theorem hpet_poll_waits_witness:
  "\<exists>k. poll_for_ms 5 example_tick example_hpet 2 example_hw = Inr ((example_tick ^^ k) example_hw)
     \<and> 2 \<le> elapsed example_hpet ((example_tick ^^ k) example_hw)"
proof -
  have c: "mmio ((example_tick ^^ n) example_hw) 0x1F0 = of_nat (600 * n)" for n
    by (induction n) (simp_all add: example_tick_def example_hw_def)
  have e: "elapsed example_hpet ((example_tick ^^ n) example_hw) = unat (of_nat (600 * n) :: u32) div 1000" for n
    by (simp add: elapsed_def read_main_counter_def read_reg_u32_def example_hpet_def c)
  have z: "elapsed example_hpet example_hw = 0"
    using e [of 0] by simp
  have "elapsed example_hpet example_hw + unat (2 :: usize) \<le> elapsed example_hpet ((example_tick ^^ 4) example_hw)"
    unfolding e z by simp
  from hpet_poll_waits [of example_hpet 4 example_hw example_tick 5 2, OF _ _ _ _ this] show ?thesis
    by (auto simp: z example_hpet_def [THEN arg_cong [where f = ctr_clk_period]])
qed

text \<open>
  C32: \<^verbatim>\<open>lapic_init\<close> maps the registers of the controller uncached, chooses x2APIC mode when
  the processor has it, masks every source but leaves the controller enabled, and
  calibrates: when the controller counts \<open>n\<close> steps in ten milliseconds, the rate kept is
  \<open>n div 10\<close>. \<^verbatim>\<open>set_timer_ms\<close> then arms vector \<^verbatim>\<open>0x21\<close> with that rate times the
  milliseconds, exact up to 10 ms and modulo \<open>2 ^ 32\<close> beyond.
\<close>

theorem lapic_timer_programmed:
  assumes m: "device_mappable hh s" and a: "addr = to_hhdm hh (msrs s 0x1B AND 0xFFFFFF000)" "unat addr + 4096 < 2 ^ 64"
    and poll: "calibrates addr n poll"
  shows "\<exists>l s1. lapic_init hh cpuid poll s = Inr s1 \<and> cpu_lapic s1 = Some l \<and> lapic_set_up l s1
    \<and> lapic_ty l = (if fst (snd (snd (cpuid 1 0))) AND IA32_CPUID_FEATURE_X2APIC > 0 then X2apic else Xapic)
    \<and> kernel_mmu hh s1 addr = Some (x86_pte (msrs s 0x1B AND 0xFFFFFF000) device_flags)
    \<and> lapic_read IA32_LAPIC_LVT_TIMER l s1 = 0x10021 \<and> unat (ticks_per_ms l) = unat n div 10
    \<and> (\<forall>ms. \<exists>s2. lapic_set_timer_ms ms s1 = Inr s2 \<and> lapic_read IA32_LAPIC_LVT_TIMER l s2 = 0x21
         \<and> unat (lapic_read IA32_LAPIC_TIMER_INIT_COUNT l s2) = unat n div 10 * unat ms mod 2 ^ 32
         \<and> (ms \<le> 10 \<longrightarrow> unat (lapic_read IA32_LAPIC_TIMER_INIT_COUNT l s2) = unat n div 10 * unat ms))"
proof -
  from lapic_new_ok [OF m a, of cpuid] obtain l0 s0 where l0: "lapic_new hh cpuid s = Inr (l0, s0)" "lapic_addr l0 = addr"
    "lapic_ty l0 = (if fst (snd (snd (cpuid 1 0))) AND IA32_CPUID_FEATURE_X2APIC > 0 then X2apic else Xapic)"
    "lapic_set_up l0 s0" "kernel_mmu hh s0 addr = Some (x86_pte (msrs s 0x1B AND 0xFFFFFF000) device_flags)"
    by blast
  from calibrate_timer_ok [OF poll [folded l0(2)] l0(4), of hh] obtain t s' where
    c: "calibrate_timer poll l0 s0 = Inr (l0\<lparr>ticks_per_ms := t\<rparr>, s')" "unat t = unat n div 10" "lapic_set_up l0 s'"
      "lapic_read IA32_LAPIC_LVT_TIMER l0 s' = 0x10021" "kernel_mmu hh s' = kernel_mmu hh s0"
    by blast
  let ?l = "l0\<lparr>ticks_per_ms := t\<rparr>" and ?s1 = "s'\<lparr>cpu_lapic := Some (l0\<lparr>ticks_per_ms := t\<rparr>)\<rparr>"
  have i: "lapic_init hh cpuid poll s = Inr ?s1"
    by (simp add: lapic_init_def l0(1) c(1))
  have "lapic_set_up ?l ?s1"
    using c(3) by (simp add: lapic_set_up_def)
  moreover have "\<exists>s2. lapic_set_timer_ms ms ?s1 = Inr s2 \<and> lapic_read IA32_LAPIC_LVT_TIMER ?l s2 = 0x21
         \<and> unat (lapic_read IA32_LAPIC_TIMER_INIT_COUNT ?l s2) = unat t * unat ms mod 2 ^ 32
         \<and> (ms \<le> 10 \<longrightarrow> unat (lapic_read IA32_LAPIC_TIMER_INIT_COUNT ?l s2) = unat t * unat ms)" for ms
  proof -
    have "unat t * unat ms < 2 ^ 32" if "ms \<le> 10"
    proof -
      have "unat t * unat ms \<le> (0xFFFFFFFF div 10) * 10"
        using unsigned_less [where ?'a = nat and w = n] c(2) that
        by (intro mult_le_mono) (simp_all add: word_le_nat_alt div_le_mono [of _ "0xFFFFFFFF" 10, simplified] del: unsigned_less)
      then show ?thesis by simp
    qed
    moreover have "lapic_set_timer_ms ms ?s1 = Inr (set_timer ms ?l ?s1)"
      by (simp add: lapic_set_timer_ms_def)
    ultimately show ?thesis
      using c(4) set_timer_regs [of ?l ms ?s1] set_timer_count [of t ms]
      by (simp add: IA32_LAPIC_MASK_MASKED_def)
  qed
  ultimately show ?thesis
    using i l0(3,5) c(2,4,5) by (intro exI [of _ ?l] exI [of _ ?s1]) simp
qed

lemma example_hw_mappable: "device_mappable 0x100000 example_hw"
proof -
  have "x86_tables 0x100000 0x101000 [[] \<mapsto> 0x101000] (mem example_hw)"
    using example_pt_tables by (simp add: example_hw_def)
  moreover have "pmm_phys 0x100000 example_hw [0x102000, 0x103000, 0x104000]"
    using example_pt_free by (simp add: example_hw_def pmm_phys_def pmm_free_def)
  moreover have "ran [[] \<mapsto> (0x101000 :: u64)] = {0x101000}"
    by (auto simp: ran_def)
  ultimately show ?thesis
    unfolding device_mappable_def
    by (intro exI [of _ "\<lparr>arch_page = 0x1000, khead = None, uhead = None\<rparr>"] exI [of _ "[[] \<mapsto> 0x101000]"]
        exI [of _ "[0x102000, 0x103000, 0x104000]"]) (simp add: example_hw_def)
qed

text \<open>A timer during whose 10 milliseconds the controller counts down by 10000.\<close>

definition example_poll :: "usize \<Rightarrow> hw_state \<Rightarrow> panic + hw_state" where
  "example_poll ms s = Inr (s\<lparr>mmio := (mmio s)(0xFEF00390 := mmio s 0xFEF00380 - 10000), msrs := (msrs s)(0x839 := ucast (ucast (msrs s 0x838) - 10000 :: u32))\<rparr>)"

lemma example_poll_calibrates: "calibrates 0xFEF00000 10000 example_poll"
proof -
  have "lapic_read r l (s\<lparr>mmio := (mmio s)(0xFEF00390 := x), msrs := (msrs s)(0x839 := y)\<rparr>) = lapic_read r l s"
    if "lapic_addr l = 0xFEF00000" "r < 0x400" "drop_bit 4 r \<noteq> 0x39" for r l x y and s :: hw_state
  proof -
    have "(0xFEF00000 :: u64) + ucast r \<noteq> 0xFEF00000 + ucast (0x390 :: u32)"
      using that(3) by (auto simp only: add_left_cancel ucast_u32_u64_eq) simp
    moreover have "0x800 + drop_bit 4 r \<noteq> (0x800 + 0x39 :: u32)"
      using that(3) by (simp only: add_left_cancel) simp
    ultimately show ?thesis
      using that(1) by (cases "lapic_ty l") (simp_all add: lapic_read_def IA32_X2APIC_BASE_MSR_def)
  qed
  moreover have "lapic_read IA32_LAPIC_TIMER_CUR_COUNT l (s\<lparr>mmio := (mmio s)(0xFEF00390 := mmio s 0xFEF00380 - 10000),
      msrs := (msrs s)(0x839 := ucast (ucast (msrs s 0x838) - 10000 :: u32))\<rparr>) = lapic_read IA32_LAPIC_TIMER_INIT_COUNT l s - 10000"
    if "lapic_addr l = 0xFEF00000" for l and s :: hw_state
    using that by (cases "lapic_ty l")
      (simp_all add: lapic_read_def IA32_X2APIC_BASE_MSR_def lapic_regs)
  ultimately show ?thesis
    by (auto simp: calibrates_def example_poll_def)
qed

theorem lapic_timer_programmed_witness:
  "\<exists>l s1 s2. lapic_init 0x100000 (\<lambda>_ _. (0, 0, 0, 0)) example_poll example_hw = Inr s1 \<and> cpu_lapic s1 = Some l
     \<and> lapic_ty l = Xapic \<and> lapic_set_timer_ms 5 s1 = Inr s2 \<and> lapic_read IA32_LAPIC_LVT_TIMER l s2 = 0x21
     \<and> unat (lapic_read IA32_LAPIC_TIMER_INIT_COUNT l s2) = 5000"
proof -
  have "0xFEF00000 = to_hhdm 0x100000 (msrs example_hw 0x1B AND 0xFFFFFF000)" "unat (0xFEF00000 :: u64) + 4096 < 2 ^ 64"
    by (simp_all add: example_hw_def to_hhdm_def)
  from lapic_timer_programmed [OF example_hw_mappable this example_poll_calibrates, of "\<lambda>_ _. (0, 0, 0, 0)"]
  obtain l s1 where r: "lapic_init 0x100000 (\<lambda>_ _. (0, 0, 0, 0)) example_poll example_hw = Inr s1" "cpu_lapic s1 = Some l"
    "lapic_ty l = Xapic"
    "\<forall>ms. \<exists>s2. lapic_set_timer_ms ms s1 = Inr s2 \<and> lapic_read IA32_LAPIC_LVT_TIMER l s2 = 0x21
         \<and> unat (lapic_read IA32_LAPIC_TIMER_INIT_COUNT l s2) = unat (10000 :: u32) div 10 * unat ms mod 2 ^ 32
         \<and> (ms \<le> 10 \<longrightarrow> unat (lapic_read IA32_LAPIC_TIMER_INIT_COUNT l s2) = unat (10000 :: u32) div 10 * unat ms)"
    by (auto simp del: One_nat_def)
  from r(4) [rule_format, of 5] r(1-3) show ?thesis
    by auto
qed

end
