(* ===== verification/Vfs.thy ===== *)
theory Vfs
  imports Errno
begin

text \<open>
  The virtual file system (\<^verbatim>\<open>vfs/mod.rs\<close>), its memory file system (\<^verbatim>\<open>vfs/ramfs.rs\<close>) and
  the loader of the initial archive (\<^verbatim>\<open>vfs/ustar.rs\<close>). Reference-counted vnodes are
  cells of a store named by numbers, the trait object of a vnode is a datatype of the
  file systems the kernel has, and a \<^verbatim>\<open>&str\<close> is its bytes. Every operation
  takes the lock of a vnode for itself only, so the locks are left out here.
\<close>

section \<open>Data\<close>

type_synonym str = "u8 list"
type_synonym vv = nat
type_synonym vf = nat
type_synonym isize = "64 word"

datatype v_type = VREG | VDIR

record dentry =
  dn_name :: str
  dn_inner :: "vv option"

datatype vops = Ramfsfile "u8 list" | Ramfsdir "dentry list" | Nullfs

record vnode =
  vn_type :: v_type
  v_prev_data :: "vops option"
  v_data :: vops
  v_vfs :: "vf option"

record vfs =
  v_root :: vv
  v_next :: "vf option"

record vfs_state =
  vnodes :: "vv \<Rightarrow> vnode option"
  vn_fresh :: vv
  vfss :: "vf \<Rightarrow> vfs option"
  vf_fresh :: vf
  ROOTFS :: "vf option"

definition vnode_at :: "vv \<Rightarrow> 'z vfs_state_scheme \<Rightarrow> panic + vnode" where
  "vnode_at v s = (case vnodes s v of None \<Rightarrow> Inl BadPointer | Some n \<Rightarrow> Inr n)"

definition vnode_set :: "vv \<Rightarrow> vnode \<Rightarrow> 'z vfs_state_scheme \<Rightarrow> 'z vfs_state_scheme" where
  "vnode_set v n s = s\<lparr>vnodes := (vnodes s)(v \<mapsto> n)\<rparr>"

text \<open>\<^verbatim>\<open>Arc::new(RWSpinLock::new(..))\<close> of a vnode, and \<^verbatim>\<open>upgrade\<close> of a weak reference.\<close>

definition vnode_alloc :: "vnode \<Rightarrow> 'z vfs_state_scheme \<Rightarrow> vv \<times> 'z vfs_state_scheme" where
  "vnode_alloc n s = (vn_fresh s, s\<lparr>vnodes := (vnodes s)(vn_fresh s \<mapsto> n), vn_fresh := vn_fresh s + 1\<rparr>)"

definition vfs_upgrade :: "vf \<Rightarrow> 'z vfs_state_scheme \<Rightarrow> vf option" where
  "vfs_upgrade f s = (if vfss s f = None then None else Some f)"

definition vnode_new :: "vf option \<Rightarrow> v_type \<Rightarrow> vops \<Rightarrow> vnode" where
  "vnode_new vfs ty data = \<lparr>vn_type = ty, v_prev_data = None, v_data = data, v_vfs = vfs\<rparr>"

section \<open>The memory file system\<close>

definition ramfsdir_new :: vops where "ramfsdir_new = Ramfsdir []"
definition ramfsfile_new :: vops where "ramfsfile_new = Ramfsfile []"

definition create_entry :: "str \<Rightarrow> vv \<Rightarrow> dentry list \<Rightarrow> dentry list" where
  "create_entry name vn entries = entries @ [\<lparr>dn_name = name, dn_inner = Some vn\<rparr>]"

definition ramfsdir_lookup :: "str \<Rightarrow> dentry list \<Rightarrow> vv option" where
  "ramfsdir_lookup name entries =
     (case find (\<lambda>a. dn_name a = name) entries of None \<Rightarrow> None | Some f \<Rightarrow> dn_inner f)"

definition ramfsdir_mkdir ::
    "vf option \<Rightarrow> str \<Rightarrow> dentry list \<Rightarrow> 'z vfs_state_scheme \<Rightarrow> vv EResult \<times> dentry list \<times> 'z vfs_state_scheme" where
  "ramfsdir_mkdir vfs name entries s =
     (let (h, s1) = vnode_alloc (vnode_new (Option.bind vfs (\<lambda>f. vfs_upgrade f s)) VDIR ramfsdir_new) s
      in (Inr h, create_entry name h entries, s1))"

definition ramfsdir_create ::
    "vf option \<Rightarrow> str \<Rightarrow> dentry list \<Rightarrow> 'z vfs_state_scheme \<Rightarrow> vv EResult \<times> dentry list \<times> 'z vfs_state_scheme" where
  "ramfsdir_create vfs name entries s =
     (if ramfsdir_lookup name entries \<noteq> None then (Inl EEXIST, entries, s)
      else let (n, s1) = vnode_alloc (vnode_new (Option.bind vfs (\<lambda>f. vfs_upgrade f s)) VREG ramfsfile_new) s
           in (Inr n, create_entry name n entries, s1))"

text \<open>A read returns the buffer of the caller as it is afterwards and the number of bytes.\<close>

definition ramfsfile_read :: "u8 list \<Rightarrow> usize \<Rightarrow> u8 list \<Rightarrow> u8 list \<times> isize" where
  "ramfsfile_read buf offset f =
     (if unat offset \<ge> length f then (buf, 0)
      else let byte_amount = min (length buf) (length f - unat offset)
           in (take byte_amount (drop (unat offset) f) @ drop byte_amount buf, of_nat byte_amount))"

definition ramfsfile_write :: "u8 list \<Rightarrow> usize \<Rightarrow> u8 list \<Rightarrow> panic + (u8 list \<times> isize)" where
  "ramfsfile_write buf offset f =
     (let e = offset + of_nat (length buf);
          f1 = (if unat e > length f then f @ replicate (unat e - length f) 0 else f)
      in if e < offset \<or> unat e > length f1 then Inl OutOfBounds
         else Inr (take (unat offset) f1 @ buf @ drop (unat e) f1, of_nat (length buf)))"

section \<open>Operations of a vnode\<close>

definition vops_read :: "u8 list \<Rightarrow> usize \<Rightarrow> vops \<Rightarrow> panic + (u8 list \<times> isize)" where
  "vops_read buf offset ops =
     (case ops of
        Ramfsfile f \<Rightarrow> Inr (ramfsfile_read buf offset f)
      | Ramfsdir _ \<Rightarrow> Inr (buf, - 1)
      | Nullfs \<Rightarrow> Inl Unreachable)"

definition vops_write :: "u8 list \<Rightarrow> usize \<Rightarrow> vops \<Rightarrow> panic + (vops \<times> isize)" where
  "vops_write buf offset ops =
     (case ops of
        Ramfsfile f \<Rightarrow> and_then (ramfsfile_write buf offset f) (\<lambda>(f', n). Inr (Ramfsfile f', n))
      | Ramfsdir es \<Rightarrow> Inr (Ramfsdir es, - 1)
      | Nullfs \<Rightarrow> Inl Unreachable)"

definition vops_create ::
    "vf option \<Rightarrow> str \<Rightarrow> vops \<Rightarrow> 'z vfs_state_scheme \<Rightarrow> panic + (vv EResult \<times> vops \<times> 'z vfs_state_scheme)" where
  "vops_create vfs name ops s =
     (case ops of
        Ramfsfile _ \<Rightarrow> Inl Todo
      | Ramfsdir es \<Rightarrow> (let (r, es', s1) = ramfsdir_create vfs name es s in Inr (r, Ramfsdir es', s1))
      | Nullfs \<Rightarrow> Inr (Inl EOPNOTSUPP, Nullfs, s))"

definition vops_mkdir ::
    "vf option \<Rightarrow> str \<Rightarrow> vops \<Rightarrow> 'z vfs_state_scheme \<Rightarrow> panic + (vv EResult \<times> vops \<times> 'z vfs_state_scheme)" where
  "vops_mkdir vfs name ops s =
     (case ops of
        Ramfsfile f \<Rightarrow> Inr (Inl ENOTDIR, Ramfsfile f, s)
      | Ramfsdir es \<Rightarrow> (let (r, es', s1) = ramfsdir_mkdir vfs name es s in Inr (r, Ramfsdir es', s1))
      | Nullfs \<Rightarrow> Inl Unreachable)"

definition vops_lookup :: "str \<Rightarrow> vops \<Rightarrow> vv option" where
  "vops_lookup name ops =
     (case ops of Ramfsfile _ \<Rightarrow> None | Ramfsdir es \<Rightarrow> ramfsdir_lookup name es | Nullfs \<Rightarrow> None)"

text \<open>The hooks \<^verbatim>\<open>mount\<close> and \<^verbatim>\<open>unmount\<close> of a file system.\<close>

definition vops_mount :: "vops \<Rightarrow> panic + vops" where
  "vops_mount ops = (case ops of Nullfs \<Rightarrow> Inl Unreachable | _ \<Rightarrow> Inr ops)"

definition vops_unmount :: "vops \<Rightarrow> panic + vops" where
  "vops_unmount ops = (case ops of Nullfs \<Rightarrow> Inl Unreachable | _ \<Rightarrow> Inr ops)"

definition vnode_create :: "vv \<Rightarrow> vf option \<Rightarrow> str \<Rightarrow> 'z vfs_state_scheme \<Rightarrow> panic + (vv EResult \<times> 'z vfs_state_scheme)" where
  "vnode_create v vfs name s =
     and_then (vnode_at v s) (\<lambda>n.
     and_then (vops_create vfs name (v_data n) s) (\<lambda>(r, ops, s1).
       Inr (r, vnode_set v (n\<lparr>v_data := ops\<rparr>) s1)))"

definition vnode_mkdir :: "vv \<Rightarrow> vf option \<Rightarrow> str \<Rightarrow> 'z vfs_state_scheme \<Rightarrow> panic + (vv EResult \<times> 'z vfs_state_scheme)" where
  "vnode_mkdir v vfs name s =
     and_then (vnode_at v s) (\<lambda>n.
     and_then (vops_mkdir vfs name (v_data n) s) (\<lambda>(r, ops, s1).
       Inr (r, vnode_set v (n\<lparr>v_data := ops\<rparr>) s1)))"

definition vnode_write :: "vv \<Rightarrow> u8 list \<Rightarrow> usize \<Rightarrow> 'z vfs_state_scheme \<Rightarrow> panic + (isize \<times> 'z vfs_state_scheme)" where
  "vnode_write v buf offset s =
     and_then (vnode_at v s) (\<lambda>n.
     and_then (vops_write buf offset (v_data n)) (\<lambda>(ops, k).
       Inr (k, vnode_set v (n\<lparr>v_data := ops\<rparr>) s)))"

section \<open>Mounts, paths, start-up\<close>

definition mount :: "vv \<Rightarrow> vops \<Rightarrow> 'z vfs_state_scheme \<Rightarrow> panic + (unit EResult \<times> 'z vfs_state_scheme)" where
  "mount v vnodeops s =
     and_then (vops_mount vnodeops) (\<lambda>ops.
     and_then (vnode_at v s) (\<lambda>g.
       if v_prev_data g \<noteq> None then Inr (Inl EBUSY, s)
       else Inr (Inr (), vnode_set v (g\<lparr>v_prev_data := Some (v_data g), v_data := ops\<rparr>) s)))"

definition unmount :: "vv \<Rightarrow> 'z vfs_state_scheme \<Rightarrow> panic + (unit EResult \<times> 'z vfs_state_scheme)" where
  "unmount v s =
     and_then (vnode_at v s) (\<lambda>g.
     and_then (vops_unmount (v_data g)) (\<lambda>ops.
     and_then (unwrap_opt (v_prev_data g)) (\<lambda>d.
       Inr (Inr (), vnode_set v (g\<lparr>v_prev_data := None, v_data := d\<rparr>) s))))"

text \<open>\<^verbatim>\<open>str::split_terminator\<close>: the pieces between the separators, without an empty last one.\<close>

fun split_sep :: "u8 \<Rightarrow> str \<Rightarrow> str list" where
  "split_sep c [] = [[]]"
| "split_sep c (x # xs) =
     (if x = c then [] # split_sep c xs
      else case split_sep c xs of [] \<Rightarrow> [[x]] | p # ps \<Rightarrow> (x # p) # ps)"

definition split_terminator :: "u8 \<Rightarrow> str \<Rightarrow> str list" where
  "split_terminator c xs = (let ps = split_sep c xs in if last ps = [] then butlast ps else ps)"

definition SLASH :: u8 where "SLASH = 47"

fun lookup_comps :: "vv \<Rightarrow> str list \<Rightarrow> 'z vfs_state_scheme \<Rightarrow> panic + vv option" where
  "lookup_comps a [] s = Inr (Some a)"
| "lookup_comps a (i # is) s =
     (if i = [] then lookup_comps a is s
      else and_then (vnode_at a s) (\<lambda>n.
        case vops_lookup i (v_data n) of
          Some f \<Rightarrow> lookup_comps f is s
        | None \<Rightarrow> Inr None))"

definition lookup :: "vv \<Rightarrow> str \<Rightarrow> 'z vfs_state_scheme \<Rightarrow> panic + vv option" where
  "lookup vnod path s = lookup_comps vnod (split_terminator SLASH path) s"

definition vfs_new :: "vops \<Rightarrow> 'z vfs_state_scheme \<Rightarrow> vf \<times> 'z vfs_state_scheme" where
  "vfs_new ops s =
     (let (v, s1) = vnode_alloc (vnode_new None VDIR ops) s;
          f = vf_fresh s1;
          s2 = s1\<lparr>vfss := (vfss s1)(f \<mapsto> \<lparr>v_root = v, v_next = None\<rparr>), vf_fresh := f + 1\<rparr>
      in (f, vnode_set v (vnode_new (Some f) VDIR ops) s2))"

definition inner_root_vnode :: "vf \<Rightarrow> 'z vfs_state_scheme \<Rightarrow> panic + vv" where
  "inner_root_vnode f s = (case vfss s f of None \<Rightarrow> Inl BadPointer | Some x \<Rightarrow> Inr (v_root x))"

section \<open>The archive\<close>

text \<open>The fields of \<^verbatim>\<open>ustar_inode\<close> the loader uses, at their offsets in the header of 512 bytes.\<close>

record ustar_inode =
  us_name :: "u8 list"
  us_file_size :: "u8 list"
  us_typ :: u8
  us_ustar_ind :: "u8 list"

definition USTAR_INODE_SIZE :: nat where "USTAR_INODE_SIZE = 512"

definition ustar_header :: "u8 list \<Rightarrow> ustar_inode" where
  "ustar_header b = \<lparr>us_name = take 100 b, us_file_size = take 12 (drop 124 b), us_typ = b ! 156,
     us_ustar_ind = take 6 (drop 257 b)\<rparr>"

definition utf8_cont :: "u8 \<Rightarrow> u8 \<Rightarrow> u8 \<Rightarrow> bool" where
  "utf8_cont lo hi c \<longleftrightarrow> lo \<le> c \<and> c \<le> hi"

text \<open>The byte sequences \<^verbatim>\<open>CStr::to_str\<close> accepts.\<close>

fun utf8_valid :: "u8 list \<Rightarrow> bool" where
  "utf8_valid [] = True"
| "utf8_valid (b # bs) =
     (if b < 0x80 then utf8_valid bs
      else if 0xC2 \<le> b \<and> b \<le> 0xDF then
        (case bs of c # r \<Rightarrow> utf8_cont 0x80 0xBF c \<and> utf8_valid r | _ \<Rightarrow> False)
      else if 0xE0 \<le> b \<and> b \<le> 0xEF then
        (case bs of
           c # d # r \<Rightarrow> utf8_cont (if b = 0xE0 then 0xA0 else 0x80) (if b = 0xED then 0x9F else 0xBF) c
             \<and> utf8_cont 0x80 0xBF d \<and> utf8_valid r
         | _ \<Rightarrow> False)
      else if 0xF0 \<le> b \<and> b \<le> 0xF4 then
        (case bs of
           c # d # e # r \<Rightarrow> utf8_cont (if b = 0xF0 then 0x90 else 0x80) (if b = 0xF4 then 0x8F else 0xBF) c
             \<and> utf8_cont 0x80 0xBF d \<and> utf8_cont 0x80 0xBF e \<and> utf8_valid r
         | _ \<Rightarrow> False)
      else False)"

definition quick_str_from_ustar :: "u8 list \<Rightarrow> panic + str" where
  "quick_str_from_ustar x =
     (if 0 \<notin> set x then Inl UnwrapErr
      else let w = takeWhile (\<lambda>b. b \<noteq> 0) x in if utf8_valid w then Inr w else Inl UnwrapErr)"

text \<open>\<^verbatim>\<open>usize::from_str_radix(.., 8)\<close>: at least one digit, an optional plus sign, no overflow.\<close>

definition octal_digit :: "u8 \<Rightarrow> bool" where
  "octal_digit b \<longleftrightarrow> 48 \<le> b \<and> b \<le> 55"

definition from_str_radix_8 :: "str \<Rightarrow> panic + usize" where
  "from_str_radix_8 w =
     (let ds = (case w of b # bs \<Rightarrow> if b = 43 \<and> bs \<noteq> [] then bs else w | [] \<Rightarrow> []);
          n = foldl (\<lambda>acc b. acc * 8 + (unat b - 48)) 0 ds
      in if ds = [] \<or> \<not> list_all octal_digit ds \<or> n \<ge> 2 ^ 64 then Inl UnwrapErr else Inr (of_nat n))"

definition octal_to_num :: "u8 list \<Rightarrow> panic + usize" where
  "octal_to_num x = and_then (quick_str_from_ustar x) from_str_radix_8"

definition ustar_file :: u8 where "ustar_file = 48"
definition ustar_dir :: u8 where "ustar_dir = 53"
definition USTAR :: str where "USTAR = [117, 115, 116, 97, 114]"

text \<open>The body of the loop over the components of the name.\<close>

definition transmute_step ::
    "u8 list \<Rightarrow> ustar_inode \<Rightarrow> usize \<Rightarrow> str \<Rightarrow> str \<Rightarrow> vv \<times> 'z vfs_state_scheme \<Rightarrow> panic + (vv \<times> 'z vfs_state_scheme)" where
  "transmute_step ptr h fz lastcomp i cs =
     (case cs of (cur_node, s) \<Rightarrow>
      if i = [] then Inr (cur_node, s)
      else and_then (vnode_at cur_node s) (\<lambda>meow.
        case vops_lookup i (v_data meow) of
          Some h \<Rightarrow> Inr (h, s)
        | None \<Rightarrow>
            if i = lastcomp then
              (if us_typ h = ustar_file then
                 and_then (vnode_create cur_node (v_vfs meow) i s) (\<lambda>(r, s1).
                 and_then (unwrap_res r) (\<lambda>_.
                   if fz = 0 then Inl (PanicMsg ''?'')
                   else if unat fz > length ptr then Inl OutOfBounds
                   else and_then (vnode_write cur_node (take (unat fz) ptr) 0 s1) (\<lambda>(_, s2). Inr (cur_node, s2))))
               else if us_typ h = ustar_dir then
                 and_then (vnode_mkdir cur_node (v_vfs meow) i s) (\<lambda>(r, s1).
                 and_then (unwrap_res r) (\<lambda>_. Inr (cur_node, s1)))
               else Inr (cur_node, s))
            else
              and_then (vnode_mkdir cur_node (v_vfs meow) i s) (\<lambda>(r, s1).
              and_then (unwrap_res r) (\<lambda>new. Inr (new, s1)))))"

definition transmute_to_ramfs :: "u8 list \<Rightarrow> vv \<Rightarrow> 'z vfs_state_scheme \<Rightarrow> panic + (usize \<times> 'z vfs_state_scheme)" where
  "transmute_to_ramfs ptr fs s =
     (if length ptr < USTAR_INODE_SIZE then Inl OutOfBounds
      else let h = ustar_header ptr in
        and_then (quick_str_from_ustar (us_ustar_ind h)) (\<lambda>us.
        and_then (quick_str_from_ustar (us_name h)) (\<lambda>w.
          if us \<noteq> USTAR \<or> w = [] then Inl (PanicMsg ''invalid tar header'')
          else and_then (octal_to_num (us_file_size h)) (\<lambda>fz.
            let comps = split_terminator SLASH w in
            if comps = [] then Inl UnwrapNone
            else and_then (for_each (transmute_step ptr h fz (last comps)) comps (fs, s)) (\<lambda>(_, s1). Inr (fz, s1))))))"

text \<open>The sum over the two blocks is computed in eight bits.\<close>

primrec load_loop :: "nat \<Rightarrow> u8 list \<Rightarrow> vv \<Rightarrow> 'z vfs_state_scheme \<Rightarrow> panic + 'z vfs_state_scheme" where
  "load_loop 0 ptr root s = Inl OutOfFuel"
| "load_loop (Suc fuel) ptr root s =
     (if ptr = [] then Inr s
      else and_then (transmute_to_ramfs ptr root s) (\<lambda>(fz, s1).
        let inc = align_up fz 512 + of_nat USTAR_INODE_SIZE in
        if unat inc > length ptr then Inl OutOfBounds
        else let ptr1 = drop (unat inc) ptr in
          if length ptr1 < 1024 then Inl OutOfBounds
          else if sum_list (take 1024 ptr1) = 0 then Inr s1
          else load_loop fuel ptr1 root s1))"

text \<open>
  \<open>modules\<close> is the answer of the boot loader: the path and the data of each module;
  \<open>cmd_empty\<close> says whether the command line is empty.
\<close>

definition contains_str :: "str \<Rightarrow> str \<Rightarrow> bool" where
  "contains_str sub w \<longleftrightarrow> list_ex (\<lambda>k. take (length sub) (drop k w) = sub) [0..<Suc (length w)]"

definition load_ramfs_with_ustar_tar ::
    "(str \<times> u8 list) list option \<Rightarrow> bool \<Rightarrow> 'z vfs_state_scheme \<Rightarrow> panic + 'z vfs_state_scheme" where
  "load_ramfs_with_ustar_tar modules cmd_empty s =
     (case modules of
        None \<Rightarrow> Inl (PanicMsg ''Nyaux Requires an initramfs. Please check the README.MD for how the intiramfs should be given to Nyaux.'')
      | Some ms \<Rightarrow>
          if \<not> cmd_empty then Inl Todo
          else case ms of
            [] \<Rightarrow> Inl OutOfBounds
          | (path, d) # _ \<Rightarrow>
              if \<not> contains_str [116, 97, 114] path
              then Inl (PanicMsg ''Nyaux Requires an initramfs. Not a valid tar was provided'')
              else and_then (unwrap_opt (ROOTFS s)) (\<lambda>f.
                   and_then (inner_root_vnode f s) (\<lambda>root. load_loop (Suc (length d)) d root s)))"

definition vfs_init :: "(str \<times> u8 list) list option \<Rightarrow> bool \<Rightarrow> 'z vfs_state_scheme \<Rightarrow> panic + 'z vfs_state_scheme" where
  "vfs_init modules cmd_empty s =
     (let s1 = (case ROOTFS s of
          None \<Rightarrow> (let (f, s0) = vfs_new ramfsdir_new s in s0\<lparr>ROOTFS := Some f\<rparr>)
        | Some _ \<Rightarrow> s)
      in load_ramfs_with_ustar_tar modules cmd_empty s1)"

section \<open>Growth of the tree\<close>

definition node_lookup :: "vv \<Rightarrow> str \<Rightarrow> 'z vfs_state_scheme \<Rightarrow> vv option" where
  "node_lookup v i s = (case vnodes s v of None \<Rightarrow> None | Some n \<Rightarrow> vops_lookup i (v_data n))"

text \<open>Everything that is found before is found after.\<close>

definition vfs_le :: "'z vfs_state_scheme \<Rightarrow> 'z vfs_state_scheme \<Rightarrow> bool" where
  "vfs_le s s' \<longleftrightarrow> (\<forall>v i w. node_lookup v i s = Some w \<longrightarrow> node_lookup v i s' = Some w)"

text \<open>References above the next fresh one are unused, and no directory caches a missing entry.\<close>

definition vfs_inv :: "'z vfs_state_scheme \<Rightarrow> bool" where
  "vfs_inv s \<longleftrightarrow> (\<forall>v \<ge> vn_fresh s. vnodes s v = None)
     \<and> (\<forall>v n es e. vnodes s v = Some n \<longrightarrow> v_data n = Ramfsdir es \<longrightarrow> e \<in> set es \<longrightarrow> dn_inner e \<noteq> None)"

lemma vfs_le_refl [simp]: "vfs_le s s"
  by (simp add: vfs_le_def)

lemma vfs_le_trans: "vfs_le s s' \<Longrightarrow> vfs_le s' s'' \<Longrightarrow> vfs_le s s''"
  by (simp add: vfs_le_def)

lemma lookup_comps_Cons:
  "i \<noteq> [] \<Longrightarrow> node_lookup a i s = Some f \<Longrightarrow> lookup_comps a (i # is) s = lookup_comps f is s"
  by (auto simp: node_lookup_def vnode_at_def split: option.splits)

lemma lookup_comps_le:
  "vfs_le s s' \<Longrightarrow> lookup_comps a is s = Inr (Some w) \<Longrightarrow> lookup_comps a is s' = Inr (Some w)"
proof (induction a "is" s rule: lookup_comps.induct)
  case (2 a i "is" s)
  show ?case
  proof (cases "i = []")
    case True
    with 2 show ?thesis by simp
  next
    case False
    then obtain n f where n: "vnodes s a = Some n" "vops_lookup i (v_data n) = Some f" "lookup_comps f is s = Inr (Some w)"
      using 2(4) by (auto simp: vnode_at_def and_then_Inr_iff split: option.splits)
    then have "node_lookup a i s' = Some f"
      using 2(3) by (simp add: vfs_le_def node_lookup_def)
    moreover have "lookup_comps f is s' = Inr (Some w)"
      using 2(2) [OF False _ n(2) 2(3) n(3)] n(1) by (simp add: vnode_at_def)
    ultimately show ?thesis
      using False by (metis lookup_comps_Cons)
  qed
qed simp

text \<open>A new vnode with an entry in a directory.\<close>

definition add_child :: "vv \<Rightarrow> vnode \<Rightarrow> dentry list \<Rightarrow> str \<Rightarrow> vnode \<Rightarrow> 'z vfs_state_scheme \<Rightarrow> 'z vfs_state_scheme" where
  "add_child v n es name new s =
     s\<lparr>vnodes := (vnodes s)(vn_fresh s \<mapsto> new, v \<mapsto> n\<lparr>v_data := Ramfsdir (create_entry name (vn_fresh s) es)\<rparr>),
       vn_fresh := vn_fresh s + 1\<rparr>"

lemma find_append: "find P (xs @ ys) = (case find P xs of None \<Rightarrow> find P ys | Some x \<Rightarrow> Some x)"
  by (induction xs) auto

lemma ramfsdir_lookup_entry:
  "ramfsdir_lookup name es = None \<Longrightarrow> (\<forall>e \<in> set es. dn_inner e \<noteq> None) \<Longrightarrow> ramfsdir_lookup name (create_entry name c es) = Some c"
  "ramfsdir_lookup x es = Some w \<Longrightarrow> ramfsdir_lookup x (create_entry name c es) = Some w"
  by (induction es) (auto simp: ramfsdir_lookup_def create_entry_def find_append split: option.splits if_splits)

lemma add_child_ok:
  assumes inv: "vfs_inv s" and n: "vnodes s v = Some n" "v_data n = Ramfsdir es" "ramfsdir_lookup name es = None"
    and new: "v_data new = Ramfsfile [] \<or> v_data new = Ramfsdir []"
  shows "vfs_inv (add_child v n es name new s)" "vfs_le s (add_child v n es name new s)"
    "node_lookup v name (add_child v n es name new s) = Some (vn_fresh s)"
    "vnodes (add_child v n es name new s) (vn_fresh s) = Some new"
    "vnodes (add_child v n es name new s) v = Some (n\<lparr>v_data := Ramfsdir (create_entry name (vn_fresh s) es)\<rparr>)"
proof -
  let ?s = "add_child v n es name new s"
  have v: "v < vn_fresh s"
    using inv n(1) by (metis not_less option.distinct(1) vfs_inv_def)
  have es: "\<forall>e \<in> set es. dn_inner e \<noteq> None"
    using inv n(1,2) by (auto simp: vfs_inv_def)
  then show "vfs_inv ?s"
    using inv new v by (auto simp: vfs_inv_def add_child_def create_entry_def split: if_splits)
  show "vnodes ?s (vn_fresh s) = Some new"
    "vnodes ?s v = Some (n\<lparr>v_data := Ramfsdir (create_entry name (vn_fresh s) es)\<rparr>)"
    using v by (simp_all add: add_child_def)
  then show "node_lookup v name ?s = Some (vn_fresh s)"
    using ramfsdir_lookup_entry(1) [OF n(3) es] by (simp add: node_lookup_def vops_lookup_def)
  have "vnodes s (vn_fresh s) = None"
    using inv by (simp add: vfs_inv_def)
  then show "vfs_le s ?s"
    using n ramfsdir_lookup_entry(2)
    by (auto simp: vfs_le_def node_lookup_def add_child_def vops_lookup_def split: option.splits)
qed

lemma vnode_create_eq:
  assumes "vfs_inv s" "vnodes s v = Some n" "v_data n = Ramfsdir es" "ramfsdir_lookup name es = None"
  shows "vnode_create v vf name s = Inr (Inr (vn_fresh s),
    add_child v n es name (vnode_new (Option.bind vf (\<lambda>f. vfs_upgrade f s)) VREG ramfsfile_new) s)"
  using assms
  by (simp add: vnode_create_def vnode_at_def vops_create_def ramfsdir_create_def vnode_alloc_def vnode_set_def add_child_def)

lemma vnode_mkdir_eq:
  assumes "vfs_inv s" "vnodes s v = Some n" "v_data n = Ramfsdir es"
  shows "vnode_mkdir v vf name s = Inr (Inr (vn_fresh s),
    add_child v n es name (vnode_new (Option.bind vf (\<lambda>f. vfs_upgrade f s)) VDIR ramfsdir_new) s)"
  using assms
  by (simp add: vnode_mkdir_def vnode_at_def vops_mkdir_def ramfsdir_mkdir_def vnode_alloc_def vnode_set_def add_child_def)

section \<open>Loading an entry\<close>

text \<open>The vnodes on the way to an entry are directories, as far as the way exists.\<close>

fun clear_path :: "vv \<Rightarrow> str list \<Rightarrow> 'z vfs_state_scheme \<Rightarrow> bool" where
  "clear_path a [] s \<longleftrightarrow> True"
| "clear_path a (i # is) s \<longleftrightarrow>
     (\<exists>n es. vnodes s a = Some n \<and> v_data n = Ramfsdir es
        \<and> (if i = [] then clear_path a is s
           else case ramfsdir_lookup i es of None \<Rightarrow> True | Some f \<Rightarrow> clear_path f is s))"

lemma empty_dir:
  assumes "vnodes s c = Some n" "v_data n = Ramfsdir []"
  shows "clear_path c is s" "\<exists>i \<in> set is. i \<noteq> [] \<Longrightarrow> lookup_comps c is s = Inr None"
proof -
  have e: "ramfsdir_lookup i [] = None" for i
    by (simp add: ramfsdir_lookup_def)
  show "clear_path c is s"
    by (induction "is") (simp_all add: assms e)
  show "lookup_comps c is s = Inr None" if "\<exists>i \<in> set is. i \<noteq> []"
    using that by (induction "is") (auto simp: assms e vnode_at_def vops_lookup_def)
qed

lemma transmute_last:
  assumes inv: "vfs_inv s" and n: "vnodes s cur = Some n" "v_data n = Ramfsdir es" "ramfsdir_lookup i es = None" "i \<noteq> []"
    and ty: "us_typ h \<in> {ustar_file, ustar_dir}" "us_typ h = ustar_file \<Longrightarrow> fz \<noteq> 0 \<and> unat fz \<le> length ptr"
  defines "new \<equiv> vnode_new (Option.bind (v_vfs n) (\<lambda>f. vfs_upgrade f s)) (if us_typ h = ustar_file then VREG else VDIR)
    (if us_typ h = ustar_file then Ramfsfile [] else Ramfsdir [])"
  shows "transmute_step ptr h fz i i (cur, s) = Inr (cur, add_child cur n es i new s)"
proof (cases "us_typ h = ustar_file")
  case True
  let ?s = "add_child cur n es i new s"
  have c: "vnode_create cur (v_vfs n) i s = Inr (Inr (vn_fresh s), ?s)"
    using vnode_create_eq [OF inv n(1-3)] True by (simp add: new_def ramfsfile_new_def)
  have "vnodes ?s cur = Some (n\<lparr>v_data := Ramfsdir (create_entry i (vn_fresh s) es)\<rparr>)"
    using add_child_ok(5) [OF inv n(1-3)] True by (simp add: new_def vnode_new_def)
  then have "vnode_write cur b 0 ?s = Inr (- 1, ?s)" for b
    by (simp add: vnode_write_def vnode_at_def vops_write_def vnode_set_def map_upd_triv)
  then show ?thesis
    using n True ty(2) c by (simp add: transmute_step_def vnode_at_def vops_lookup_def)
next
  case False
  then have "us_typ h = ustar_dir" "ustar_dir \<noteq> ustar_file"
    using ty(1) by auto
  then show ?thesis
    using n vnode_mkdir_eq [OF inv n(1,2), of "v_vfs n" i]
    by (simp add: transmute_step_def vnode_at_def vops_lookup_def new_def ramfsdir_new_def)
qed

lemma transmute_ok:
  "\<lbrakk>vfs_inv s; clear_path cur is s; lookup_comps cur is s = Inr None; is \<noteq> []; last is \<noteq> []; last is \<notin> set (butlast is);
     us_typ h \<in> {ustar_file, ustar_dir}; us_typ h = ustar_file \<longrightarrow> fz \<noteq> 0 \<and> unat fz \<le> length ptr\<rbrakk> \<Longrightarrow>
   \<exists>x s' v n. for_each (transmute_step ptr h fz (last is)) is (cur, s) = Inr (x, s') \<and> vfs_inv s' \<and> vfs_le s s'
     \<and> lookup_comps cur is s' = Inr (Some v) \<and> vnodes s' v = Some n
     \<and> vn_type n = (if us_typ h = ustar_file then VREG else VDIR)
     \<and> v_data n = (if us_typ h = ustar_file then Ramfsfile [] else Ramfsdir []) \<and> vn_fresh s \<le> v"
proof (induction "is" arbitrary: cur s)
  case (Cons i "is")
  from Cons.prems(2) obtain n es where n: "vnodes s cur = Some n" "v_data n = Ramfsdir es"
    and cp: "if i = [] then clear_path cur is s else case ramfsdir_lookup i es of None \<Rightarrow> True | Some f \<Rightarrow> clear_path f is s"
    by auto
  note ty = Cons.prems(7,8)
  consider "i = []" | f where "i \<noteq> []" "ramfsdir_lookup i es = Some f"
    | "i \<noteq> []" "ramfsdir_lookup i es = None" "is = []" | "i \<noteq> []" "ramfsdir_lookup i es = None" "is \<noteq> []"
    by fastforce
  then show ?case
  proof cases
    case 1
    then have "is \<noteq> []"
      using Cons.prems(5) by auto
    with 1 Cons.IH [of s cur] Cons.prems cp show ?thesis
      by (simp add: transmute_step_def)
  next
    case (2 f)
    then have nl: "node_lookup cur i s = Some f"
      using n by (simp add: node_lookup_def vops_lookup_def)
    then have lf: "lookup_comps f is s = Inr None"
      using Cons.prems(3) 2(1) by (metis lookup_comps_Cons)
    then have ne: "is \<noteq> []"
      by auto
    have st: "transmute_step ptr h fz (last (i # is)) i (cur, s) = Inr (f, s)"
      using 2 n by (simp add: transmute_step_def vnode_at_def vops_lookup_def)
    from Cons.IH [of s f] obtain x s' v m where r: "for_each (transmute_step ptr h fz (last is)) is (f, s) = Inr (x, s')"
      "vfs_inv s'" "vfs_le s s'" "lookup_comps f is s' = Inr (Some v)" "vnodes s' v = Some m"
      "vn_type m = (if us_typ h = ustar_file then VREG else VDIR)"
      "v_data m = (if us_typ h = ustar_file then Ramfsfile [] else Ramfsdir [])" "vn_fresh s \<le> v"
      using Cons.prems cp 2 lf ne by auto
    have "node_lookup cur i s' = Some f"
      using r(3) nl by (simp add: vfs_le_def)
    then have "lookup_comps cur (i # is) s' = Inr (Some v)"
      using r(4) 2(1) by (metis lookup_comps_Cons)
    with r st ne show ?thesis
      by auto
  next
    case 3
    let ?new = "vnode_new (Option.bind (v_vfs n) (\<lambda>f. vfs_upgrade f s)) (if us_typ h = ustar_file then VREG else VDIR)
      (if us_typ h = ustar_file then Ramfsfile [] else Ramfsdir [])"
    let ?s = "add_child cur n es i ?new s"
    have st: "transmute_step ptr h fz i i (cur, s) = Inr (cur, ?s)"
      using transmute_last [OF Cons.prems(1) n 3(2,1), of h fz ptr] ty by simp
    have "v_data ?new = Ramfsfile [] \<or> v_data ?new = Ramfsdir []"
      by (simp add: vnode_new_def)
    note a = add_child_ok [OF Cons.prems(1) n 3(2) this]
    have "lookup_comps cur [i] ?s = Inr (Some (vn_fresh s))"
      by (simp only: lookup_comps_Cons [OF 3(1) a(3)]) simp
    with st a 3 show ?thesis
      by (auto simp: vnode_new_def)
  next
    case 4
    let ?new = "vnode_new (Option.bind (v_vfs n) (\<lambda>f. vfs_upgrade f s)) VDIR ramfsdir_new"
    let ?s = "add_child cur n es i ?new s" and ?c = "vn_fresh s"
    have "i \<noteq> last is"
      using Cons.prems(6) 4(3) by auto
    then have st: "transmute_step ptr h fz (last (i # is)) i (cur, s) = Inr (?c, ?s)"
      using 4 n vnode_mkdir_eq [OF Cons.prems(1) n, of "v_vfs n" i]
      by (simp add: transmute_step_def vnode_at_def vops_lookup_def)
    have "v_data ?new = Ramfsfile [] \<or> v_data ?new = Ramfsdir []"
      by (simp add: vnode_new_def ramfsdir_new_def)
    note a = add_child_ok [OF Cons.prems(1) n 4(2) this]
    have "v_data ?new = Ramfsdir []"
      by (simp add: vnode_new_def ramfsdir_new_def)
    note e = empty_dir [OF a(4) this]
    have "last is \<in> set is" "last is \<noteq> []"
      using 4(3) Cons.prems(5) by auto
    then have "lookup_comps ?c is ?s = Inr None"
      by (intro e(2)) blast
    with Cons.IH [of ?s ?c] obtain x s' v m where r: "for_each (transmute_step ptr h fz (last is)) is (?c, ?s) = Inr (x, s')"
      "vfs_inv s'" "vfs_le ?s s'" "lookup_comps ?c is s' = Inr (Some v)" "vnodes s' v = Some m"
      "vn_type m = (if us_typ h = ustar_file then VREG else VDIR)"
      "v_data m = (if us_typ h = ustar_file then Ramfsfile [] else Ramfsdir [])" "vn_fresh ?s \<le> v"
      using Cons.prems 4 a(1) e(1) by auto
    have "vn_fresh s \<le> v"
      using r(8) by (simp add: add_child_def)
    moreover have "node_lookup cur i s' = Some ?c"
      using r(3) a(3) by (simp add: vfs_le_def)
    then have "lookup_comps cur (i # is) s' = Inr (Some v)"
      using r(4) 4(1) by (metis lookup_comps_Cons)
    ultimately show ?thesis
      using r st 4(3) vfs_le_trans [OF a(2) r(3)] by auto
  qed
qed simp

lemma split_sep_not_Nil [simp]: "split_sep c xs \<noteq> []"
  by (induction c xs rule: split_sep.induct) (auto split: list.splits)

lemma split_terminator_not_Nil: "w \<noteq> [] \<Longrightarrow> split_terminator c w \<noteq> []"
  by (cases w) (auto simp: split_terminator_def Let_def split: list.splits)

lemma split_sep_single: "c \<notin> set w \<Longrightarrow> split_sep c w = [w]"
  by (induction w) auto

lemma split_terminator_single: "c \<notin> set w \<Longrightarrow> w \<noteq> [] \<Longrightarrow> split_terminator c w = [w]"
  by (simp add: split_terminator_def split_sep_single)

section \<open>The loop over the archive\<close>

lemma octal_bound:
  assumes "list_all octal_digit ds"
  shows "foldl (\<lambda>acc b. acc * 8 + (unat b - 48)) n ds < (n + 1) * 8 ^ length ds"
  using assms
proof (induction ds arbitrary: n)
  case (Cons b ds)
  have b: "unat b - 48 \<le> 7"
    using Cons.prems by (auto simp: octal_digit_def word_le_nat_alt)
  have "foldl (\<lambda>acc b. acc * 8 + (unat b - 48)) (n * 8 + (unat b - 48)) ds < (n * 8 + (unat b - 48) + 1) * 8 ^ length ds"
    using Cons.IH Cons.prems by simp
  also have "\<dots> \<le> ((n + 1) * 8) * 8 ^ length ds"
    using b by (intro mult_right_mono) simp_all
  finally show ?case
    by (simp add: algebra_simps)
qed simp

lemma takeWhile_short: "0 \<in> set x \<Longrightarrow> length (takeWhile (\<lambda>b. b \<noteq> (0 :: u8)) x) < length x"
  by (induction x) auto

text \<open>A size field holds at most eleven digits.\<close>

lemma octal_to_num_bound: "octal_to_num x = Inr fz \<Longrightarrow> length x \<le> 12 \<Longrightarrow> unat fz < 2 ^ 33"
proof -
  assume a: "octal_to_num x = Inr fz" "length x \<le> 12"
  then obtain w where w: "w = takeWhile (\<lambda>b. b \<noteq> 0) x" "0 \<in> set x" "from_str_radix_8 w = Inr fz"
    by (auto simp: octal_to_num_def quick_str_from_ustar_def Let_def and_then_Inr_iff split: if_splits)
  define ds where "ds = (case w of b # bs \<Rightarrow> if b = 43 \<and> bs \<noteq> [] then bs else w | [] \<Rightarrow> [])"
  have f: "list_all octal_digit ds" "fz = of_nat (foldl (\<lambda>acc b. acc * 8 + (unat b - 48)) 0 ds)"
    using w(3) by (auto simp: from_str_radix_8_def Let_def ds_def [symmetric] split: if_splits)
  have "length ds \<le> length w"
    by (auto simp: ds_def split: list.splits)
  moreover have "length w < 12"
    using takeWhile_short [OF w(2)] w(1) a(2) by simp
  ultimately have "(8::nat) ^ length ds \<le> 8 ^ 11"
    by (intro power_increasing) simp_all
  then have "foldl (\<lambda>acc b. acc * 8 + (unat b - 48)) 0 ds < 2 ^ 33"
    using octal_bound [OF f(1), of 0] by simp
  then show ?thesis
    by (simp add: f(2) unat_of_nat)
qed

lemma and_then_not_Inl: "and_then x f = Inl e \<longleftrightarrow> x = Inl e \<or> (\<exists>y. x = Inr y \<and> f y = Inl e)"
  by (cases x) auto

lemma vnode_ops_not_fuel:
  "vnode_create v vf name s \<noteq> Inl OutOfFuel" "vnode_mkdir v vf name s \<noteq> Inl OutOfFuel"
  "vnode_write v b off s \<noteq> Inl OutOfFuel" "vnode_at v s \<noteq> Inl OutOfFuel"
  by (auto simp: vnode_create_def vnode_mkdir_def vnode_write_def and_then_not_Inl vnode_at_def vops_create_def vops_mkdir_def
      vops_write_def ramfsfile_write_def Let_def split: option.splits vops.splits prod.splits if_splits)

lemma transmute_step_not_fuel: "transmute_step ptr h fz lastcomp i cs \<noteq> Inl OutOfFuel"
  by (auto simp: transmute_step_def and_then_not_Inl vnode_ops_not_fuel unwrap_res_def
      split: prod.splits option.splits if_splits sum.splits)

lemma for_each_not_fuel: "(\<And>x s. f x s \<noteq> Inl e) \<Longrightarrow> for_each f xs s \<noteq> Inl e"
  by (induction xs arbitrary: s) (auto simp: and_then_not_Inl)

lemma quick_str_not_fuel: "quick_str_from_ustar x \<noteq> Inl OutOfFuel" "octal_to_num x \<noteq> Inl OutOfFuel"
  by (auto simp: quick_str_from_ustar_def octal_to_num_def from_str_radix_8_def and_then_not_Inl Let_def split: if_splits)

lemma transmute_not_fuel: "transmute_to_ramfs ptr root s \<noteq> Inl OutOfFuel"
  by (auto simp: transmute_to_ramfs_def and_then_not_Inl Let_def quick_str_not_fuel
      for_each_not_fuel [OF transmute_step_not_fuel] split: if_splits prod.splits)

lemma transmute_size: "transmute_to_ramfs ptr root s = Inr (fz, s') \<Longrightarrow> unat fz < 2 ^ 33"
proof -
  assume "transmute_to_ramfs ptr root s = Inr (fz, s')"
  then have "octal_to_num (us_file_size (ustar_header ptr)) = Inr fz"
    by (auto simp: transmute_to_ramfs_def and_then_Inr_iff Let_def split: if_splits)
  then show ?thesis
    by (rule octal_to_num_bound) (simp add: ustar_header_def)
qed

lemma load_loop_ends: "length ptr < fuel \<Longrightarrow> load_loop fuel ptr root s \<noteq> Inl OutOfFuel"
proof (induction fuel arbitrary: ptr s)
  case (Suc fuel)
  have "load_loop fuel (drop (unat (align_up fz 512 + of_nat USTAR_INODE_SIZE)) ptr) root s1 \<noteq> Inl OutOfFuel"
    if t: "transmute_to_ramfs ptr root s = Inr (fz, s1)" "ptr \<noteq> []" for fz s1
  proof (rule Suc.IH)
    have f: "unat fz < 2 ^ 33"
      using transmute_size [OF t(1)] .
    have "unat (align_up fz (2 ^ 9)) = (unat fz + 2 ^ 9 - 1) div 2 ^ 9 * 2 ^ 9"
      using f by (intro unat_align_up) simp_all
    also have "\<dots> \<le> 2 ^ 33 + 2 ^ 9"
      using f div_times_less_eq_dividend [of "unat fz + 2 ^ 9 - 1" "2 ^ 9"] by linarith
    finally have "unat (align_up fz 512 + of_nat USTAR_INODE_SIZE) = unat (align_up fz 512) + 512"
      by (subst unat_add_no_wrap) (simp_all add: USTAR_INODE_SIZE_def)
    then show "length (drop (unat (align_up fz 512 + of_nat USTAR_INODE_SIZE)) ptr) < fuel"
      using Suc.prems t(2) by (cases ptr) simp_all
  qed
  then show ?case
    using transmute_not_fuel [of ptr root s] by (auto simp: and_then_not_Inl Let_def)
qed simp

section \<open>Properties\<close>

text \<open>
  C26: a write to a memory file succeeds unless the end of the range overflows, in which
  case it panics; it replaces exactly the bytes of the range, keeps the others, fills a
  gap with zeros, and a read of the range returns what was written.
\<close>

theorem ramfs_write_read:
  assumes buf: "length buf < 2 ^ 64" and e: "e = unat offset + length buf"
  shows "(e < 2 ^ 64 \<longrightarrow> (\<exists>f'. ramfsfile_write buf offset f = Inr (f', of_nat (length buf)) \<and> length f' = max (length f) e
      \<and> (\<forall>k < length f'. f' ! k = (if unat offset \<le> k \<and> k < e then buf ! (k - unat offset) else if k < length f then f ! k else 0))
      \<and> (\<forall>b. length b = length buf \<longrightarrow> ramfsfile_read b offset f' = (buf, of_nat (length buf)))))
    \<and> (2 ^ 64 \<le> e \<longrightarrow> ramfsfile_write buf offset f = Inl OutOfBounds)"
proof (intro conjI impI)
  assume lt: "e < 2 ^ 64"
  let ?e = "offset + of_nat (length buf)"
  have ue: "unat ?e = e"
    using lt buf e by (simp add: unat_word_ariths unat_of_nat)
  then have le: "\<not> ?e < offset"
    using e by (simp add: word_less_nat_alt)
  define f1 where "f1 = (if e > length f then f @ replicate (e - length f) 0 else f)"
  have f1: "length f1 = max (length f) e" "\<And>k. k < length f1 \<Longrightarrow> f1 ! k = (if k < length f then f ! k else 0)"
    by (auto simp: f1_def nth_append)
  let ?f' = "take (unat offset) f1 @ buf @ drop e f1"
  have w: "ramfsfile_write buf offset f = Inr (?f', of_nat (length buf))"
    using le by (cases "length f < e") (simp_all add: ramfsfile_write_def Let_def ue f1_def)
  have len: "length ?f' = max (length f) e"
    using f1(1) e by simp
  have nth: "?f' ! k = (if unat offset \<le> k \<and> k < e then buf ! (k - unat offset) else if k < length f then f ! k else 0)"
    if "k < length ?f'" for k
    using that f1 e len by (auto simp: nth_append)
  have r: "ramfsfile_read b offset ?f' = (buf, of_nat (length buf))" if "length b = length buf" for b
    using that f1(1) e by (auto simp: ramfsfile_read_def Let_def)
  show "\<exists>f'. ramfsfile_write buf offset f = Inr (f', of_nat (length buf)) \<and> length f' = max (length f) e
      \<and> (\<forall>k < length f'. f' ! k = (if unat offset \<le> k \<and> k < e then buf ! (k - unat offset) else if k < length f then f ! k else 0))
      \<and> (\<forall>b. length b = length buf \<longrightarrow> ramfsfile_read b offset f' = (buf, of_nat (length buf)))"
    using w len nth r by blast
next
  assume ge: "2 ^ 64 \<le> e"
  have o: "unat offset < 2 ^ 64"
    using unsigned_less [where ?'a = nat and w = offset] by simp
  have "unat (offset + of_nat (length buf)) = e - 2 ^ 64"
    using ge o buf e by (simp add: unat_word_ariths unat_of_nat mod_if)
  then have "offset + of_nat (length buf) < offset"
    using o buf e ge by (simp add: word_less_nat_alt)
  then show "ramfsfile_write buf offset f = Inl OutOfBounds"
    by (simp add: ramfsfile_write_def Let_def)
qed

theorem ramfs_write_read_witness:
  "\<exists>f'. ramfsfile_write [7, 8] 4 [1, 2, 3] = Inr (f', 2) \<and> length f' = 6 \<and> f' ! 3 = 0 \<and> ramfsfile_read [0, 0] 4 f' = ([7, 8], 2)"
proof -
  obtain f' where f': "ramfsfile_write [7, 8] 4 [1, 2, 3] = Inr (f', of_nat (length [7, 8 :: u8]))" "length f' = max (length [1, 2, 3 :: u8]) 6"
    "\<forall>k < length f'. f' ! k = (if unat (4 :: usize) \<le> k \<and> k < 6 then [7, 8] ! (k - unat (4 :: usize))
      else if k < length [1, 2, 3 :: u8] then [1, 2, 3] ! k else 0)"
    "\<forall>b. length b = length [7, 8 :: u8] \<longrightarrow> ramfsfile_read b 4 f' = ([7, 8], of_nat (length [7, 8 :: u8]))"
    using ramfs_write_read [of "[7, 8]" 6 4 "[1, 2, 3]", THEN conjunct1, THEN mp] by auto
  from f'(4) [rule_format, of "[0, 0]"] f'(3) [rule_format, of 3] f'(1,2) show ?thesis
    by (intro exI [of _ f']) simp
qed

text \<open>
  C25: creating a name that a directory does not have succeeds, and the path then leads to a
  new empty regular file; a second creation reports \<^verbatim>\<open>EEXIST\<close> and changes nothing, and
  every path that led somewhere still leads there.
\<close>

theorem vfs_create_lookup:
  assumes inv: "vfs_inv s" and v: "vnodes s v = Some n" "v_data n = Ramfsdir es" "ramfsdir_lookup name es = None"
    and name: "name \<noteq> []" "SLASH \<notin> set name"
  shows "\<exists>c m s'. vnode_create v (v_vfs n) name s = Inr (Inr c, s') \<and> vfs_inv s' \<and> lookup v name s' = Inr (Some c)
    \<and> vnodes s' c = Some m \<and> vn_type m = VREG \<and> v_data m = Ramfsfile [] \<and> vnodes s c = None
    \<and> vnode_create v (v_vfs n) name s' = Inr (Inl EEXIST, s')
    \<and> (\<forall>u p w. lookup u p s = Inr (Some w) \<longrightarrow> lookup u p s' = Inr (Some w))"
proof -
  let ?new = "vnode_new (Option.bind (v_vfs n) (\<lambda>f. vfs_upgrade f s)) VREG ramfsfile_new"
  let ?s = "add_child v n es name ?new s"
  have "v_data ?new = Ramfsfile [] \<or> v_data ?new = Ramfsdir []"
    by (simp add: vnode_new_def ramfsfile_new_def)
  note a = add_child_ok [OF inv v this]
  have l: "lookup v name ?s = Inr (Some (vn_fresh s))"
    using name by (simp add: lookup_def split_terminator_single lookup_comps_Cons [OF name(1) a(3)] del: lookup_comps.simps(2))
  have "ramfsdir_lookup name (create_entry name (vn_fresh s) es) = Some (vn_fresh s)"
    using a(3,5) by (simp add: node_lookup_def vops_lookup_def)
  then have ex: "vnode_create v (v_vfs n) name ?s = Inr (Inl EEXIST, ?s)"
    using a(5) by (simp add: vnode_create_def vnode_at_def vops_create_def ramfsdir_create_def vnode_set_def map_upd_triv)
  have p: "lookup u p s = Inr (Some w) \<Longrightarrow> lookup u p ?s = Inr (Some w)" for u p w
    unfolding lookup_def by (rule lookup_comps_le [OF a(2)])
  have "vnodes s (vn_fresh s) = None"
    using inv by (simp add: vfs_inv_def)
  then show ?thesis
    using vnode_create_eq [OF inv v, of "v_vfs n"] a(1,4) l ex p
    by (intro exI [of _ "vn_fresh s"] exI [of _ ?new] exI [of _ ?s]) (simp add: vnode_new_def ramfsfile_new_def)
qed

text \<open>A root directory alone.\<close>

definition example_vfs :: vfs_state where
  "example_vfs = \<lparr>vnodes = [0 \<mapsto> \<lparr>vn_type = VDIR, v_prev_data = None, v_data = Ramfsdir [], v_vfs = None\<rparr>], vn_fresh = 1,
     vfss = Map.empty, vf_fresh = 0, ROOTFS = None\<rparr>"

lemma example_vfs_inv: "vfs_inv example_vfs"
  by (auto simp: vfs_inv_def example_vfs_def)

theorem vfs_create_lookup_witness:
  "\<exists>c s'. vnode_create 0 None [97] example_vfs = Inr (Inr c, s') \<and> lookup 0 [97] s' = Inr (Some c)
     \<and> vnode_create 0 None [97] s' = Inr (Inl EEXIST, s')"
proof -
  have "vnodes example_vfs 0 = Some \<lparr>vn_type = VDIR, v_prev_data = None, v_data = Ramfsdir [], v_vfs = None\<rparr>"
    by (simp add: example_vfs_def)
  from vfs_create_lookup [OF example_vfs_inv this, of "[]" "[97]"] show ?thesis
    by (auto simp: ramfsdir_lookup_def SLASH_def)
qed

text \<open>
  C27: mounting a file system on a vnode makes it answer there and remembers the old one: a
  second mount reports \<^verbatim>\<open>EBUSY\<close> and changes nothing, and \<^verbatim>\<open>unmount\<close> restores the state
  exactly; an \<^verbatim>\<open>unmount\<close> where nothing is mounted panics.
\<close>

theorem vfs_mount_unmount:
  assumes v: "vnodes s v = Some n" "v_prev_data n = None" and ops: "ops \<noteq> Nullfs"
  shows "\<exists>s'. mount v ops s = Inr (Inr (), s') \<and> node_lookup v i s' = vops_lookup i ops
    \<and> (\<forall>u. u \<noteq> v \<longrightarrow> vnodes s' u = vnodes s u)
    \<and> mount v ops2 s' = (if ops2 = Nullfs then Inl Unreachable else Inr (Inl EBUSY, s'))
    \<and> unmount v s' = Inr (Inr (), s)
    \<and> unmount v s = Inl (if v_data n = Nullfs then Unreachable else UnwrapNone)"
proof -
  let ?s = "vnode_set v (n\<lparr>v_prev_data := Some (v_data n), v_data := ops\<rparr>) s"
  have "n\<lparr>v_prev_data := None, v_data := v_data n\<rparr> = n"
    using v(2) by (cases n) simp
  then have "vnode_set v (n\<lparr>v_prev_data := None, v_data := v_data n\<rparr>) ?s = s"
    using v(1) by (simp add: vnode_set_def map_upd_triv)
  moreover have "vops_mount ops = Inr ops" "vops_unmount ops = Inr ops"
    using ops by (auto simp: vops_mount_def vops_unmount_def split: vops.splits)
  moreover have "vnodes ?s v = Some (n\<lparr>v_prev_data := Some (v_data n), v_data := ops\<rparr>)"
    by (simp add: vnode_set_def)
  ultimately show ?thesis
    using v
    by (intro exI [of _ ?s])
      (auto simp: mount_def unmount_def vnode_at_def node_lookup_def vops_mount_def vops_unmount_def vnode_set_def split: vops.splits)
qed

theorem vfs_mount_unmount_witness:
  "\<exists>s'. mount 0 (Ramfsfile [1]) example_vfs = Inr (Inr (), s') \<and> mount 0 (Ramfsdir []) s' = Inr (Inl EBUSY, s')
     \<and> unmount 0 s' = Inr (Inr (), example_vfs) \<and> unmount 0 example_vfs = Inl UnwrapNone"
proof -
  have "vnodes example_vfs 0 = Some \<lparr>vn_type = VDIR, v_prev_data = None, v_data = Ramfsdir [], v_vfs = None\<rparr>"
    by (simp add: example_vfs_def)
  from vfs_mount_unmount [OF this, of "Ramfsfile [1]" "[]" "Ramfsdir []"] show ?thesis
    by auto
qed

text \<open>
  C36: loading the initial archive always ends, whatever its bytes: it either returns or
  panics, since every header moves the loader forward by at least 512 bytes.
\<close>

theorem load_ramfs_terminates: "load_ramfs_with_ustar_tar modules cmd_empty s \<noteq> Inl OutOfFuel"
proof -
  have "inner_root_vnode f s \<noteq> Inl OutOfFuel" "unwrap_opt (ROOTFS s) \<noteq> Inl OutOfFuel" for f
    by (auto simp: inner_root_vnode_def unwrap_opt_def split: option.splits)
  then show ?thesis
    using load_loop_ends [OF lessI]
    by (auto simp: load_ramfs_with_ustar_tar_def and_then_not_Inl simp del: load_loop.simps
        split: option.splits list.splits if_splits prod.splits)
qed

text \<open>
  C24: a well-formed header of a file or directory that does not exist yet, and whose name is
  not also the name of one of the directories above it in its path, makes its path lead to a
  vnode of that kind that did not exist before, creating the directories on the way, and
  every path that led somewhere still leads there. The new file is empty: the loader offers
  the bytes to the directory, which refuses them. (The loader recognises the end of the path
  by comparing names, so a path like \<^verbatim>\<open>a/b/a\<close> is not covered.)
\<close>

theorem ustar_entry_loaded:
  assumes hdr: "512 \<le> length ptr" "h = ustar_header ptr" "quick_str_from_ustar (us_ustar_ind h) = Inr USTAR"
      "quick_str_from_ustar (us_name h) = Inr w" "w \<noteq> []" "octal_to_num (us_file_size h) = Inr fz"
      "us_typ h \<in> {ustar_file, ustar_dir}" "us_typ h = ustar_file \<longrightarrow> fz \<noteq> 0 \<and> unat fz \<le> length ptr"
    and comps: "comps = split_terminator SLASH w" "last comps \<noteq> []" "last comps \<notin> set (butlast comps)"
    and s: "vfs_inv s" "clear_path root comps s" "lookup root w s = Inr None"
  shows "\<exists>s' v n. transmute_to_ramfs ptr root s = Inr (fz, s') \<and> vfs_inv s' \<and> lookup root w s' = Inr (Some v) \<and> vnodes s v = None \<and> vnodes s' v = Some n
    \<and> vn_type n = (if us_typ h = ustar_file then VREG else VDIR)
    \<and> v_data n = (if us_typ h = ustar_file then Ramfsfile [] else Ramfsdir [])
    \<and> (\<forall>u p x. lookup u p s = Inr (Some x) \<longrightarrow> lookup u p s' = Inr (Some x))"
proof -
  have ne: "comps \<noteq> []"
    using comps(1) split_terminator_not_Nil [OF hdr(5)] by simp
  have "lookup_comps root comps s = Inr None"
    using s(3) by (simp add: lookup_def comps(1))
  from transmute_ok [OF s(1,2) this ne comps(2,3) hdr(7,8)] obtain x s' v n where r:
    "for_each (transmute_step ptr h fz (last comps)) comps (root, s) = Inr (x, s')" "vfs_inv s'" "vfs_le s s'"
    "lookup_comps root comps s' = Inr (Some v)" "vnodes s' v = Some n"
    "vn_type n = (if us_typ h = ustar_file then VREG else VDIR)"
    "v_data n = (if us_typ h = ustar_file then Ramfsfile [] else Ramfsdir [])" "vn_fresh s \<le> v"
    by blast
  have "vnodes s v = None"
    using s(1) r(8) by (simp add: vfs_inv_def)
  moreover have "transmute_to_ramfs ptr root s = Inr (fz, s')"
    using hdr ne r(1) by (simp add: transmute_to_ramfs_def USTAR_INODE_SIZE_def comps(1) [symmetric] Let_def)
  moreover have "lookup u p s = Inr (Some y) \<Longrightarrow> lookup u p s' = Inr (Some y)" for u p y
    unfolding lookup_def by (rule lookup_comps_le [OF r(3)])
  ultimately show ?thesis
    using r by (intro exI [of _ s'] exI [of _ v] exI [of _ n]) (simp add: lookup_def comps(1))
qed

text \<open>The header of a file of one byte named \<^verbatim>\<open>a\<close>.\<close>

definition example_header :: "u8 list" where
  "example_header = [97] @ replicate 123 0 @ [48, 48, 48, 48, 48, 48, 48, 48, 48, 48, 49, 0] @ replicate 20 0 @ [ustar_file] @ replicate 100 0
     @ (USTAR @ [0]) @ replicate 249 0"

lemma example_header_fields:
  "ustar_header example_header = \<lparr>us_name = [97] @ replicate 99 0, us_file_size = [48, 48, 48, 48, 48, 48, 48, 48, 48, 48, 49, 0],
     us_typ = ustar_file, us_ustar_ind = USTAR @ [0]\<rparr>" "length example_header = 512"
  by (simp_all add: ustar_header_def example_header_def USTAR_def nth_append)

lemma example_header_strings:
  "quick_str_from_ustar (us_ustar_ind (ustar_header example_header)) = Inr USTAR"
  "quick_str_from_ustar (us_name (ustar_header example_header)) = Inr [97]"
  "octal_to_num (us_file_size (ustar_header example_header)) = Inr 1"
  by (simp_all add: example_header_fields quick_str_from_ustar_def USTAR_def octal_to_num_def from_str_radix_8_def
      octal_digit_def)

theorem ustar_entry_loaded_witness:
  "\<exists>s' v n. transmute_to_ramfs example_header 0 example_vfs = Inr (1, s') \<and> lookup 0 [97] s' = Inr (Some v)
     \<and> vnodes s' v = Some n \<and> vn_type n = VREG \<and> v_data n = Ramfsfile []"
proof -
  have c: "[[97]] = split_terminator SLASH [97 :: u8]"
    by (simp add: split_terminator_def SLASH_def)
  have p: "clear_path 0 [[97]] example_vfs" "lookup 0 [97] example_vfs = Inr None"
    by (simp_all add: lookup_def c [symmetric])
      (simp_all add: example_vfs_def ramfsdir_lookup_def vnode_at_def vops_lookup_def)
  have t: "us_typ (ustar_header example_header) = ustar_file"
    by (simp add: example_header_fields)
  have "\<exists>s' v n. transmute_to_ramfs example_header 0 example_vfs = Inr (1, s') \<and> vfs_inv s' \<and> lookup 0 [97] s' = Inr (Some v)
    \<and> vnodes example_vfs v = None \<and> vnodes s' v = Some n
    \<and> vn_type n = (if us_typ (ustar_header example_header) = ustar_file then VREG else VDIR)
    \<and> v_data n = (if us_typ (ustar_header example_header) = ustar_file then Ramfsfile [] else Ramfsdir [])
    \<and> (\<forall>u p x. lookup u p example_vfs = Inr (Some x) \<longrightarrow> lookup u p s' = Inr (Some x))"
    by (rule ustar_entry_loaded [OF _ refl example_header_strings(1,2) _ example_header_strings(3) _ _ c _ _ example_vfs_inv p])
      (simp_all add: t example_header_fields(2))
  then show ?thesis
    by (auto simp: t)
qed

end
