(* ===== verification/Bytes.thy ===== *)
theory Bytes
  imports Prelude
begin

text \<open>
  Byte-addressed device memory: what \<^verbatim>\<open>read_volatile\<close> and \<^verbatim>\<open>write_volatile\<close> of an
  integer do on a little-endian machine, shared by the riscv64 port space and
  the PCI configuration space.
\<close>

text \<open>Little-endian accesses of \<open>n\<close> bytes.\<close>

primrec le_read :: "nat \<Rightarrow> u64 \<Rightarrow> (u64 \<Rightarrow> u8) \<Rightarrow> u64" where
  "le_read 0 a m = 0"
| "le_read (Suc n) a m = ucast (m a) OR push_bit 8 (le_read n (a + 1) m)"

primrec le_write :: "nat \<Rightarrow> u64 \<Rightarrow> u64 \<Rightarrow> (u64 \<Rightarrow> u8) \<Rightarrow> (u64 \<Rightarrow> u8)" where
  "le_write 0 a v m = m"
| "le_write (Suc n) a v m = (le_write n (a + 1) (drop_bit 8 v) m)(a := ucast v)"

lemma le_read_shift:
  "(\<And>k. k < n \<Longrightarrow> m' (a' + of_nat k) = m (a + of_nat k)) \<Longrightarrow> le_read n a' m' = le_read n a m"
proof (induction n arbitrary: a a')
  case (Suc n)
  have "m' a' = m a"
    using Suc.prems [of 0] by simp
  moreover have "le_read n (a' + 1) m' = le_read n (a + 1) m"
    using Suc.prems [of "Suc k" for k] by (intro Suc.IH) (simp add: ac_simps)
  ultimately show ?case
    by simp
qed simp

lemmas le_read_cong = le_read_shift [where a' = a and a = a for a]

text \<open>Reading back what was written, up to the width of the access.\<close>

lemma le_read_write: "n \<le> 8 \<Longrightarrow> le_read n a (le_write n a v m) = take_bit (8 * n) v"
proof (induction n arbitrary: a v m)
  case (Suc n)
  have ne: "a + 1 + of_nat k \<noteq> a" if "k < n" for k
  proof
    assume "a + 1 + of_nat k = a"
    then have "(of_nat (Suc k) :: u64) = 0"
      by (simp add: algebra_simps)
    then show False
      using that Suc.prems by (simp add: word_unat_eq_iff unat_of_nat del: of_nat_Suc)
  qed
  have "le_read n (a + 1) ((le_write n (a + 1) (drop_bit 8 v) m)(a := ucast v)) = le_read n (a + 1) (le_write n (a + 1) (drop_bit 8 v) m)"
    using ne by (intro le_read_cong) simp
  also have "\<dots> = take_bit (8 * n) (drop_bit 8 v)"
    using Suc by simp
  finally have "le_read (Suc n) a (le_write (Suc n) a v m) = ucast (ucast v :: u8) OR push_bit 8 (take_bit (8 * n) (drop_bit 8 v))"
    by simp
  also have "\<dots> = take_bit (8 * Suc n) v"
    by (rule bit_eqI) (auto simp: bit_simps)
  finally show ?case .
qed simp

text \<open>A write leaves every byte outside the cells it covers.\<close>

lemma le_write_other: "(\<And>k. k < n \<Longrightarrow> x \<noteq> a + of_nat k) \<Longrightarrow> le_write n a v m x = m x"
proof (induction n arbitrary: a v)
  case (Suc n)
  have "x \<noteq> a"
    using Suc.prems [of 0] by simp
  moreover have "le_write n (a + 1) (drop_bit 8 v) m x = m x"
    using Suc.prems [of "Suc k" for k] by (intro Suc.IH) (simp add: ac_simps)
  ultimately show ?case
    by simp
qed simp

end
