(* ===== verification/RvCpu.thy ===== *)
theory RvCpu
  imports Bytes
begin

text \<open>
  The processor side of the riscv64 target: the trap entry (\<^verbatim>\<open>arch/risc_v/interrupts/mod.rs\<close>)
  and the thread switch (\<^verbatim>\<open>arch/risc_v/mod.rs\<close>) as the instructions they are written in,
  and the operations of \<^verbatim>\<open>arch/risc_v/mod.rs\<close> on control registers, the timer and
  device memory. The firmware behind \<^verbatim>\<open>ecall\<close> is a parameter.
\<close>

section \<open>The machine\<close>

text \<open>The general registers by number; \<^verbatim>\<open>fp\<close> is another name of \<^verbatim>\<open>s0\<close>.\<close>

abbreviation (input) "r_ra \<equiv> (1 :: nat)"
abbreviation (input) "r_sp \<equiv> (2 :: nat)"
abbreviation (input) "r_gp \<equiv> (3 :: nat)"
abbreviation (input) "r_tp \<equiv> (4 :: nat)"
abbreviation (input) "r_t0 \<equiv> (5 :: nat)"
abbreviation (input) "r_t1 \<equiv> (6 :: nat)"
abbreviation (input) "r_t2 \<equiv> (7 :: nat)"
abbreviation (input) "r_s0 \<equiv> (8 :: nat)"
abbreviation (input) "r_fp \<equiv> (8 :: nat)"
abbreviation (input) "r_s1 \<equiv> (9 :: nat)"
abbreviation (input) "r_a0 \<equiv> (10 :: nat)"
abbreviation (input) "r_a1 \<equiv> (11 :: nat)"
abbreviation (input) "r_a2 \<equiv> (12 :: nat)"
abbreviation (input) "r_a3 \<equiv> (13 :: nat)"
abbreviation (input) "r_a4 \<equiv> (14 :: nat)"
abbreviation (input) "r_a5 \<equiv> (15 :: nat)"
abbreviation (input) "r_a6 \<equiv> (16 :: nat)"
abbreviation (input) "r_a7 \<equiv> (17 :: nat)"
abbreviation (input) "r_s2 \<equiv> (18 :: nat)"
abbreviation (input) "r_s3 \<equiv> (19 :: nat)"
abbreviation (input) "r_s4 \<equiv> (20 :: nat)"
abbreviation (input) "r_s5 \<equiv> (21 :: nat)"
abbreviation (input) "r_s6 \<equiv> (22 :: nat)"
abbreviation (input) "r_s7 \<equiv> (23 :: nat)"
abbreviation (input) "r_s8 \<equiv> (24 :: nat)"
abbreviation (input) "r_s9 \<equiv> (25 :: nat)"
abbreviation (input) "r_s10 \<equiv> (26 :: nat)"
abbreviation (input) "r_s11 \<equiv> (27 :: nat)"
abbreviation (input) "r_t3 \<equiv> (28 :: nat)"
abbreviation (input) "r_t4 \<equiv> (29 :: nat)"
abbreviation (input) "r_t5 \<equiv> (30 :: nat)"
abbreviation (input) "r_t6 \<equiv> (31 :: nat)"

record rv_cpu =
  xr :: "nat \<Rightarrow> u64"
  rmem :: memory
  sepc :: u64
  scause :: u64
  stval :: u64
  sstatus :: u64
  sie :: u64
  stvec :: u64
  satp :: u64
  time_csr :: u64

datatype rv_instr =
    Addi nat nat u64
  | Sd nat u64 nat
  | Ld nat u64 nat
  | Csrr_sepc nat
  | Csrw_sepc nat

text \<open>\<^verbatim>\<open>mv\<close> is \<^verbatim>\<open>addi\<close> with zero. Loads and stores name the offset before the base register.\<close>

definition xset :: "nat \<Rightarrow> u64 \<Rightarrow> 'z rv_cpu_scheme \<Rightarrow> 'z rv_cpu_scheme" where
  "xset r v c = c\<lparr>xr := (xr c)(r := v)\<rparr>"

primrec rv_step :: "rv_instr \<Rightarrow> 'z rv_cpu_scheme \<Rightarrow> 'z rv_cpu_scheme" where
  "rv_step (Addi rd rs imm) c = xset rd (xr c rs + imm) c"
| "rv_step (Sd rs off base) c = c\<lparr>rmem := (rmem c)(xr c base + off := xr c rs)\<rparr>"
| "rv_step (Ld rd off base) c = xset rd (rmem c (xr c base + off)) c"
| "rv_step (Csrr_sepc rd) c = xset rd (sepc c) c"
| "rv_step (Csrw_sepc rs) c = c\<lparr>sepc := xr c rs\<rparr>"

definition rv_exec :: "rv_instr list \<Rightarrow> 'z rv_cpu_scheme \<Rightarrow> 'z rv_cpu_scheme" where
  "rv_exec is c = fold rv_step is c"

section \<open>Trap entry and exit\<close>







definition setup_interrupts :: "u64 \<Rightarrow> 'z rv_cpu_scheme \<Rightarrow> 'z rv_cpu_scheme" where
  "setup_interrupts sxr c = c\<lparr>stvec := sxr\<rparr>"

section \<open>Thread switch\<close>

definition rv_context_switch :: "rv_instr list" where
  "rv_context_switch = [
     Addi r_sp r_sp (- 120),
     Sd r_ra 0 r_sp, Sd r_tp 8 r_sp, Sd r_s0 16 r_sp, Sd r_s1 24 r_sp, Sd r_s2 32 r_sp, Sd r_s3 40 r_sp, Sd r_s4 48 r_sp,
     Sd r_s5 56 r_sp, Sd r_s6 64 r_sp, Sd r_s7 72 r_sp, Sd r_s8 80 r_sp, Sd r_s9 88 r_sp, Sd r_s10 96 r_sp, Sd r_s11 104 r_sp,
     Sd r_sp 0 r_a1,
     Ld r_sp 0 r_a2,
     Ld r_s11 104 r_sp, Ld r_s10 96 r_sp, Ld r_s9 88 r_sp, Ld r_s8 80 r_sp, Ld r_s7 72 r_sp, Ld r_s6 64 r_sp, Ld r_s5 56 r_sp,
     Ld r_s4 48 r_sp, Ld r_s3 40 r_sp, Ld r_s2 32 r_sp, Ld r_s1 24 r_sp, Ld r_s0 16 r_sp, Ld r_tp 8 r_sp, Ld r_ra 0 r_sp,
     Addi r_sp r_sp 120]"

definition sched_tramp1 :: "rv_instr list" where
  "sched_tramp1 = [Ld r_a1 0 r_sp, Ld r_a2 8 r_sp, Addi r_sp r_sp 16]"

text \<open>
  The initial frame of a thread: the last 17 words of its stack. \<open>real\<close> and \<open>meta\<close> are the two
  halves of the boxed closure, \<open>tramp\<close> the address of \<^verbatim>\<open>sched_tramp1\<close>.
\<close>

definition prepare_new_thread_stack :: "usize list \<Rightarrow> u64 \<Rightarrow> u64 \<Rightarrow> u64 \<Rightarrow> u64 \<Rightarrow> panic + (usize list \<times> usize)" where
  "prepare_new_thread_stack stack_ptr real meta tramp tp =
     (let len = length stack_ptr
      in if len < 17 then Inl OutOfBounds
         else Inr (take (len - 17) stack_ptr @ (replicate 17 0)[16 := meta, 15 := real, 0 := tramp, 1 := tp], 17 * 8))"

section \<open>Control registers, timer, device memory\<close>

definition rv_get_root_table :: "'z rv_cpu_scheme \<Rightarrow> u64" where
  "rv_get_root_table c = push_bit 12 (satp c AND 0xFFFFFFFFFFF)"

definition rv_init_cpu_local :: "u64 \<Rightarrow> 'z rv_cpu_scheme \<Rightarrow> 'z rv_cpu_scheme" where
  "rv_init_cpu_local ptr c = xset r_tp ptr c"

definition rv_enable_interrupts :: "'z rv_cpu_scheme \<Rightarrow> 'z rv_cpu_scheme" where
  "rv_enable_interrupts c = c\<lparr>sstatus := sstatus c OR 2\<rparr>"

definition rv_disable_interrupts :: "'z rv_cpu_scheme \<Rightarrow> 'z rv_cpu_scheme" where
  "rv_disable_interrupts c = c\<lparr>sstatus := sstatus c OR 2\<rparr>"

record sbi_ret =
  sbi_error :: "64 word"
  sbi_val :: "64 word"

text \<open>The state with the timer: the frequency (\<^verbatim>\<open>timr_freq\<close>) and the calls the firmware has received.\<close>

record rv_machine = rv_cpu +
  timr_freq :: "u64 option"
  sbi_calls :: "(usize \<times> usize \<times> usize list) list"
  dev_mem :: "u64 \<Rightarrow> u8"

definition sbi_call ::
    "(usize \<Rightarrow> usize \<Rightarrow> usize list \<Rightarrow> sbi_ret) \<Rightarrow> usize \<Rightarrow> usize \<Rightarrow> usize list \<Rightarrow> 'z rv_machine_scheme \<Rightarrow> sbi_ret \<times> 'z rv_machine_scheme" where
  "sbi_call sbi ext fid args c = (sbi ext fid args, c\<lparr>sbi_calls := sbi_calls c @ [(ext, fid, args)]\<rparr>)"

definition rv_mask_timer :: "(usize \<Rightarrow> usize \<Rightarrow> usize list \<Rightarrow> sbi_ret) \<Rightarrow> 'z rv_machine_scheme \<Rightarrow> 'z rv_machine_scheme" where
  "rv_mask_timer sbi c = snd (sbi_call sbi 0x54494D45 0 [- 1, 0, 0, 0, 0, 0] c)"

text \<open>\<open>tab\<close> is the time base frequency in the table \<^verbatim>\<open>RHCT\<close>, or the error of the search.\<close>

definition rv_init_timer ::
    "(usize \<Rightarrow> usize \<Rightarrow> usize list \<Rightarrow> sbi_ret) \<Rightarrow> string + u64 \<Rightarrow> 'z rv_machine_scheme \<Rightarrow> panic + 'z rv_machine_scheme" where
  "rv_init_timer sbi tab c =
     and_then (unwrap_res tab) (\<lambda>tbf.
       let c1 = (case timr_freq c of None \<Rightarrow> c\<lparr>timr_freq := Some tbf\<rparr> | Some _ \<Rightarrow> c);
           c2 = c1\<lparr>sie := sie c1 OR push_bit 5 1\<rparr>;
           status = sstatus c2 OR push_bit 1 1;
           c3 = snd (sbi_call sbi 0x54494D45 0 [- 1, 0, 0, 0, 0, 0] c2)
       in Inr (c3\<lparr>sstatus := status\<rparr>))"

definition rv_set_timer_ms ::
    "(usize \<Rightarrow> usize \<Rightarrow> usize list \<Rightarrow> sbi_ret) \<Rightarrow> usize \<Rightarrow> 'z rv_machine_scheme \<Rightarrow> panic + 'z rv_machine_scheme" where
  "rv_set_timer_ms sbi ms c =
     and_then (unwrap_opt (timr_freq c)) (\<lambda>freq.
       let tick_per_ms = freq div 1000
       in Inr (snd (sbi_call sbi 0x54494D45 0 [time_csr c + tick_per_ms * ms, 0, 0, 0, 0, 0] c)))"

definition rv_raw_io_in :: "u64 \<Rightarrow> u64 \<Rightarrow> u8 \<Rightarrow> 'z rv_machine_scheme \<Rightarrow> panic + u64" where
  "rv_raw_io_in hh addr byte_width c =
     (if byte_width \<in> {1, 2, 4} then Inr (le_read (unat byte_width) (addr + hh) (dev_mem c)) else Inl (PanicMsg ''wtf''))"

definition rv_raw_io_out :: "u64 \<Rightarrow> u64 \<Rightarrow> u64 \<Rightarrow> u8 \<Rightarrow> 'z rv_machine_scheme \<Rightarrow> panic + 'z rv_machine_scheme" where
  "rv_raw_io_out hh addr data byte_width c =
     (if byte_width \<in> {1, 2, 4}
      then Inr (c\<lparr>dev_mem := le_write (unat byte_width) (addr + hh) data (dev_mem c)\<rparr>) else Inl (PanicMsg ''wtf''))"

section \<open>Symbolic execution\<close>

lemma rv_exec_simps [simp]:
  "rv_exec [] c = c" "rv_exec (i # is) c = rv_exec is (rv_step i c)"
  by (simp_all add: rv_exec_def)

lemma rv_exec_append: "rv_exec (is @ js) c = rv_exec js (rv_exec is c)"
  by (simp add: rv_exec_def)

text \<open>A block of stores to, or loads from, distinct slots of one base register.\<close>

definition stores :: "nat \<Rightarrow> (nat \<times> u64) list \<Rightarrow> rv_instr list" where
  "stores b rs = map (\<lambda>(r, off). Sd r off b) rs"

definition loads :: "nat \<Rightarrow> (nat \<times> u64) list \<Rightarrow> rv_instr list" where
  "loads b rs = map (\<lambda>(r, off). Ld r off b) rs"

primrec saved :: "u64 \<Rightarrow> (nat \<Rightarrow> u64) \<Rightarrow> (nat \<times> u64) list \<Rightarrow> memory \<Rightarrow> memory" where
  "saved base x [] m = m"
| "saved base x (p # rs) m = saved base x rs (m(base + snd p := x (fst p)))"

primrec loaded :: "(u64 \<Rightarrow> u64) \<Rightarrow> (nat \<times> u64) list \<Rightarrow> (nat \<Rightarrow> u64) \<Rightarrow> nat \<Rightarrow> u64" where
  "loaded f [] x = x"
| "loaded f (p # rs) x = loaded f rs (x(fst p := f (snd p)))"

lemma exec_stores: "rv_exec (stores b rs) c = c\<lparr>rmem := saved (xr c b) (xr c) rs (rmem c)\<rparr>"
  by (induction rs arbitrary: c) (auto simp: stores_def)

lemma saved_other: "(\<And>r off. (r, off) \<in> set rs \<Longrightarrow> a \<noteq> base + off) \<Longrightarrow> saved base x rs m a = m a"
proof (induction rs arbitrary: m)
  case (Cons p rs)
  have "a \<noteq> base + snd p"
    using Cons.prems [of "fst p" "snd p"] by simp
  moreover have "saved base x rs (m(base + snd p := x (fst p))) a = (m(base + snd p := x (fst p))) a"
    using Cons.prems by (intro Cons.IH) (metis list.set_intros(2))
  ultimately show ?case
    by simp
qed simp

lemma saved_slot: "distinct (map snd rs) \<Longrightarrow> (r, off) \<in> set rs \<Longrightarrow> saved base x rs m (base + off) = x r"
proof (induction rs arbitrary: m)
  case (Cons p rs)
  show ?case
  proof (cases "p = (r, off)")
    case True
    then have "off \<notin> snd ` set rs"
      using Cons.prems(1) by simp
    then have "saved base x rs (m(base + off := x r)) (base + off) = (m(base + off := x r)) (base + off)"
      by (intro saved_other) force
    with True show ?thesis
      by simp
  next
    case False
    with Cons show ?thesis
      by auto
  qed
qed simp

lemma exec_loads:
  "b \<notin> fst ` set rs \<Longrightarrow> rv_exec (loads b rs) c = c\<lparr>xr := loaded (\<lambda>off. rmem c (xr c b + off)) rs (xr c)\<rparr>"
  by (induction rs arbitrary: c) (auto simp: loads_def xset_def)

lemma loaded_other: "r \<notin> fst ` set rs \<Longrightarrow> loaded f rs x r = x r"
  by (induction rs arbitrary: x) auto

lemma loaded_slot: "(\<And>off. (r, off) \<in> set rs \<Longrightarrow> f off = v) \<Longrightarrow> r \<in> fst ` set rs \<Longrightarrow> loaded f rs x r = v"
proof (induction rs arbitrary: x)
  case (Cons p rs)
  obtain r' off where p: "p = (r', off)"
    by (cases p)
  show ?case
  proof (cases "r \<in> fst ` set rs")
    case True
    with Cons show ?thesis
      by simp
  next
    case False
    then have "r' = r"
      using Cons.prems(2) p by auto
    with False Cons.prems(1) [of off] show ?thesis
      by (simp add: p loaded_other)
  qed
qed simp

section \<open>The frame of a trap\<close>














section \<open>The frame of a switch\<close>

definition cs_slots :: "(nat \<times> u64) list" where
  "cs_slots = [(r_ra, 0), (r_tp, 8), (r_s0, 16), (r_s1, 24), (r_s2, 32), (r_s3, 40), (r_s4, 48), (r_s5, 56), (r_s6, 64), (r_s7, 72),
     (r_s8, 80), (r_s9, 88), (r_s10, 96), (r_s11, 104)]"

lemma rv_context_switch_eq: "rv_context_switch = [Addi r_sp r_sp (- 120)] @ stores r_sp cs_slots
    @ [Sd r_sp 0 r_a1, Ld r_sp 0 r_a2] @ loads r_sp (rev cs_slots) @ [Addi r_sp r_sp 120]"
  by (simp add: rv_context_switch_def stores_def loads_def cs_slots_def)

lemma cs_slots_facts:
  "distinct (map snd cs_slots)" "r_sp \<notin> fst ` set cs_slots" "distinct (map fst cs_slots)"
  "(r, off) \<in> set cs_slots \<Longrightarrow> unat off < 112"
  by (auto simp: cs_slots_def)

text \<open>The bytes of a saved frame.\<close>

definition frame :: "u64 \<Rightarrow> u64 set" where
  "frame S = {a. unat (a - S) < 112}"

lemma frame_slot: "(r, off) \<in> set cs_slots \<Longrightarrow> S + off \<in> frame S"
  using cs_slots_facts(4) by (simp add: frame_def)

lemma rv_context_switch_ok:
  fixes c :: "'z rv_cpu_scheme"
  defines "S \<equiv> xr c r_sp - 120" and "c' \<equiv> rv_exec rv_context_switch c"
  shows "rmem c' (xr c r_a1) = S"
    "(r, off) \<in> set cs_slots \<Longrightarrow> xr c r_a1 \<notin> frame S \<Longrightarrow> rmem c' (S + off) = xr c r"
    "a \<notin> frame S \<Longrightarrow> a \<noteq> xr c r_a1 \<Longrightarrow> rmem c' a = rmem c a"
    "xr c' r_sp = rmem c' (xr c r_a2) + 120"
    "(r, off) \<in> set cs_slots \<Longrightarrow> xr c' r = rmem c' (rmem c' (xr c r_a2) + off)"
proof -
  define f where "f = saved S ((xr c)(r_sp := S)) cs_slots (rmem c)"
  define m where "m = f(xr c r_a1 := S)"
  define N where "N = m (xr c r_a2)"
  define X where "X = loaded (\<lambda>off. m (N + off)) (rev cs_slots) ((xr c)(r_sp := N))"
  have sp': "r_sp \<notin> fst ` set (rev cs_slots)"
    using cs_slots_facts(2) by simp
  have "rv_exec ([Addi r_sp r_sp (- 120)] @ stores r_sp cs_slots @ [Sd r_sp 0 r_a1, Ld r_sp 0 r_a2]) c
      = c\<lparr>xr := (xr c)(r_sp := N), rmem := m\<rparr>"
    by (simp add: rv_exec_append exec_stores xset_def S_def N_def m_def f_def)
  then have "rv_exec ([Addi r_sp r_sp (- 120)] @ stores r_sp cs_slots @ [Sd r_sp 0 r_a1, Ld r_sp 0 r_a2] @ loads r_sp (rev cs_slots)) c
      = c\<lparr>xr := X, rmem := m\<rparr>"
    using exec_loads [OF sp', of "c\<lparr>xr := (xr c)(r_sp := N), rmem := m\<rparr>"] by (simp add: rv_exec_append X_def)
  then have c': "c' = xset r_sp (X r_sp + 120) (c\<lparr>xr := X, rmem := m\<rparr>)"
    unfolding c'_def rv_context_switch_eq by (simp add: rv_exec_append)
  have xsp: "X r_sp = N"
    unfolding X_def by (subst loaded_other [OF sp']) simp
  have rm: "rmem c' = m"
    by (simp add: c' xset_def)
  show "rmem c' (xr c r_a1) = S"
    by (simp add: rm m_def)
  show "xr c' r_sp = rmem c' (xr c r_a2) + 120"
    by (simp add: rm N_def [symmetric]) (simp add: c' xset_def xsp)
  show "rmem c' a = rmem c a" if "a \<notin> frame S" "a \<noteq> xr c r_a1"
  proof -
    have "f a = rmem c a"
      unfolding f_def using that(1) frame_slot by (intro saved_other) auto
    then show ?thesis
      using that(2) by (simp add: rm m_def)
  qed
  assume r: "(r, off) \<in> set cs_slots"
  then have rsp: "r \<noteq> r_sp"
    using cs_slots_facts(2) by force
  show "rmem c' (S + off) = xr c r" if "xr c r_a1 \<notin> frame S"
  proof -
    have "S + off \<noteq> xr c r_a1"
      using that frame_slot [OF r, of S] by metis
    then show ?thesis
      using saved_slot [OF cs_slots_facts(1) r, of S "(xr c)(r_sp := S)" "rmem c"] rsp by (simp add: rm m_def f_def)
  qed
  have "X r = m (N + off)"
    unfolding X_def
  proof (rule loaded_slot)
    show "m (N + off') = m (N + off)" if "(r, off') \<in> set (rev cs_slots)" for off'
      using that r cs_slots_facts(3) by (auto dest: eq_key_imp_eq_value)
    show "r \<in> fst ` set (rev cs_slots)"
      using r by force
  qed
  then show "xr c' r = rmem c' (rmem c' (xr c r_a2) + off)"
    using rsp by (simp add: rm N_def [symmetric]) (simp add: c' xset_def)
qed

text \<open>
  A new thread: switching to the frame \<^verbatim>\<open>prepare_new_thread_stack\<close> built continues in
  \<^verbatim>\<open>sched_tramp1\<close>, which passes the two halves of the closure on and leaves the whole stack free.
\<close>

lemma rv_new_thread_enters:
  fixes c :: "'z rv_cpu_scheme"
  defines "c' \<equiv> rv_exec rv_context_switch c"
  assumes prep: "prepare_new_thread_stack st real meta tramp tp = Inr (st', n)"
    and held: "\<And>i. i < length st' \<Longrightarrow> rmem c' (B + 8 * of_nat i) = st' ! i"
    and slot: "rmem c' (xr c r_a2) = B + 8 * of_nat (length st' - 17)"
  shows "xr c' r_ra = tramp" "xr c' r_tp = tp" "xr (rv_exec sched_tramp1 c') r_a1 = real" "xr (rv_exec sched_tramp1 c') r_a2 = meta"
    "xr (rv_exec sched_tramp1 c') r_sp = B + 8 * of_nat (length st')" "n = 136"
proof -
  let ?fr = "(replicate 17 0)[16 := meta, 15 := real, 0 := tramp, 1 := tp]"
  define k where "k = length st - 17"
  from prep have st': "st' = take k st @ ?fr" and len: "17 \<le> length st"
    by (auto simp: prepare_new_thread_stack_def Let_def k_def split: if_splits)
  have l: "length (take k st) = k" "length st' = k + 17"
    using len by (simp_all add: st' k_def)
  have N: "rmem c' (xr c r_a2) = B + 8 * of_nat k"
    using slot l(2) by simp
  have w: "rmem c' (B + 8 * of_nat k + 8 * of_nat j) = ?fr ! j" if "j < 17" for j
  proof -
    have "st' ! (k + j) = ?fr ! j"
      unfolding st' nth_append l(1) by simp
    then show ?thesis
      using held [of "k + j"] that l(2) by (simp add: algebra_simps)
  qed
  note sw = rv_context_switch_ok [where c = c, folded c'_def]
  have m: "(r_ra, 0) \<in> set cs_slots" "(r_tp, 8) \<in> set cs_slots"
    by (simp_all add: cs_slots_def)
  show "xr c' r_ra = tramp" "xr c' r_tp = tp"
    using sw(5) [OF m(1)] sw(5) [OF m(2)] w [of 0] w [of 1] by (simp_all add: N)
  have sp: "xr c' r_sp = B + 8 * of_nat k + 120"
    using sw(4) by (simp add: N)
  show "xr (rv_exec sched_tramp1 c') r_a1 = real" "xr (rv_exec sched_tramp1 c') r_a2 = meta"
    using w [of 15] w [of 16] by (simp_all add: sched_tramp1_def xset_def sp algebra_simps)
  show "xr (rv_exec sched_tramp1 c') r_sp = B + 8 * of_nat (length st')"
    by (simp add: sched_tramp1_def xset_def sp l(2) algebra_simps)
qed (use prep in \<open>auto simp: prepare_new_thread_stack_def Let_def split: if_splits\<close>)

section \<open>Device memory\<close>

lemma rv_raw_io_roundtrip:
  "byte_width \<in> {1, 2, 4} \<Longrightarrow> \<exists>c'. rv_raw_io_out hh addr v byte_width c = Inr c'
     \<and> rv_raw_io_in hh addr byte_width c' = Inr (take_bit (8 * unat byte_width) v)"
  by (auto simp: rv_raw_io_out_def rv_raw_io_in_def le_read_write simp del: le_read.simps le_write.simps)

section \<open>Properties\<close>


definition example_rv :: rv_cpu where
  "example_rv = \<lparr>xr = (\<lambda>_. 0)(r_sp := 0x2000, r_s1 := 7, r_ra := 0x44, r_a1 := 0x100, r_a2 := 0x108), rmem = (\<lambda>_. 0)(0x108 := 0x3000),
     sepc = 0, scause = push_bit 63 1 OR 5, stval = 0, sstatus = 0, sie = 0, stvec = 0, satp = 0, time_csr = 0\<rparr>"


text \<open>
  C8: a thread that \<^verbatim>\<open>context_switch\<close> suspended continues where it was: when another thread
  switches back to it, and the saved frame and the saved stack pointer have been left
  alone meanwhile, the stack pointer, the return address, the thread pointer and all
  callee-saved registers are as before.
\<close>

theorem rv_context_switch_resumes:
  fixes c0 :: "'z rv_cpu_scheme"
  defines "S0 \<equiv> xr c0 r_sp - 120" and "A \<equiv> xr c0 r_a1"
  assumes A: "A \<notin> frame S0"
    and kept: "\<And>a. a \<in> insert A (frame S0) \<Longrightarrow> rmem c1 a = rmem (rv_exec rv_context_switch c0) a"
    and sw: "xr c1 r_a2 = A" "xr c1 r_a1 \<notin> insert A (frame S0)" "frame (xr c1 r_sp - 120) \<inter> insert A (frame S0) = {}"
    and r: "r \<in> {r_ra, r_sp, r_tp, r_s0, r_s1} \<union> {r_s2..r_s11}"
  shows "xr (rv_exec rv_context_switch c1) r = xr c0 r"
proof -
  let ?c2 = "rv_exec rv_context_switch c1"
  note w0 = rv_context_switch_ok [where c = c0, folded S0_def A_def] and w1 = rv_context_switch_ok [where c = c1, unfolded sw(1)]
  have k: "rmem ?c2 a = rmem (rv_exec rv_context_switch c0) a" if "a \<in> insert A (frame S0)" for a
    using w1(3) [of a] that sw(2,3) kept [OF that] by auto
  have N: "rmem ?c2 A = S0"
    using k [of A] w0(1) by simp
  have slot: "xr ?c2 q = xr c0 q" if "(q, off) \<in> set cs_slots" for q off
    using w1(5) [OF that] k [of "S0 + off"] frame_slot [OF that, of S0] w0(2) [OF that A] by (simp add: N)
  have "r = r_sp \<or> r \<in> fst ` set cs_slots"
    using r by (simp add: cs_slots_def) presburger
  then show ?thesis
    using slot w1(4) by (auto simp: N S0_def)
qed

theorem rv_context_switch_resumes_witness:
  "xr (rv_exec rv_context_switch ((rv_exec rv_context_switch example_rv)\<lparr>xr := (xr (rv_exec rv_context_switch example_rv))(r_a1 := 0x108,
     r_a2 := 0x100)\<rparr>)) r_s1 = 7"
proof -
  let ?c = "rv_exec rv_context_switch example_rv"
  let ?c1 = "?c\<lparr>xr := (xr ?c)(r_a1 := 0x108, r_a2 := 0x100)\<rparr>"
  note w = rv_context_switch_ok [where c = example_rv]
  have e: "xr example_rv r_sp - 120 = 0x1F88" "xr example_rv r_a1 = 0x100" "xr example_rv r_a2 = 0x108" "rmem example_rv 0x108 = 0x3000"
    by (simp_all add: example_rv_def)
  have A: "0x100 \<notin> frame 0x1F88" "0x108 \<notin> frame 0x1F88"
    by (simp_all add: frame_def)
  have sp: "xr ?c r_sp - 120 = 0x3000"
    using w(3,4) A by (simp add: e)
  have "a \<notin> frame 0x3000 \<or> a \<notin> insert 0x100 (frame 0x1F88)" for a
  proof -
    have "unat (a - 0x1F88) = unat (a - 0x3000) + 0x1078" if "unat (a - 0x3000) < 112"
    proof -
      define x where "x = a - 0x3000"
      have x: "a - 0x1F88 = x + 0x1078"
        by (simp add: x_def)
      show ?thesis
        using that unat_add_no_wrap [of x "0x1078"] unfolding x x_def [symmetric] by simp
    qed
    then show ?thesis
      by (auto simp: frame_def)
  qed
  then have "frame (xr ?c1 r_sp - 120) \<inter> insert (xr example_rv r_a1) (frame (xr example_rv r_sp - 120)) = {}"
    by (auto simp: sp e)
  moreover have "xr example_rv r_a1 \<notin> frame (xr example_rv r_sp - 120)"
    "xr ?c1 r_a1 \<notin> insert (xr example_rv r_a1) (frame (xr example_rv r_sp - 120))"
    using A by (simp_all add: e)
  ultimately have "xr (rv_exec rv_context_switch ?c1) r_s1 = xr example_rv r_s1"
    by (intro rv_context_switch_resumes) (simp_all add: e del: rv_exec_simps)
  then show ?thesis
    by (simp add: example_rv_def)
qed

end
