(* ===== verification/Pci.thy ===== *)
theory Pci
  imports Vmm Bytes
begin

text \<open>
  The PCI bus, \<^verbatim>\<open>kernel/src/pci/mod.rs\<close>: accesses to the configuration space through the
  memory window the firmware describes, the mapping of that window and of base
  address registers, and the recursive scan of the buses. The configuration
  space is a byte memory \<open>cfg_mem\<close> indexed by virtual address; the table found by
  the ACPI library is a parameter.
\<close>

section \<open>State and operations\<close>

definition PCI_BUS_MASTER :: u16 where "PCI_BUS_MASTER = push_bit 2 1"
definition PCI_MEM_SPACE :: u16 where "PCI_MEM_SPACE = push_bit 1 1"

record PCI_INFO =
  root_bus :: u64
  pci_seg :: u64
  ecam_base_addr :: u64

record pci_state = vmm_state +
  cfg_mem :: "u64 \<Rightarrow> u8"
  PCI_INF :: "PCI_INFO option"
  pci_devices :: "(u8 \<times> u8 \<times> u8) list option"

text \<open>The address every access computes.\<close>

definition pci_address :: "PCI_INFO \<Rightarrow> u8 \<Rightarrow> u8 \<Rightarrow> u8 \<Rightarrow> u16 \<Rightarrow> u64" where
  "pci_address info bus slot func offset =
     ecam_base_addr info + (push_bit 20 (ucast bus - root_bus info) + push_bit 15 (ucast slot)
       + push_bit 12 (ucast func) + ucast offset)"

definition pci_read_dword :: "u8 \<Rightarrow> u8 \<Rightarrow> u8 \<Rightarrow> u16 \<Rightarrow> 'z pci_state_scheme \<Rightarrow> panic + u32" where
  "pci_read_dword bus slot func offset s =
     and_then (unwrap_opt (PCI_INF s)) (\<lambda>info.
       Inr (ucast (le_read 4 (pci_address info bus slot func offset) (cfg_mem s))))"

definition pci_write_dword ::
    "u8 \<Rightarrow> u8 \<Rightarrow> u8 \<Rightarrow> u16 \<Rightarrow> u32 \<Rightarrow> 'z pci_state_scheme \<Rightarrow> panic + 'z pci_state_scheme" where
  "pci_write_dword bus slot func offset data s =
     and_then (unwrap_opt (PCI_INF s)) (\<lambda>info.
       Inr (s\<lparr>cfg_mem := le_write 4 (pci_address info bus slot func offset) (ucast data) (cfg_mem s)\<rparr>))"

definition pci_read_word :: "u8 \<Rightarrow> u8 \<Rightarrow> u8 \<Rightarrow> u16 \<Rightarrow> 'z pci_state_scheme \<Rightarrow> panic + u16" where
  "pci_read_word bus slot func offset s =
     and_then (unwrap_opt (PCI_INF s)) (\<lambda>info.
       Inr (ucast (le_read 2 (pci_address info bus slot func offset) (cfg_mem s))))"

definition pci_write_word ::
    "u8 \<Rightarrow> u8 \<Rightarrow> u8 \<Rightarrow> u16 \<Rightarrow> u16 \<Rightarrow> 'z pci_state_scheme \<Rightarrow> panic + 'z pci_state_scheme" where
  "pci_write_word bus slot func offset data s =
     and_then (unwrap_opt (PCI_INF s)) (\<lambda>info.
       Inr (s\<lparr>cfg_mem := le_write 2 (pci_address info bus slot func offset) (ucast data) (cfg_mem s)\<rparr>))"

definition pci_read_byte :: "u8 \<Rightarrow> u8 \<Rightarrow> u8 \<Rightarrow> u16 \<Rightarrow> 'z pci_state_scheme \<Rightarrow> panic + u8" where
  "pci_read_byte bus slot func offset s =
     and_then (unwrap_opt (PCI_INF s)) (\<lambda>info.
       Inr (ucast (le_read 1 (pci_address info bus slot func offset) (cfg_mem s))))"

definition pci_write_byte ::
    "u8 \<Rightarrow> u8 \<Rightarrow> u8 \<Rightarrow> u16 \<Rightarrow> u8 \<Rightarrow> 'z pci_state_scheme \<Rightarrow> panic + 'z pci_state_scheme" where
  "pci_write_byte bus slot func offset data s =
     and_then (unwrap_opt (PCI_INF s)) (\<lambda>info.
       Inr (s\<lparr>cfg_mem := le_write 1 (pci_address info bus slot func offset) (ucast data) (cfg_mem s)\<rparr>))"

text \<open>
  Mapping \<open>len\<close> bytes at \<open>base\<close> of a memory register, which both branches of
  \<^verbatim>\<open>pci_map_bar\<close> do in the same way.
\<close>

definition pci_map_base ::
    "u64 \<Rightarrow> 'z pci_state_scheme arch_ops \<Rightarrow> u64 \<Rightarrow> usize \<Rightarrow> 'z pci_state_scheme
      \<Rightarrow> panic + (u64 option \<times> 'z pci_state_scheme)" where
  "pci_map_base hh A base len s =
     (let base_aligned = align_down base PAGE_SIZE;
          end_aligned = align_up (base + len) PAGE_SIZE;
          map_len = end_aligned - base_aligned;
          offset_into_mapping = base - base_aligned;
          p = range_step base_aligned end_aligned 4096
      in and_then (early_init_pagemap s) (\<lambda>pm.
         and_then (vmm_alloc_with_phys hh A pm map_len (VMM_NOCACHE OR VMM_WRITE OR VMM_GLOBAL) p s) (\<lambda>(virt, s1).
           Inr (Some (virt + offset_into_mapping), s1))))"

definition pci_map_bar ::
    "u64 \<Rightarrow> 'z pci_state_scheme arch_ops \<Rightarrow> u8 \<times> u8 \<times> u8 \<Rightarrow> u16 \<Rightarrow> u32 \<Rightarrow> usize \<Rightarrow> 'z pci_state_scheme
      \<Rightarrow> panic + (u64 option \<times> 'z pci_state_scheme)" where
  "pci_map_bar hh A location bar_num offset len st =
     (case location of (l0, l1, l2) \<Rightarrow>
      and_then (pci_read_dword l2 l1 l0 (0x10 + bar_num * 4) st) (\<lambda>d.
        let s = ucast d :: u64
        in if s AND 1 \<noteq> 0 then Inr (None, st)
           else if drop_bit 1 s AND 2 \<noteq> 0
           then and_then (pci_read_dword l2 l1 l0 (0x10 + (bar_num + 1) * 4) st) (\<lambda>e.
                  let f = ucast e :: u64
                  in pci_map_base hh A
                       (((s AND 0xFFFFFFF0) OR push_bit 32 (f AND 0xFFFFFFFF)) + ucast offset) len st)
           else pci_map_base hh A ((s AND 0xFFFFFFF0) + ucast offset) len st))"

text \<open>The class of a function; what is printed from it is left out.\<close>

definition pci_device_print ::
    "u8 \<Rightarrow> u8 \<Rightarrow> u8 \<Rightarrow> u16 \<Rightarrow> 'z pci_state_scheme \<Rightarrow> panic + (usize \<times> usize \<times> usize)" where
  "pci_device_print bus slot func ve s =
     and_then (pci_read_dword bus slot func 0x8 s) (\<lambda>d.
       let be = ucast d :: usize;
           prog_if = drop_bit 8 be AND 0xFF;
           subcl = drop_bit 16 be AND 0xFF;
           cl = drop_bit 24 be AND 0xFF
       in Inr (cl, subcl, prog_if))"

text \<open>
  The scan calls itself on the bus behind a bridge; the first argument bounds
  the depth of the calls. The configuration space is total: a read of any bus, slot and
  function yields a value, and an absent function reads as all ones.
\<close>

primrec pci_scan ::
    "nat \<Rightarrow> u8 \<Rightarrow> (u8 \<times> u8 \<times> u8) list \<Rightarrow> 'z pci_state_scheme \<Rightarrow> panic + (u8 \<times> u8 \<times> u8) list" where
  "pci_scan 0 bus devs s = Inl OutOfFuel"
| "pci_scan (Suc depth) bus devs s =
     for_each (\<lambda>i devs.
       and_then (pci_read_word bus i 0 0x0 s) (\<lambda>ve.
       if ve = 0xFFFF then Inr devs
       else and_then (pci_read_dword bus i 0 0xC s) (\<lambda>h.
         let he_type = drop_bit 16 h AND 0xFF
         in if he_type AND push_bit 7 1 \<noteq> 0
            then for_each (\<lambda>j devs.
              and_then (pci_read_word bus i j 0x0 s) (\<lambda>v.
              if v = 0xFFFF then Inr devs
              else let devs1 = devs @ [(bus, i, j)]
                in and_then (pci_device_print bus i j ve s) (\<lambda>c.
                   if fst c = 0x6 \<and> fst (snd c) = 0x4
                   then and_then (pci_read_word bus i j 0x18 s) (\<lambda>w.
                          pci_scan depth (ucast (drop_bit 8 w)) devs1 s)
                   else Inr devs1))) (map of_nat [0..<8]) devs
            else and_then (pci_device_print bus i 0 ve s) (\<lambda>c.
              let devs1 = devs @ [(bus, i, 0)]
              in if fst c = 0x6 \<and> fst (snd c) = 0x4
                 then and_then (pci_read_word bus i 0 0x18 s) (\<lambda>w.
                        pci_scan depth (ucast (drop_bit 8 w)) devs1 s)
                 else Inr devs1)))) (map of_nat [0..<32]) devs"

text \<open>
  \<^verbatim>\<open>pci_init\<close>. The status of the search and the table it found are parameters: the
  length field of the header and the entries behind it, and so are the texts the
  library gives for status codes.
\<close>

record acpi_mcfg_entry =
  mcfg_address :: u64
  mcfg_segment :: u16
  mcfg_start_bus :: u8
  mcfg_end_bus :: u8

record acpi_mcfg =
  mcfg_length :: u32
  mcfg_entries :: "acpi_mcfg_entry list"

definition check_ustatus :: "(u32 \<Rightarrow> string) \<Rightarrow> u32 \<Rightarrow> string + unit" where
  "check_ustatus to_string s = (if s \<noteq> 0 then Inl (to_string s) else Inr ())"

definition ecam_region_size :: "u8 \<Rightarrow> u8 \<Rightarrow> usize" where
  "ecam_region_size start_bus end_bus = push_bit 20 ((ucast end_bus - ucast start_bus) + 1)"

definition once_set :: "'a \<Rightarrow> 'a option \<Rightarrow> 'a option" where
  "once_set v c = (case c of None \<Rightarrow> Some v | Some w \<Rightarrow> Some w)"

definition pci_init ::
    "(u32 \<Rightarrow> string) \<Rightarrow> u64 \<Rightarrow> 'z pci_state_scheme arch_ops \<Rightarrow> u32 \<times> acpi_mcfg \<Rightarrow> 'z pci_state_scheme \<Rightarrow> panic + 'z pci_state_scheme" where
  "pci_init to_string hh A found s =
     and_then (unwrap_res (check_ustatus to_string (fst found))) (\<lambda>_.
       let mcfg = snd found; num_entries = ((ucast (mcfg_length mcfg) - 44) :: usize) div 16
       in if num_entries = 0 then Inr s
          else case mcfg_entries mcfg of
            [] \<Rightarrow> Inl BadPointer
          | first # _ \<Rightarrow>
              let size = ecam_region_size (mcfg_start_bus first) (mcfg_end_bus first);
                  pages = range_step (mcfg_address first) (mcfg_address first + size) 4096
              in and_then (early_init_pagemap s) (\<lambda>pm.
                 and_then (vmm_alloc_with_phys hh A pm size (VMM_WRITE OR VMM_NOCACHE) pages s) (\<lambda>(virt, s1).
                   let s2 = s1\<lparr>PCI_INF := once_set \<lparr>root_bus = ucast (mcfg_start_bus first),
                              pci_seg = ucast (mcfg_segment first), ecam_base_addr = virt\<rparr> (PCI_INF s1)\<rparr>
                   in and_then (pci_scan 256 (mcfg_start_bus first) [] s2) (\<lambda>v.
                        Inr (s2\<lparr>pci_devices := once_set v (pci_devices s2)\<rparr>)))))"

section \<open>Addresses\<close>

lemma unat_ucast_wide: "LENGTH('a :: len) \<le> LENGTH('b :: len) \<Longrightarrow> unat (ucast (x :: 'a word) :: 'b word) = unat x"
  by (simp add: unsigned_ucast_eq take_bit_nat_eq_self_iff less_le_trans [OF unsigned_less])

lemma unat_ucast_8_64 [simp]: "unat (ucast (b :: u8) :: u64) = unat b"
  by (rule unat_ucast_wide) simp

lemma unat_ucast_16_64 [simp]: "unat (ucast (b :: u16) :: u64) = unat b"
  by (rule unat_ucast_wide) simp

text \<open>The number of a function among those of the window, 4096 bytes each.\<close>

definition pci_fn :: "u8 \<Rightarrow> u8 \<Rightarrow> u8 \<Rightarrow> u8 \<Rightarrow> nat" where
  "pci_fn start bus slot func = ((unat bus - unat start) * 32 + unat slot) * 8 + unat func"

lemma digits_eq: "a * n + b = a' * n + b' \<Longrightarrow> b < n \<Longrightarrow> b' < n \<Longrightarrow> a = a' \<and> b = (b' :: nat)"
  by (metis add.commute div_mult_self3 div_less less_nat_zero_code mod_less mod_mult_self3 add_0_right)

lemma pci_fn_inj:
  assumes "pci_fn st b i j = pci_fn st b' i' j'" "st \<le> b" "st \<le> b'" "i < 32" "i' < 32" "j < 8" "j' < 8"
  shows "(b, i, j) = (b', i', j')"
proof -
  have l: "unat i < 32" "unat i' < 32" "unat j < 8" "unat j' < 8" "unat st \<le> unat b" "unat st \<le> unat b'"
    using assms(2-7) by (simp_all add: word_less_nat_alt word_le_nat_alt)
  from digits_eq [OF assms(1) [unfolded pci_fn_def] l(3,4)]
  have "unat j = unat j'" and e: "(unat b - unat st) * 32 + unat i = (unat b' - unat st) * 32 + unat i'"
    by simp_all
  moreover from digits_eq [OF e l(1,2)] have "unat i = unat i'" "unat b - unat st = unat b' - unat st"
    by simp_all
  ultimately show ?thesis
    using l(5,6) by (simp add: word_unat_eq_iff)
qed

lemma pci_fn_bound:
  assumes "st \<le> b" "b \<le> hi" "i < 32" "j < 8"
  shows "pci_fn st b i j < (unat hi - unat st + 1) * 256"
proof -
  have l: "unat i < 32" "unat j < 8" "unat b - unat st \<le> unat hi - unat st"
    using assms by (simp_all add: word_less_nat_alt word_le_nat_alt)
  then show ?thesis
    unfolding pci_fn_def by (simp add: algebra_simps)
qed

lemma unat_ecam_region_size:
  assumes "st \<le> hi"
  shows "unat (ecam_region_size st hi) = (unat hi - unat st + 1) * 2 ^ 20"
proof -
  have le: "unat st \<le> unat hi"
    using assms by (simp add: word_le_nat_alt)
  have l: "unat hi < 256"
    using unsigned_less [of hi] by simp
  have d: "unat (ucast hi - ucast st + 1 :: u64) = unat hi - unat st + 1"
    using le l by (simp add: unat_word_ariths unat_sub_if' del: One_nat_def)
  have "unat (push_bit 20 x) = unat x * 2 ^ 20" if "unat x \<le> 256" for x :: u64
    using that by (simp add: push_bit_eq_mult unat_word_ariths(2))
  from this [of "ucast hi - ucast st + 1"] show ?thesis
    unfolding ecam_region_size_def d using le l by simp
qed

lemma unat_pci_address:
  assumes "root_bus info = ucast st" "st \<le> b" "i < 32" "j < 8"
    and "unat (ecam_base_addr info) + 4096 * pci_fn st b i j + unat off < 2 ^ 64"
  shows "unat (pci_address info b i j off) = unat (ecam_base_addr info) + 4096 * pci_fn st b i j + unat off"
proof -
  have le: "unat st \<le> unat b"
    using assms by (simp add: word_le_nat_alt)
  have eq: "pci_address info b i j off = of_nat (unat (ecam_base_addr info) + 4096 * pci_fn st b i j + unat off)"
    using le by (simp add: pci_address_def assms(1) pci_fn_def push_bit_eq_mult of_nat_diff algebra_simps)
  show ?thesis
    unfolding eq using assms(5) by (simp add: unat_of_nat del: of_nat_add of_nat_mult)
qed

text \<open>The window \<^verbatim>\<open>pci_init\<close> has mapped: the buses from \<open>st\<close> to \<open>hi\<close>, one after the other.\<close>

definition pci_window :: "PCI_INFO \<Rightarrow> u8 \<Rightarrow> u8 \<Rightarrow> bool" where
  "pci_window info st hi \<longleftrightarrow> root_bus info = ucast st \<and> st \<le> hi
     \<and> unat (ecam_base_addr info) + unat (ecam_region_size st hi) \<le> 2 ^ 64"

text \<open>Which functions and which of their bytes an access may name.\<close>

definition pci_fn_ok :: "u8 \<Rightarrow> u8 \<Rightarrow> u8 \<times> u8 \<times> u8 \<Rightarrow> bool" where
  "pci_fn_ok st hi f = (case f of (b, i, j) \<Rightarrow> st \<le> b \<and> b \<le> hi \<and> i < 32 \<and> j < 8)"

lemma pci_fn_page:
  assumes "st \<le> hi" "pci_fn_ok st hi (b, i, j)"
  shows "4096 * pci_fn st b i j + 4096 \<le> unat (ecam_region_size st hi)"
  using pci_fn_bound [of st b hi i j] assms by (simp add: pci_fn_ok_def unat_ecam_region_size)

lemma unat_pci_byte:
  assumes w: "pci_window info st hi" and f: "pci_fn_ok st hi (b, i, j)" and k: "unat off + k < 4096"
  shows "unat (pci_address info b i j off + of_nat k) = unat (ecam_base_addr info) + 4096 * pci_fn st b i j + (unat off + k)"
proof -
  have le: "unat (ecam_base_addr info) + 4096 * pci_fn st b i j + 4096 \<le> 2 ^ 64"
    using pci_fn_page [OF _ f] w by (simp add: pci_window_def)
  have "unat (pci_address info b i j off) = unat (ecam_base_addr info) + 4096 * pci_fn st b i j + unat off"
    using w f le k by (intro unat_pci_address) (simp_all add: pci_window_def pci_fn_ok_def)
  then show ?thesis
    using le k by (simp add: unat_word_ariths(1) unat_of_nat)
qed

text \<open>Two accesses to different functions share no byte.\<close>

lemma pci_bytes_disjoint:
  assumes "pci_window info st hi" "pci_fn_ok st hi (b, i, j)" "pci_fn_ok st hi (b', i', j')" "(b, i, j) \<noteq> (b', i', j')"
    and "unat off + k < 4096" "unat off' + k' < 4096"
  shows "pci_address info b i j off + of_nat k \<noteq> pci_address info b' i' j' off' + of_nat k'"
proof
  assume "pci_address info b i j off + of_nat k = pci_address info b' i' j' off' + of_nat k'"
  then have "pci_fn st b i j * 4096 + (unat off + k) = pci_fn st b' i' j' * 4096 + (unat off' + k')"
    using unat_pci_byte [OF assms(1,2,5)] unat_pci_byte [OF assms(1,3,6)] by simp
  then have "pci_fn st b i j = pci_fn st b' i' j'"
    using digits_eq assms(5,6) by blast
  then show False
    using pci_fn_inj [of st b i j b' i' j'] assms(2-4) by (simp add: pci_fn_ok_def)
qed

lemma pci_write_frame:
  assumes "pci_window info st hi" "pci_fn_ok st hi (b, i, j)" "pci_fn_ok st hi (b', i', j')" "(b', i', j') \<noteq> (b, i, j)"
    and "unat off + n \<le> 4096" "unat off' + n' \<le> 4096"
  shows "le_read n' (pci_address info b' i' j' off') (le_write n (pci_address info b i j off) v m)
    = le_read n' (pci_address info b' i' j' off') m"
proof (rule le_read_cong, rule le_write_other)
  fix k k' assume "k < n'" "k' < n"
  then show "pci_address info b' i' j' off' + of_nat k \<noteq> pci_address info b i j off + of_nat k'"
    using assms by (intro pci_bytes_disjoint) simp_all
qed

lemma pci_write_bytes:
  assumes "pci_window info st hi" "pci_fn_ok st hi (b, i, j)" "unat off + n \<le> 4096"
    and "le_write n (pci_address info b i j off) v m x \<noteq> m x"
  shows "unat x - unat (ecam_base_addr info) \<in> {4096 * pci_fn st b i j + unat off..<4096 * pci_fn st b i j + unat off + n}"
    and "ecam_base_addr info \<le> x"
proof -
  obtain k where k: "k < n" "x = pci_address info b i j off + of_nat k"
    using le_write_other assms(4) by metis
  with unat_pci_byte [OF assms(1,2), of off k] assms(3)
  have "unat x = unat (ecam_base_addr info) + 4096 * pci_fn st b i j + (unat off + k)"
    by simp
  with k(1) show "unat x - unat (ecam_base_addr info) \<in> {4096 * pci_fn st b i j + unat off..<4096 * pci_fn st b i j + unat off + n}"
    "ecam_base_addr info \<le> x"
    by (auto simp: word_le_nat_alt)
qed

section \<open>The scan\<close>

text \<open>
  What the PCI specification says of the registers the scan reads: a function is
  there unless its vendor is all ones, bit 7 of the header type (bit 23 of its
  register) says that a device has several functions, class 6 with subclass 4
  is a bridge, and the byte at 0x19 of a bridge is the number of the bus behind it.
\<close>

definition pci_present :: "'z pci_state_scheme \<Rightarrow> u8 \<Rightarrow> u8 \<Rightarrow> u8 \<Rightarrow> bool" where
  "pci_present s b i j \<longleftrightarrow> pci_read_word b i j 0 s \<noteq> Inr 0xFFFF"

definition pci_multi :: "'z pci_state_scheme \<Rightarrow> u8 \<Rightarrow> u8 \<Rightarrow> bool" where
  "pci_multi s b i = (case pci_read_dword b i 0 0xC s of Inr d \<Rightarrow> bit d 23 | Inl _ \<Rightarrow> False)"

definition pci_bridge :: "'z pci_state_scheme \<Rightarrow> u8 \<Rightarrow> u8 \<Rightarrow> u8 \<Rightarrow> bool" where
  "pci_bridge s b i j = (case pci_read_dword b i j 8 s of Inr d \<Rightarrow> drop_bit 16 d = 0x0604 | Inl _ \<Rightarrow> False)"

definition pci_secondary :: "'z pci_state_scheme \<Rightarrow> u8 \<Rightarrow> u8 \<Rightarrow> u8 \<Rightarrow> u8" where
  "pci_secondary s b i j = (case pci_read_byte b i j 0x19 s of Inr n \<Rightarrow> n | Inl _ \<Rightarrow> 0)"

definition pci_visible :: "'z pci_state_scheme \<Rightarrow> u8 \<Rightarrow> u8 \<Rightarrow> u8 \<Rightarrow> bool" where
  "pci_visible s b i j \<longleftrightarrow> i < 32 \<and> j < 8 \<and> pci_present s b i 0 \<and> (if pci_multi s b i then pci_present s b i j else j = 0)"

inductive bus_reach :: "'z pci_state_scheme \<Rightarrow> u8 \<Rightarrow> u8 \<Rightarrow> bool" for s b0 where
  bus_start: "bus_reach s b0 b0"
| bus_behind: "bus_reach s b0 b \<Longrightarrow> pci_visible s b i j \<Longrightarrow> pci_bridge s b i j \<Longrightarrow>
    bus_reach s b0 (pci_secondary s b i j)"

lemma bus_reach_trans: "bus_reach s b c \<Longrightarrow> bus_reach s a b \<Longrightarrow> bus_reach s a c"
  by (induction rule: bus_reach.induct) (auto intro: bus_reach.intros)

text \<open>Reachability by the first bridge crossed rather than the last.\<close>

lemma bus_reach_first:
  "bus_reach s b c \<longleftrightarrow> c = b \<or> (\<exists>i j. pci_visible s b i j \<and> pci_bridge s b i j \<and> bus_reach s (pci_secondary s b i j) c)"
proof
  show "bus_reach s b c \<Longrightarrow> c = b \<or> (\<exists>i j. pci_visible s b i j \<and> pci_bridge s b i j \<and> bus_reach s (pci_secondary s b i j) c)"
    by (induction rule: bus_reach.induct) (auto intro: bus_reach.intros)
qed (auto intro: bus_reach.intros bus_reach_trans)

lemma le_read_2_hi: "drop_bit 8 (ucast (le_read 2 a m) :: u16) = ucast (m (a + 1))"
  by (rule bit_eqI) (auto simp: numeral_2_eq_2 bit_simps dest: bit_imp_le_length)

lemma ucast_8_back [simp]: "ucast (ucast (x :: u8) :: u16) = x" "ucast (ucast (x :: u8) :: u64) = x"
  by (rule bit_eqI, auto simp: bit_simps)+

lemma pci_secondary_eq:
  assumes "PCI_INF s = Some info"
  shows "and_then (pci_read_word b i j 0x18 s) (\<lambda>w. f (ucast (drop_bit 8 w))) = f (pci_secondary s b i j)"
proof -
  have "pci_address info b i j 0x19 = pci_address info b i j 0x18 + 1"
    by (simp add: pci_address_def)
  then show ?thesis
    by (simp add: pci_read_word_def pci_secondary_def pci_read_byte_def assms unwrap_opt_def le_read_2_hi)
qed

lemma low_byte: "x AND 0xFF = take_bit 8 (x :: 'a :: len word)"
  by (simp add: take_bit_eq_mask mask_eq_exp_minus_1)

lemma pci_multi_eq:
  assumes "PCI_INF s = Some info"
  shows "and_then (pci_read_dword b i 0 0xC s) (\<lambda>h. if (drop_bit 16 h AND 0xFF) AND push_bit 7 1 \<noteq> 0 then f else g) = (if pci_multi s b i then f else g)"
proof -
  have "(drop_bit 16 h AND 0xFF) AND push_bit 7 1 \<noteq> 0 \<longleftrightarrow> bit h 23" for h :: u32
    unfolding bit_iff_and_push_bit_not_eq_0 [symmetric] low_byte by (simp add: bit_simps)
  then show ?thesis
    by (simp add: pci_read_dword_def pci_multi_def assms unwrap_opt_def Let_def)
qed

lemma pci_bridge_eq:
  assumes "PCI_INF s = Some info"
  shows "and_then (pci_device_print b i j ve s) (\<lambda>c. if fst c = 0x6 \<and> fst (snd c) = 0x4 then f else g)
    = (if pci_bridge s b i j then f else g)"
proof -
  have "drop_bit 24 (ucast d :: u64) AND 0xFF = 6 \<and> drop_bit 16 (ucast d :: u64) AND 0xFF = 4 \<longleftrightarrow> drop_bit 16 d = 0x604"
    (is "?l \<longleftrightarrow> ?r") for d :: u32
  proof -
    define n where "n = unat d div 2 ^ 16"
    have n: "n div 256 < 256" "unat d div 2 ^ 24 = n div 256"
      using unsigned_less [where ?'a = nat and w = d] by (simp_all add: n_def div_mult2_eq [symmetric] less_mult_imp_div_less)
    have field: "unat (take_bit 8 (drop_bit k (ucast d :: u64))) = unat d div 2 ^ k mod 256" for k
      using unsigned_less [where ?'a = nat and w = d]
      by (simp add: unsigned_take_bit_eq unsigned_drop_bit_eq unat_ucast_wide) (simp add: take_bit_eq_mod drop_bit_eq_div)
    have "?l \<longleftrightarrow> n div 256 mod 256 = 6 \<and> n mod 256 = 4"
      unfolding low_byte word_unat_eq_iff field using n(2) by (simp add: n_def)
    also have "\<dots> \<longleftrightarrow> n = 0x604"
    proof
      assume "n div 256 mod 256 = 6 \<and> n mod 256 = 4"
      then have "n = 6 * 256 + 4"
        using n(1) by (metis div_mult_mod_eq mod_less)
      then show "n = 0x604"
        by simp
    qed simp
    also have "\<dots> \<longleftrightarrow> ?r"
      using unsigned_less [where ?'a = nat and w = d] unfolding word_unat_eq_iff unsigned_drop_bit_eq
      by (simp add: n_def drop_bit_eq_div take_bit_nat_eq_self)
    finally show ?thesis .
  qed
  then show ?thesis
    by (simp add: pci_device_print_def pci_read_dword_def pci_bridge_def assms unwrap_opt_def Let_def)
qed

text \<open>The result of the scan as a list, in the order of the visits.\<close>

definition fn_list :: "(u8 \<Rightarrow> (u8 \<times> u8 \<times> u8) list) \<Rightarrow> 'z pci_state_scheme \<Rightarrow> u8 \<Rightarrow> u8 \<Rightarrow> u8 \<Rightarrow> (u8 \<times> u8 \<times> u8) list" where
  "fn_list behind s b i j = (b, i, j) # (if pci_bridge s b i j then behind (pci_secondary s b i j) else [])"

primrec bus_list :: "nat \<Rightarrow> 'z pci_state_scheme \<Rightarrow> u8 \<Rightarrow> (u8 \<times> u8 \<times> u8) list" where
  "bus_list 0 s b = []"
| "bus_list (Suc d) s b = concat (map (\<lambda>i. concat (map (\<lambda>j. if pci_visible s b i j then fn_list (bus_list d s) s b i j else [])
     (map of_nat [0..<8]))) (map of_nat [0..<32]))"

lemma for_each_append_lists:
  assumes "\<And>x a. x \<in> set xs \<Longrightarrow> f x a = Inr (a @ g x)"
  shows "for_each f xs a = Inr (a @ concat (map g xs))"
  using assms by (induction xs arbitrary: a) simp_all

lemma set_words: "unat m = n \<Longrightarrow> set (map of_nat [0..<n]) = {j :: u8. j < m}"
proof -
  assume m: "unat m = n"
  have "x \<in> of_nat ` {0..<n}" if "x < m" for x
    using that m by (intro image_eqI [of _ _ "unat x"]) (simp_all add: word_less_nat_alt)
  moreover have "of_nat k < m" if "k < n" for k
    using that m by (simp add: word_less_nat_alt unat_of_nat order.strict_trans1 [OF mod_less_eq_dividend])
  ultimately show ?thesis
    by auto
qed

lemma set_concat_words:
  "unat m = n \<Longrightarrow> x \<in> set (concat (map f (map of_nat [0..<n]))) \<longleftrightarrow> (\<exists>i :: u8. i < m \<and> x \<in> set (f i))"
  using set_words [of m n] by (simp only: set_concat set_map [of f] UN_iff) auto

text \<open>
  When every bridge leads to a higher bus number, which is how firmware numbers
  buses, 256 nested calls are enough.
\<close>

definition bus_order :: "'z pci_state_scheme \<Rightarrow> u8 \<Rightarrow> bool" where
  "bus_order s b0 \<longleftrightarrow> (\<forall>b i j. bus_reach s b0 b \<longrightarrow> pci_visible s b i j \<longrightarrow> pci_bridge s b i j \<longrightarrow> b < pci_secondary s b i j)"

lemma bus_order_step:
  assumes "bus_order s b0" "bus_reach s b0 b" "256 - unat b \<le> Suc d" "pci_visible s b i j" "pci_bridge s b i j"
  shows "bus_reach s b0 (pci_secondary s b i j)" "256 - unat (pci_secondary s b i j) \<le> d"
proof -
  show "bus_reach s b0 (pci_secondary s b i j)"
    using assms(2,4,5) by (rule bus_behind)
  have "b < pci_secondary s b i j"
    using assms(1,2,4,5) by (simp add: bus_order_def)
  then show "256 - unat (pci_secondary s b i j) \<le> d"
    using assms(3) by (simp add: word_less_nat_alt)
qed

lemma fn_list_scan:
  assumes "PCI_INF s = Some info"
    and "\<And>a. pci_bridge s b i j \<Longrightarrow> scan (pci_secondary s b i j) a s = Inr (a @ behind (pci_secondary s b i j))"
  shows "(if pci_bridge s b i j then and_then (pci_read_word b i j 0x18 s) (\<lambda>w. scan (ucast (drop_bit 8 w)) (a @ [(b, i, j)]) s)
      else Inr (a @ [(b, i, j)])) = Inr (a @ fn_list behind s b i j)"
  using assms(2) by (simp add: pci_secondary_eq [OF assms(1), of _ _ _ "\<lambda>w. scan w (a @ [(b, i, j)]) s"] fn_list_def)

lemma pci_word_eq:
  assumes "PCI_INF s = Some info"
  shows "and_then (pci_read_word b i j 0 s) (\<lambda>v. if v = 0xFFFF then f else g v) =
    (if pci_present s b i j then g (projr (pci_read_word b i j 0 s)) else f)"
  using assms by (simp add: pci_read_word_def pci_present_def unwrap_opt_def)

lemma pci_scan_eq:
  assumes info: "PCI_INF s = Some info"
  shows "bus_order s b0 \<Longrightarrow> bus_reach s b0 b \<Longrightarrow> 256 - unat b \<le> d \<Longrightarrow> pci_scan d b a s = Inr (a @ bus_list d s b)"
proof (induction d arbitrary: b a)
  case 0
  then show ?case
    using unsigned_less [where ?'a = nat and w = b] by simp
next
  case (Suc d)
  have IH: "pci_scan d (pci_secondary s b i j) a s = Inr (a @ bus_list d s (pci_secondary s b i j))"
    if "pci_visible s b i j" "pci_bridge s b i j" for i j a
    by (rule Suc.IH [OF Suc.prems(1) bus_order_step [OF Suc.prems that]])
  have fn: "(if pci_bridge s b i j then and_then (pci_read_word b i j 0x18 s)
        (\<lambda>w. pci_scan d (ucast (drop_bit 8 w)) (a @ [(b, i, j)]) s) else Inr (a @ [(b, i, j)]))
      = Inr (a @ fn_list (bus_list d s) s b i j)" if "pci_visible s b i j" for i j a
    by (rule fn_list_scan [OF info, where scan = "pci_scan d"]) (rule IH [OF that])
  show ?case
    unfolding pci_scan.simps bus_list.simps
  proof (rule for_each_append_lists, goal_cases)
    case (1 i a)
    then have i: "i < 32"
      using set_words [of 32 32] by simp
    note eqs = Let_def pci_word_eq [OF info] pci_multi_eq [OF info] pci_bridge_eq [OF info]
    have multi: "for_each (\<lambda>j devs. if pci_present s b i j then (if pci_bridge s b i j
          then and_then (pci_read_word b i j 0x18 s) (\<lambda>w. pci_scan d (ucast (drop_bit 8 w)) (devs @ [(b, i, j)]) s)
          else Inr (devs @ [(b, i, j)])) else Inr devs) (map of_nat [0..<8]) a
        = Inr (a @ concat (map (\<lambda>j. if pci_visible s b i j then fn_list (bus_list d s) s b i j else []) (map of_nat [0..<8])))"
      if "pci_present s b i 0" "pci_multi s b i"
    proof (rule for_each_append_lists, goal_cases)
      case (1 j a)
      then have "pci_visible s b i j \<longleftrightarrow> pci_present s b i j"
        using set_words [of 8 8] i that by (simp add: pci_visible_def)
      then show ?case
        using fn [of i j a] by simp
    qed
    have single: "concat (map (\<lambda>j. if pci_visible s b i j then fn_list (bus_list d s) s b i j else []) (map of_nat [0..<8]))
        = fn_list (bus_list d s) s b i 0" if "pci_present s b i 0" "\<not> pci_multi s b i"
      using i that by (simp add: pci_visible_def upt_rec)
    have none: "\<not> pci_visible s b i j" if "\<not> pci_present s b i 0" for j
      using that by (simp add: pci_visible_def)
    have "pci_visible s b i 0" if "pci_present s b i 0" "\<not> pci_multi s b i"
      using i that by (simp add: pci_visible_def)
    then show ?case
      unfolding eqs using multi single none fn [of i 0 a] by simp
  qed
qed

lemma set_bus_list:
  "bus_order s b0 \<Longrightarrow> bus_reach s b0 b \<Longrightarrow> 256 - unat b \<le> d \<Longrightarrow>
    set (bus_list d s b) = {(c, i, j). bus_reach s b c \<and> pci_visible s c i j}"
proof (induction d arbitrary: b)
  case 0
  then show ?case
    using unsigned_less [where ?'a = nat and w = b] by simp
next
  case (Suc d)
  have IH: "set (bus_list d s (pci_secondary s b i j))
      = {(c, i', j'). bus_reach s (pci_secondary s b i j) c \<and> pci_visible s c i' j'}"
    if "pci_visible s b i j" "pci_bridge s b i j" for i j
    by (rule Suc.IH [OF Suc.prems(1) bus_order_step [OF Suc.prems that]])
  have w: "unat (8 :: u8) = 8" "unat (32 :: u8) = 32"
    by simp_all
  have mem: "x \<in> set (bus_list (Suc d) s b) \<longleftrightarrow> (\<exists>i j. pci_visible s b i j \<and> x \<in> set (fn_list (bus_list d s) s b i j))" for x
    unfolding bus_list.simps set_concat_words [OF w(1)] set_concat_words [OF w(2)]
    by (auto simp: pci_visible_def split: if_splits)
  have "x \<in> set (bus_list (Suc d) s b) \<longleftrightarrow> x \<in> {(c, i, j). bus_reach s b c \<and> pci_visible s c i j}" for x
  proof (cases x)
    case (fields c i j)
    have "x \<in> set (fn_list (bus_list d s) s b i' j') \<longleftrightarrow> x = (b, i', j')
        \<or> pci_bridge s b i' j' \<and> bus_reach s (pci_secondary s b i' j') c \<and> pci_visible s c i j" if "pci_visible s b i' j'" for i' j'
      using IH [OF that] by (cases "pci_bridge s b i' j'") (simp_all add: fn_list_def fields)
    then show ?thesis
      unfolding mem using fields by (simp add: bus_reach_first [of s b c]) blast
  qed
  then show ?case
    by blast
qed

section \<open>Example\<close>

text \<open>
  A bridge at 00:00.0 with bus 1 behind it, and one function at 01:00.0, in a
  window at address 0.
\<close>

definition example_pci_byte :: "nat \<Rightarrow> nat \<Rightarrow> u8" where
  "example_pci_byte f off =
     (if f = 0 then (if off = 0 then 0x86 else if off = 1 then 0x80 else if off = 0xA then 4 else if off = 0xB then 6
        else if off = 0xE then 1 else if off = 0x19 then 1 else 0)
      else if f = 256 then (if off = 0 then 0xF4 else if off = 1 then 0x1A else if off = 0xB then 3 else 0)
      else 0xFF)"

definition example_pci :: pci_state where
  "example_pci = vmm_state.extend example_vmm (pci_state.fields
     (\<lambda>a. example_pci_byte (unat a div 4096) (unat a mod 4096)) (Some \<lparr>root_bus = 0, pci_seg = 0, ecam_base_addr = 0\<rparr>) None)"

lemma example_pci_fields:
  "PCI_INF example_pci = Some \<lparr>root_bus = 0, pci_seg = 0, ecam_base_addr = 0\<rparr>"
  "cfg_mem example_pci = (\<lambda>a. example_pci_byte (unat a div 4096) (unat a mod 4096))"
  by (simp_all add: example_pci_def vmm_state.defs pci_state.defs)

lemma example_pci_window: "pci_window \<lparr>root_bus = 0, pci_seg = 0, ecam_base_addr = 0\<rparr> 0 255"
  using unat_ecam_region_size [of 0 255] by (simp add: pci_window_def)

lemma example_pci_cell:
  assumes "i < 32" "j < 8" "unat off + k < 4096"
  shows "cfg_mem example_pci (pci_address \<lparr>root_bus = 0, pci_seg = 0, ecam_base_addr = 0\<rparr> b i j off + of_nat k)
    = example_pci_byte (pci_fn 0 b i j) (unat off + k)"
proof -
  have "b \<le> 255"
    using unsigned_less [where ?'a = nat and w = b] by (simp add: word_le_nat_alt)
  then show ?thesis
    using unat_pci_byte [OF example_pci_window, of b i j off k] assms by (simp add: example_pci_fields pci_fn_ok_def)
qed

lemma le_read_words:
  "le_read 1 a m = ucast (m a)"
  "le_read 2 a m = ucast (m a) OR push_bit 8 (ucast (m (a + 1)))"
  "le_read 4 a m = ucast (m a) OR push_bit 8 (ucast (m (a + 1)) OR push_bit 8 (ucast (m (a + 2)) OR push_bit 8 (ucast (m (a + 3)))))"
  by (simp_all add: eval_nat_numeral add.commute)

text \<open>Reading a register of a function is reading its page.\<close>

lemma example_pci_page:
  assumes "i < 32" "j < 8" "unat off + n \<le> 4096"
  shows "le_read n (pci_address \<lparr>root_bus = 0, pci_seg = 0, ecam_base_addr = 0\<rparr> b i j off) (cfg_mem example_pci)
    = le_read n (ucast off) (\<lambda>a. example_pci_byte (pci_fn 0 b i j) (unat a))"
proof (rule le_read_shift)
  fix k assume "k < n"
  then have "unat (ucast off + of_nat k :: u64) = unat off + k"
    using assms(3) by (simp add: unat_word_ariths(1) unat_of_nat)
  then show "cfg_mem example_pci (pci_address \<lparr>root_bus = 0, pci_seg = 0, ecam_base_addr = 0\<rparr> b i j off + of_nat k)
      = example_pci_byte (pci_fn 0 b i j) (unat (ucast off + of_nat k :: u64))"
    using example_pci_cell [OF assms(1,2), of off k b] assms(3) \<open>k < n\<close> by simp
qed

lemma example_pci_regs:
  fixes b i j :: u8
  assumes "i < 32" "j < 8"
  defines "x \<equiv> example_pci_byte (pci_fn 0 b i j)"
  shows "pci_read_word b i j 0 example_pci = Inr (ucast (ucast (x 0) OR push_bit 8 (ucast (x 1)) :: u64))"
    "pci_read_dword b i j 0xC example_pci = Inr (ucast (ucast (x 0xC) OR push_bit 8 (ucast (x 0xD) OR push_bit 8
       (ucast (x 0xE) OR push_bit 8 (ucast (x 0xF)))) :: u64))"
    "pci_read_dword b i j 8 example_pci = Inr (ucast (ucast (x 8) OR push_bit 8 (ucast (x 9) OR push_bit 8
       (ucast (x 0xA) OR push_bit 8 (ucast (x 0xB)))) :: u64))"
    "pci_read_byte b i j 0x19 example_pci = Inr (x 0x19)"
  by (simp_all add: pci_read_word_def pci_read_dword_def pci_read_byte_def example_pci_fields(1) unwrap_opt_def
      example_pci_page [OF assms(1,2)] x_def del: le_read.simps One_nat_def) (simp_all add: le_read_words)

lemma pci_fn_zero:
  assumes "i < 32" "j < 8"
  shows "pci_fn 0 b i j = 0 \<longleftrightarrow> (b, i, j) = (0, 0, 0)" "pci_fn 0 b i j = 256 \<longleftrightarrow> (b, i, j) = (1, 0, 0)"
  using pci_fn_inj [of 0 b i j 0 0 0] pci_fn_inj [of 0 b i j 1 0 0] assms by (auto simp: pci_fn_def)

lemma example_pci_visible:
  "pci_visible example_pci b i j \<longleftrightarrow> (b, i, j) = (0, 0, 0) \<or> (b, i, j) = (1, 0, 0)"
proof -
  have pres: "pci_present example_pci b i j \<longleftrightarrow> (b, i, j) = (0, 0, 0) \<or> (b, i, j) = (1, 0, 0)" if "i < 32" "j < 8" for j
    using pci_fn_zero [OF that, of b] by (auto simp: pci_present_def example_pci_regs(1) [OF that] example_pci_byte_def)
  have "\<not> pci_multi example_pci b i" if "i < 32" "pci_present example_pci b i 0"
    using that pres [of 0] by (auto simp: pci_multi_def example_pci_regs(2) example_pci_byte_def pci_fn_def)
  then show ?thesis
    using pres by (auto simp: pci_visible_def)
qed

lemma example_pci_order: "bus_order example_pci 0" "bus_reach example_pci 0 c \<longleftrightarrow> c = 0 \<or> c = 1"
proof -
  have bridge: "pci_bridge example_pci 0 0 0" "\<not> pci_bridge example_pci 1 0 0" "pci_secondary example_pci 0 0 0 = 1"
    by (simp_all add: pci_bridge_def pci_secondary_def example_pci_regs example_pci_byte_def pci_fn_def)
  show "bus_order example_pci 0"
    using bridge by (auto simp: bus_order_def example_pci_visible)
  have "c = 0 \<or> c = 1" if "bus_reach example_pci 0 c"
    using that bridge by (induction rule: bus_reach.induct) (auto simp: example_pci_visible)
  moreover have "bus_reach example_pci 0 1"
    using bus_behind [OF bus_start, of example_pci 0 0 0] bridge by (simp add: example_pci_visible)
  ultimately show "bus_reach example_pci 0 c \<longleftrightarrow> c = 0 \<or> c = 1"
    using bus_start by blast
qed

section \<open>Properties\<close>

text \<open>
  C23: accesses to the configuration space stay in the window and in their function. A
  32-bit write to a register of a function on one of the buses of the window reads
  back, changes only the four bytes at its offset in the page of the function,
  which lies inside the window, and changes no register of any other function.
\<close>

theorem pci_config_isolated:
  assumes "PCI_INF s = Some info" "pci_window info st hi" "pci_fn_ok st hi (b, i, j)" "unat off + 4 \<le> 4096"
  shows "\<exists>s'. pci_write_dword b i j off v s = Inr s' \<and> pci_read_dword b i j off s' = Inr v
     \<and> (\<forall>x. cfg_mem s' x \<noteq> cfg_mem s x \<longrightarrow> ecam_base_addr info \<le> x
          \<and> unat x - unat (ecam_base_addr info) \<in> {4096 * pci_fn st b i j + unat off..<4096 * pci_fn st b i j + unat off + 4})
     \<and> 4096 * pci_fn st b i j + unat off + 4 \<le> unat (ecam_region_size st hi)
     \<and> (\<forall>b' i' j' off'. pci_fn_ok st hi (b', i', j') \<longrightarrow> (b', i', j') \<noteq> (b, i, j) \<longrightarrow> unat off' + 4 \<le> 4096 \<longrightarrow>
          pci_read_dword b' i' j' off' s' = pci_read_dword b' i' j' off' s)"
proof -
  let ?a = "pci_address info b i j off"
  let ?s = "s\<lparr>cfg_mem := le_write 4 ?a (ucast v) (cfg_mem s)\<rparr>"
  have w: "pci_write_dword b i j off v s = Inr ?s" "PCI_INF ?s = Some info"
    by (simp_all add: pci_write_dword_def assms(1) unwrap_opt_def)
  have "ucast (take_bit 32 (ucast v :: u64)) = v"
    by (rule bit_eqI) (auto simp: bit_simps)
  then have r: "pci_read_dword b i j off ?s = Inr v"
    using le_read_write [of 4 ?a "ucast v" "cfg_mem s"] by (simp add: pci_read_dword_def assms(1) unwrap_opt_def)
  have o: "pci_read_dword b' i' j' off' ?s = pci_read_dword b' i' j' off' s"
    if "pci_fn_ok st hi (b', i', j')" "(b', i', j') \<noteq> (b, i, j)" "unat off' + 4 \<le> 4096" for b' i' j' off'
    using pci_write_frame [OF assms(2,3) that(1,2) assms(4) that(3)] by (simp add: pci_read_dword_def assms(1) unwrap_opt_def)
  have p: "4096 * pci_fn st b i j + unat off + 4 \<le> unat (ecam_region_size st hi)"
    using pci_fn_page [OF _ assms(3)] assms(2,4) by (simp add: pci_window_def)
  show ?thesis
    using w(1) r p o pci_write_bytes [OF assms(2-4), of "ucast v" "cfg_mem s"] by (intro exI [of _ ?s]) simp
qed

text \<open>The function behind the bridge of the example, next to the bridge itself.\<close>

theorem pci_config_isolated_witness:
  "\<exists>s'. pci_write_dword 1 0 0 0x10 0xFE000000 example_pci = Inr s' \<and> pci_read_dword 1 0 0 0x10 s' = Inr 0xFE000000
     \<and> pci_read_dword 0 0 0 0x18 s' = pci_read_dword 0 0 0 0x18 example_pci"
proof -
  have ok: "pci_fn_ok 0 255 (1, 0, 0)" "pci_fn_ok 0 255 (0, 0, 0)" "unat (0x10 :: u16) + 4 \<le> 4096" "unat (0x18 :: u16) + 4 \<le> 4096"
    by (simp_all add: pci_fn_ok_def)
  from pci_config_isolated [OF example_pci_fields(1) example_pci_window ok(1,3), of "0xFE000000"] ok(2,4) show ?thesis
    by (elim exE conjE) (intro exI conjI, assumption, assumption, simp)
qed

text \<open>
  C22: the scan finds every function exactly where the bus topology has one. When every
  bridge leads to a bus with a higher number, it returns, and the devices
  recorded are the functions that answer on the buses reachable from the root
  through bridges, and no others.
\<close>

theorem pci_scan_complete:
  assumes "PCI_INF s = Some info" "bus_order s b0"
  shows "\<exists>ds. pci_scan 256 b0 [] s = Inr ds \<and> set ds = {(b, i, j). bus_reach s b0 b \<and> pci_visible s b i j}"
  using pci_scan_eq [OF assms bus_start, of 256 "[]"] set_bus_list [OF assms(2) bus_start, of 256] by simp

theorem pci_scan_complete_witness:
  "\<exists>ds. pci_scan 256 0 [] example_pci = Inr ds \<and> set ds = {(0, 0, 0), (1, 0, 0)}"
proof -
  have "{(b, i, j). bus_reach example_pci 0 b \<and> pci_visible example_pci b i j} = {(0, 0, 0), (1, 0, 0)}"
    by (auto simp: example_pci_visible example_pci_order(2))
  with pci_scan_complete [OF example_pci_fields(1) example_pci_order(1)] show ?thesis
    by simp
qed

end
