(* ===== verification/Kheap.thy ===== *)
theory Kheap
  imports Pci Locks
begin

text \<open>
  The global allocator, \<^verbatim>\<open>kernel/src/memory/mod.rs\<close>, which serves small requests from
  the slabs and large ones from the virtual memory manager, and the services
  the kernel gives the ACPI library for memory, mappings and PCI registers,
  \<^verbatim>\<open>kernel/src/uacpi/mod.rs\<close>.
\<close>

section \<open>The global allocator\<close>

record heap_state = pci_state +
  alloc_lock :: SpinLock
  intr_on :: bool

text \<open>What both branches of \<^verbatim>\<open>NAlloc::alloc\<close> and of \<^verbatim>\<open>uacpi_kernel_alloc\<close> do between the lock operations.\<close>

definition heap_take ::
    "u64 \<Rightarrow> 'z heap_state_scheme arch_ops \<Rightarrow> usize \<Rightarrow> 'z heap_state_scheme \<Rightarrow> panic + (u64 \<times> 'z heap_state_scheme)" where
  "heap_take hh A sz s =
     (if sz \<le> 1024
      then and_then (slab_alloc hh sz s) (\<lambda>(r, s1). and_then (unwrap_res r) (\<lambda>p. Inr (p, s1)))
      else and_then (unwrap_opt (kermap s)) (\<lambda>pm. vmm_alloc hh A pm sz VMM_WRITE s))"

definition heap_give ::
    "'z heap_state_scheme arch_ops \<Rightarrow> u64 \<Rightarrow> usize \<Rightarrow> 'z heap_state_scheme \<Rightarrow> panic + 'z heap_state_scheme" where
  "heap_give A p sz s =
     (if sz \<le> 1024 then Inr (slab_dealloc p s)
      else and_then (unwrap_opt (kermap s)) (\<lambda>pm.
           and_then (vmm_dealloc A pm p False s) (\<lambda>(pm', s1). Inr (s1\<lparr>kermap := Some pm'\<rparr>))))"

definition NAlloc_alloc ::
    "u64 \<Rightarrow> 'z heap_state_scheme arch_ops \<Rightarrow> usize \<Rightarrow> 'z heap_state_scheme \<Rightarrow> panic + (u64 \<times> 'z heap_state_scheme)" where
  "NAlloc_alloc hh A sz s =
     and_then (SpinLock_lock (intr_on s, alloc_lock s)) (\<lambda>(i, l).
     and_then (heap_take hh A sz (s\<lparr>intr_on := i, alloc_lock := l\<rparr>)) (\<lambda>(p, s1).
       let (i', l') = SpinLock_unlock (intr_on s1, alloc_lock s1)
       in Inr (p, s1\<lparr>intr_on := i', alloc_lock := l'\<rparr>)))"

text \<open>\<^verbatim>\<open>NAlloc::dealloc\<close> takes no lock.\<close>

definition NAlloc_dealloc ::
    "'z heap_state_scheme arch_ops \<Rightarrow> u64 \<Rightarrow> usize \<Rightarrow> 'z heap_state_scheme \<Rightarrow> panic + 'z heap_state_scheme" where
  "NAlloc_dealloc A p sz s = heap_give A p sz s"

text \<open>The two methods of \<^verbatim>\<open>GlobalAlloc\<close>: of a layout only the size is used, not the alignment.\<close>

record Layout =
  layout_size :: usize
  layout_align :: usize

definition GlobalAlloc_alloc ::
    "u64 \<Rightarrow> 'z heap_state_scheme arch_ops \<Rightarrow> Layout \<Rightarrow> 'z heap_state_scheme \<Rightarrow> panic + (u64 \<times> 'z heap_state_scheme)" where
  "GlobalAlloc_alloc hh A layout s = NAlloc_alloc hh A (layout_size layout) s"

definition GlobalAlloc_dealloc ::
    "'z heap_state_scheme arch_ops \<Rightarrow> u64 \<Rightarrow> Layout \<Rightarrow> 'z heap_state_scheme \<Rightarrow> panic + 'z heap_state_scheme" where
  "GlobalAlloc_dealloc A p layout s = NAlloc_dealloc A p (layout_size layout) s"

section \<open>Services for the ACPI library\<close>

definition uacpi_kernel_alloc ::
    "u64 \<Rightarrow> 'z heap_state_scheme arch_ops \<Rightarrow> usize \<Rightarrow> 'z heap_state_scheme \<Rightarrow> panic + (u64 \<times> 'z heap_state_scheme)" where
  "uacpi_kernel_alloc hh A sz s = heap_take hh A sz s"

definition uacpi_kernel_free ::
    "'z heap_state_scheme arch_ops \<Rightarrow> u64 \<Rightarrow> usize \<Rightarrow> 'z heap_state_scheme \<Rightarrow> panic + 'z heap_state_scheme" where
  "uacpi_kernel_free A p size_hint s = heap_give A p size_hint s"

text \<open>The answer of the boot loader to the request for the root table is a parameter.\<close>

definition uacpi_kernel_get_rsdp :: "u64 \<Rightarrow> u64 option \<Rightarrow> panic + u64" where
  "uacpi_kernel_get_rsdp hh rsdp = and_then (unwrap_opt rsdp) (\<lambda>a. Inr (a - hh))"

definition uacpi_kernel_map ::
    "u64 \<Rightarrow> 'z heap_state_scheme arch_ops \<Rightarrow> u64 \<Rightarrow> usize \<Rightarrow> 'z heap_state_scheme
      \<Rightarrow> panic + (u64 \<times> 'z heap_state_scheme)" where
  "uacpi_kernel_map hh A addr len s =
     and_then (unwrap_opt (max_hhdm_phy s)) (\<lambda>mx.
       if addr < mx then Inr (addr + hh, s)
       else let addr1 = align_down addr 4096; ve = range_step addr1 (addr1 + len) 4096
         in and_then (early_init_pagemap s) (\<lambda>pm. vmm_alloc_with_phys hh A pm len VMM_WRITE ve s))"

definition uacpi_kernel_unmap ::
    "'z heap_state_scheme arch_ops \<Rightarrow> u64 \<Rightarrow> usize \<Rightarrow> 'z heap_state_scheme \<Rightarrow> panic + 'z heap_state_scheme" where
  "uacpi_kernel_unmap A addr len s =
     and_then (unwrap_opt (max_hhdm_phy s)) (\<lambda>mx.
       if addr > mx
       then and_then (early_init_pagemap s) (\<lambda>pm.
            and_then (vmm_dealloc A pm addr False s) (\<lambda>(pm', s1). Inr (s1\<lparr>kermap := Some pm'\<rparr>)))
       else Inr s)"

text \<open>The PCI registers; \<open>de\<close> is the address the handle of the device points to.\<close>

record uacpi_pci_address =
  pa_bus :: u8
  pa_device :: u8
  pa_function :: u8

definition uacpi_kernel_pci_read8 :: "uacpi_pci_address \<Rightarrow> usize \<Rightarrow> 'z heap_state_scheme \<Rightarrow> panic + u8" where
  "uacpi_kernel_pci_read8 de offset s = pci_read_byte (pa_bus de) (pa_device de) (pa_function de) (ucast offset) s"

definition uacpi_kernel_pci_read16 :: "uacpi_pci_address \<Rightarrow> usize \<Rightarrow> 'z heap_state_scheme \<Rightarrow> panic + u16" where
  "uacpi_kernel_pci_read16 de offset s = pci_read_word (pa_bus de) (pa_device de) (pa_function de) (ucast offset) s"

definition uacpi_kernel_pci_read32 :: "uacpi_pci_address \<Rightarrow> usize \<Rightarrow> 'z heap_state_scheme \<Rightarrow> panic + u32" where
  "uacpi_kernel_pci_read32 de offset s = pci_read_dword (pa_bus de) (pa_device de) (pa_function de) (ucast offset) s"

definition uacpi_kernel_pci_write8 ::
    "uacpi_pci_address \<Rightarrow> usize \<Rightarrow> u8 \<Rightarrow> 'z heap_state_scheme \<Rightarrow> panic + 'z heap_state_scheme" where
  "uacpi_kernel_pci_write8 de offset v s =
     pci_write_byte (pa_bus de) (pa_device de) (pa_function de) (ucast offset) v s"

definition uacpi_kernel_pci_write16 ::
    "uacpi_pci_address \<Rightarrow> usize \<Rightarrow> u16 \<Rightarrow> 'z heap_state_scheme \<Rightarrow> panic + 'z heap_state_scheme" where
  "uacpi_kernel_pci_write16 de offset v s =
     pci_write_word (pa_bus de) (pa_device de) (pa_function de) (ucast offset) v s"

definition uacpi_kernel_pci_write32 ::
    "uacpi_pci_address \<Rightarrow> usize \<Rightarrow> u32 \<Rightarrow> 'z heap_state_scheme \<Rightarrow> panic + 'z heap_state_scheme" where
  "uacpi_kernel_pci_write32 de offset v s =
     pci_write_dword (pa_bus de) (pa_device de) (pa_function de) (ucast offset) v s"

text \<open>\<^verbatim>\<open>init_uacpi\<close>; the status the library returns at each of its three calls is a parameter.\<close>

definition init_uacpi ::
    "(u32 \<Rightarrow> string) \<Rightarrow> u32 \<times> u32 \<times> u32 \<Rightarrow> u64 \<Rightarrow> 'z heap_state_scheme arch_ops \<Rightarrow> u32 \<times> acpi_mcfg \<Rightarrow>
      'z heap_state_scheme \<Rightarrow> panic + 'z heap_state_scheme" where
  "init_uacpi to_string sts hh A found s =
     (case sts of (st1, st2, st3) \<Rightarrow>
      and_then (unwrap_res (check_ustatus to_string st1)) (\<lambda>_.
      and_then (pci_init to_string hh A found s) (\<lambda>s1.
      and_then (unwrap_res (check_ustatus to_string st2)) (\<lambda>_.
      and_then (unwrap_res (check_ustatus to_string st3)) (\<lambda>_. Inr s1)))))"

section \<open>Small requests\<close>

context region_arch
begin

text \<open>An object taken from the slabs disturbs neither the region list nor any translation.\<close>

lemma kmap_slab_alloc:
  assumes inv: "kmap_inv tab hh s pm ps g t" and sz: "sz \<le> 1024" and room: "0 < slab_room g"
  shows "\<exists>x z s' g'. slab_alloc hh sz s = Inr (Inr x, s') \<and> kmap_inv tab hh s' pm ps g' t
     \<and> slab_live s' g' = insert (x, z) (slab_live s g) \<and> x \<notin> fst ` slab_live s g \<and> sz \<le> z
     \<and> (\<forall>a\<in>obj_cells z x. mem s' a = 0)
     \<and> (\<forall>va. mmu (arch_page pm + hh) va (mem s') = mmu (arch_page pm + hh) va (mem s))
     \<and> pmm_state.more s' = pmm_state.more s"
proof -
  obtain vs HS F where g: "g = (vs, HS, F)" by (cases g)
  have k: "vmm_inv hh s pm ps g" "tab (arch_page pm + hh) t (mem s)" "ran t \<inter> slab_pages vs HS = {}"
    "\<forall>v\<in>set vs. phys_frame hh v" "slab_inv hh s vs HS F" "vs \<noteq> []"
    using inv room by (auto simp: kmap_inv_def vmm_inv_def slab_good_def slab_room_def g)
  from slab_alloc_ok [OF k(5) sz k(6)] obtain x z s' vs' HS' F' where
    r: "slab_alloc hh sz s = Inr (Inr x, s')" "slab_inv hh s' vs' HS' F'" "(x, z) \<notin> slab_objects s HS F"
      "slab_objects s' HS' F' = insert (x, z) (slab_objects s HS F)" "sz \<le> z" "\<forall>a\<in>obj_cells z x. mem s' a = 0"
      "agree_on (- slab_pages vs HS) (mem s) (mem s')" "slab_pages vs' HS' = slab_pages vs HS"
      "vs' = vs \<or> vs' = tl vs" "pmm_state.more s' = pmm_state.more s"
    by (elim exE conjE)
  let ?g = "(vs', HS', F')"
  have live: "slab_live s' ?g = insert (x, z) (slab_live s g)" "(x, z) \<notin> slab_live s g" "slab_good hh s' ?g"
    using r(2,3,4) g by (simp_all add: slab_live_def slab_good_def)
  have fresh: "x \<notin> fst ` slab_live s g"
    by (rule slab.fresh_address [OF live(3,1,2)])
  have ag: "agree_on (ran t) (mem s) (mem s')"
    using r(7) k(3) unfolding agree_on_def by blast
  have "vmm_inv hh s' pm ps ?g"
    using k(1) live vm_regions_more [OF r(10)] by (simp add: vmm_inv_def)
  moreover have "set vs' \<subseteq> set vs"
    using r(9) by (cases vs) auto
  ultimately have "kmap_inv tab hh s' pm ps ?g t"
    using tab_frame [OF k(2) ag] k(3,4) r(8) by (auto simp: kmap_inv_def)
  with r(1,5,6,10) live(1) fresh mmu_frame [OF k(2) ag] show ?thesis
    by (intro exI [of _ x] exI [of _ z] exI [of _ s'] exI [of _ ?g]) simp
qed

text \<open>Giving back an object that is no region of the list.\<close>

lemma kmap_slab_dealloc:
  assumes inv: "kmap_inv tab hh s pm ps g t" and x: "(x, z) \<in> slab_live s g" "x \<notin> set ps"
  shows "\<exists>g'. kmap_inv tab hh (slab_dealloc x s) pm ps g' t \<and> slab_live (slab_dealloc x s) g' = slab_live s g - {(x, z)}
     \<and> (\<forall>va. mmu (arch_page pm + hh) va (mem (slab_dealloc x s)) = mmu (arch_page pm + hh) va (mem s))
     \<and> pmm_state.more (slab_dealloc x s) = pmm_state.more s"
proof -
  obtain vs HS F where g: "g = (vs, HS, F)" by (cases g)
  have k: "vmm_inv hh s pm ps g" "tab (arch_page pm + hh) t (mem s)" "ran t \<inter> slab_pages vs HS = {}"
    "\<forall>v\<in>set vs. phys_frame hh v" "slab_inv hh s vs HS F" "(x, z) \<in> slab_objects s HS F"
    using inv x(1) by (auto simp: kmap_inv_def vmm_inv_def slab_good_def slab_live_def g)
  from slab_release_ok [OF k(5,6)] obtain F' where
    r: "slab_inv hh (slab_dealloc x s) vs HS F'" "slab_objects (slab_dealloc x s) HS F' = slab_objects s HS F - {(x, z)}"
      "agree_on (- slab_pages vs HS) (mem s) (mem (slab_dealloc x s))"
      "pmm_state.more (slab_dealloc x s) = pmm_state.more s"
    by blast
  have ag: "agree_on (ran t) (mem s) (mem (slab_dealloc x s))"
    using r(3) k(3) unfolding agree_on_def by blast
  have live: "slab_live (slab_dealloc x s) (vs, HS, F') = slab_live s g - {(x, z)}"
    using r(2) by (simp add: slab_live_def g)
  have "vmm_inv hh (slab_dealloc x s) pm ps (vs, HS, F')"
    using k(1) r(1) live x(2) vm_regions_more [OF r(4)] by (auto simp: vmm_inv_def slab_good_def)
  then have "kmap_inv tab hh (slab_dealloc x s) pm ps (vs, HS, F') t"
    using tab_frame [OF k(2) ag] k(3,4) by (simp add: kmap_inv_def)
  with live mmu_frame [OF k(2) ag] r(4) show ?thesis
    by (intro exI [of _ "(vs, HS, F')"]) simp
qed

end

section \<open>What the operations leave alone\<close>

text \<open>The invariant of the kernel map does not read the fields added here.\<close>

lemma core_outer [simp]:
  "vmm_core (s\<lparr>intr_on := i, alloc_lock := l\<rparr>) = vmm_core s" "vmm_core (s\<lparr>kermap := k\<rparr>) = vmm_core s"
  "slab_live (s\<lparr>intr_on := i, alloc_lock := l\<rparr>) g = slab_live s g"
  "slab_live (s\<lparr>kermap := k\<rparr>) g = slab_live s g"
  by (simp_all add: vmm_core_def slab_live_def slab_objects_def split: prod.split)

text \<open>Between lock and unlock only the taking of memory is visible.\<close>

lemma NAlloc_alloc_eq:
  assumes "\<not> sl_held (alloc_lock s)"
    and "heap_take hh A sz (s\<lparr>intr_on := False, alloc_lock := \<lparr>sl_held = True, sl_prev = intr_on s\<rparr>\<rparr>) = Inr (p, s1)"
    and "vmm_rest s1 = vmm_rest (s\<lparr>intr_on := False, alloc_lock := \<lparr>sl_held = True, sl_prev = intr_on s\<rparr>\<rparr>)"
  shows "NAlloc_alloc hh A sz s
    = Inr (p, s1\<lparr>intr_on := intr_on s, alloc_lock := \<lparr>sl_held = False, sl_prev = intr_on s\<rparr>\<rparr>)"
proof -
  have "intr_on s1 = False" "alloc_lock s1 = \<lparr>sl_held = True, sl_prev = intr_on s\<rparr>"
    using assms(3) by (cases s, cases s1, simp add: vmm_rest_def)+
  then show ?thesis
    using assms(1,2) by (simp add: NAlloc_alloc_def SpinLock_lock_def SpinLock_unlock_def)
qed

text \<open>When a large request fits: there is a gap for it, unmapped so far, and frames are left.\<close>

definition x86_heap_fits ::
    "u64 \<Rightarrow> usize \<Rightarrow> 'z vmm_state_scheme \<Rightarrow> Pagemap \<Rightarrow> u64 list \<Rightarrow> slab_ghost \<Rightarrow> (nat list \<Rightarrow> u64 option) \<Rightarrow> u64 \<Rightarrow> bool" where
  "x86_heap_fits hh len s pm ps g t b \<longleftrightarrow>
     regions_ok (regions (vm_regions s) ps) \<and> 0 < len \<and> unat len < 2 ^ 63
     \<and> (\<exists>rs'. place_region len VMM_WRITE (regions (vm_regions s) ps) = Some (b, rs'))
     \<and> page_aligned b \<and> high_half 4 b \<and> b \<noteq> 0
     \<and> length (range_step b (b + len) 4096) + card (missing_list 4 t (range_step b (b + len) 4096)) < slab_room g
     \<and> (\<forall>va. vpn 4 va \<in> vpn 4 ` set (range_step b (b + len) 4096) \<longrightarrow> x86_mmu hh (arch_page pm + hh) va (mem s) = None)"

lemma heap_large:
  fixes s :: "'z heap_state_scheme"
  assumes inv: "kmap_inv (x86_tables hh) hh s pm ps g t" "kermap s = Some pm" and sz: "1024 < sz"
    and fits: "x86_heap_fits hh (align_up sz PAGE_SIZE) s pm ps g t b"
  shows "\<exists>s1. heap_take hh (x86_arch hh) sz s = Inr (b, s1) \<and> vmm_rest s1 = vmm_rest s
     \<and> (\<forall>s1' :: 'z heap_state_scheme. vmm_core s1' = vmm_core s1 \<longrightarrow> kermap s1' = Some pm \<longrightarrow>
       (\<exists>s2 ps' g' t'. heap_give (x86_arch hh) b sz s1' = Inr s2 \<and> kmap_inv (x86_tables hh) hh s2 pm ps' g' t'
         \<and> kermap s2 = Some pm \<and> regions (vm_regions s2) ps' = regions (vm_regions s) ps
         \<and> (\<forall>va. x86_mmu hh (arch_page pm + hh) va (mem s2) = x86_mmu hh (arch_page pm + hh) va (mem s))))"
proof -
  have user: "\<not> contains VMM_WRITE VMM_USER"
    by (simp add: contains_def VMM_WRITE_def VMM_USER_def)
  from fits obtain rs' where f: "regions_ok (regions (vm_regions s) ps)" "0 < align_up sz PAGE_SIZE"
    "unat (align_up sz PAGE_SIZE) < 2 ^ 63"
    "place_region (align_up sz PAGE_SIZE) VMM_WRITE (regions (vm_regions s) ps) = Some (b, rs')"
    "page_aligned b" "high_half 4 b" "b \<noteq> 0"
    "length (range_step b (b + align_up sz PAGE_SIZE) 4096)
       + card (missing_list 4 t (range_step b (b + align_up sz PAGE_SIZE) 4096)) < slab_room g"
    "\<forall>va. vpn 4 va \<in> vpn 4 ` set (range_step b (b + align_up sz PAGE_SIZE) 4096) \<longrightarrow>
       x86_mmu hh (arch_page pm + hh) va (mem s) = None"
    unfolding x86_heap_fits_def by blast
  from x86_region.vmm_release_ok [OF inv(1) user f(1) refl f(2-4) refl f(5-8) f(9) [unfolded x86_mmu_def]]
  obtain s1 where
    r: "vmm_alloc hh (x86_arch hh) pm sz VMM_WRITE s = Inr (b, s1)"
      "\<And>s1' :: 'z heap_state_scheme. vmm_core s1' = vmm_core s1 \<Longrightarrow>
        \<exists>s2 ps' g' t'. vmm_dealloc (x86_arch hh) pm b False s1' = Inr (pm, s2) \<and> kmap_inv (x86_tables hh) hh s2 pm ps' g' t'
          \<and> regions (vm_regions s2) ps' = regions (vm_regions s) ps
          \<and> (\<forall>va. x86_mmu hh (arch_page pm + hh) va (mem s2) = x86_mmu hh (arch_page pm + hh) va (mem s))"
    unfolding x86_mmu_def by blast
  have large: "\<not> sz \<le> 1024"
    using sz by simp
  have "heap_take hh (x86_arch hh) sz s = Inr (b, s1)"
    using r(1) inv(2) large by (simp add: heap_take_def unwrap_opt_def)
  moreover have "\<exists>s2 ps' g' t'. heap_give (x86_arch hh) b sz s1' = Inr s2 \<and> kmap_inv (x86_tables hh) hh s2 pm ps' g' t'
      \<and> kermap s2 = Some pm \<and> regions (vm_regions s2) ps' = regions (vm_regions s) ps
      \<and> (\<forall>va. x86_mmu hh (arch_page pm + hh) va (mem s2) = x86_mmu hh (arch_page pm + hh) va (mem s))"
    if c: "vmm_core s1' = vmm_core s1" "kermap s1' = Some pm" for s1' :: "'z heap_state_scheme"
  proof -
    from r(2) [OF c(1)] obtain s2 ps' g' t' where
      2: "vmm_dealloc (x86_arch hh) pm b False s1' = Inr (pm, s2)" "kmap_inv (x86_tables hh) hh s2 pm ps' g' t'"
        "regions (vm_regions s2) ps' = regions (vm_regions s) ps"
        "\<forall>va. x86_mmu hh (arch_page pm + hh) va (mem s2) = x86_mmu hh (arch_page pm + hh) va (mem s)"
      by blast
    have "kmap_inv (x86_tables hh) hh (s2\<lparr>kermap := Some pm\<rparr>) pm ps' g' t'"
      by (rule kmap_inv_core [OF _ 2(2)]) simp
    with 2 c(2) large show ?thesis
      by (intro exI [of _ "s2\<lparr>kermap := Some pm\<rparr>"] exI [of _ ps'] exI [of _ g'] exI [of _ t'])
        (simp add: heap_give_def unwrap_opt_def)
  qed
  ultimately show ?thesis
    using vmm_alloc_rest [OF r(1)] by blast
qed

lemma heap_small:
  fixes s :: "'z heap_state_scheme"
  assumes inv: "kmap_inv (x86_tables hh) hh s pm ps g t" and sz: "sz \<le> 1024" and room: "0 < slab_room g"
  shows "\<exists>p z s1 g1. heap_take hh (x86_arch hh) sz s = Inr (p, s1) \<and> vmm_rest s1 = vmm_rest s
     \<and> p \<notin> fst ` slab_live s g \<and> slab_live s1 g1 = insert (p, z) (slab_live s g) \<and> sz \<le> z
     \<and> (\<forall>a\<in>obj_cells z p. mem s1 a = 0)
     \<and> (\<forall>s1' :: 'z heap_state_scheme. vmm_core s1' = vmm_core s1 \<longrightarrow>
       (\<exists>s2 g'. heap_give (x86_arch hh) p sz s1' = Inr s2 \<and> kmap_inv (x86_tables hh) hh s2 pm ps g' t
         \<and> kermap s2 = kermap s1' \<and> vm_regions s2 = vm_regions s
         \<and> (\<forall>va. x86_mmu hh (arch_page pm + hh) va (mem s2) = x86_mmu hh (arch_page pm + hh) va (mem s))))"
proof -
  from x86_region.kmap_slab_alloc [OF assms] obtain p z s1 g1 where
    1: "slab_alloc hh sz s = Inr (Inr p, s1)" "kmap_inv (x86_tables hh) hh s1 pm ps g1 t"
      "slab_live s1 g1 = insert (p, z) (slab_live s g)" "p \<notin> fst ` slab_live s g" "sz \<le> z"
      "\<forall>a\<in>obj_cells z p. mem s1 a = 0"
      "\<forall>va. x86_mmu hh (arch_page pm + hh) va (mem s1) = x86_mmu hh (arch_page pm + hh) va (mem s)"
      "pmm_state.more s1 = pmm_state.more s"
    unfolding x86_mmu_def by blast
  have ps: "p \<notin> set ps"
    using 1(4) inv by (force simp: kmap_inv_def vmm_inv_def)
  have "\<exists>s2 g'. heap_give (x86_arch hh) p sz s1' = Inr s2 \<and> kmap_inv (x86_tables hh) hh s2 pm ps g' t
      \<and> kermap s2 = kermap s1' \<and> vm_regions s2 = vm_regions s
      \<and> (\<forall>va. x86_mmu hh (arch_page pm + hh) va (mem s2) = x86_mmu hh (arch_page pm + hh) va (mem s))"
    if c: "vmm_core s1' = vmm_core s1" for s1' :: "'z heap_state_scheme"
  proof -
    have e: "mem s1' = mem s1" "vm_regions s1' = vm_regions s" "slab_live s1' g1 = slab_live s1 g1"
      using c vm_regions_more [OF 1(8)] by (simp_all add: vmm_core_def slab_live_def slab_objects_def split: prod.split)
    have "(p, z) \<in> slab_live s1' g1"
      using 1(3) e(3) by simp
    from x86_region.kmap_slab_dealloc [OF kmap_inv_core [OF c 1(2)] this ps] obtain g' where
      2: "kmap_inv (x86_tables hh) hh (slab_dealloc p s1') pm ps g' t"
        "\<forall>va. x86_mmu hh (arch_page pm + hh) va (mem (slab_dealloc p s1')) = x86_mmu hh (arch_page pm + hh) va (mem s1')"
        "pmm_state.more (slab_dealloc p s1') = pmm_state.more s1'"
      unfolding x86_mmu_def by blast
    have "kermap (slab_dealloc p s1') = kermap s1'" "vm_regions (slab_dealloc p s1') = vm_regions s"
      using vmm_rest_kermap [OF vmm_rest_more [OF 2(3)]] vm_regions_more [OF 2(3)] e(2) by simp_all
    with 2(1,2) 1(7) e(1) sz show ?thesis
      by (intro exI [of _ "slab_dealloc p s1'"] exI [of _ g']) (simp add: heap_give_def)
  qed
  moreover have "heap_take hh (x86_arch hh) sz s = Inr (p, s1)"
    using 1(1) sz by (simp add: heap_take_def unwrap_res_def)
  ultimately show ?thesis
    using 1(3-6) vmm_rest_more [OF 1(8)] by blast
qed

section \<open>Properties\<close>

text \<open>
  C3: the global allocator. With the lock free, an allocation of any size that fits
  succeeds, with the lock released and the interrupt flag as before; a small one
  is a zeroed object that nobody holds. Releasing it with the same size restores
  the region list, every translation and the whole invariant of the kernel map.
\<close>

theorem nalloc_roundtrip:
  fixes s :: "'z heap_state_scheme"
  assumes "kmap_inv (x86_tables hh) hh s pm ps g t" "kermap s = Some pm" "\<not> sl_held (alloc_lock s)"
    and "if sz \<le> 1024 then 0 < slab_room g else x86_heap_fits hh (align_up sz PAGE_SIZE) s pm ps g t b"
  shows "\<exists>p s1 s2 ps' g' t'. NAlloc_alloc hh (x86_arch hh) sz s = Inr (p, s1)
     \<and> \<not> sl_held (alloc_lock s1) \<and> intr_on s1 = intr_on s
     \<and> (sz \<le> 1024 \<longrightarrow> p \<notin> fst ` slab_live s g
          \<and> (\<exists>z g1. sz \<le> z \<and> slab_live s1 g1 = insert (p, z) (slab_live s g) \<and> (\<forall>a\<in>obj_cells z p. mem s1 a = 0)))
     \<and> NAlloc_dealloc (x86_arch hh) p sz s1 = Inr s2 \<and> kmap_inv (x86_tables hh) hh s2 pm ps' g' t'
     \<and> kermap s2 = Some pm \<and> regions (vm_regions s2) ps' = regions (vm_regions s) ps
     \<and> (\<forall>va. x86_mmu hh (arch_page pm + hh) va (mem s2) = x86_mmu hh (arch_page pm + hh) va (mem s))"
proof -
  let ?s = "s\<lparr>intr_on := False, alloc_lock := \<lparr>sl_held = True, sl_prev = intr_on s\<rparr>\<rparr>"
  let ?u = "\<lambda>s1. s1\<lparr>intr_on := intr_on s, alloc_lock := \<lparr>sl_held = False, sl_prev = intr_on s\<rparr>\<rparr>"
  have inv: "kmap_inv (x86_tables hh) hh ?s pm ps g t" "kermap ?s = Some pm"
    using assms(2) kmap_inv_core [OF _ assms(1), of ?s] by simp_all
  note alloc = NAlloc_alloc_eq [OF assms(3)]
  show ?thesis
  proof (cases "sz \<le> 1024")
    case True
    with assms(4) have "0 < slab_room g"
      by simp
    from heap_small [OF inv(1) True this] obtain p z s1 g1 where
      1: "heap_take hh (x86_arch hh) sz ?s = Inr (p, s1)" "vmm_rest s1 = vmm_rest ?s" "p \<notin> fst ` slab_live s g"
        "slab_live s1 g1 = insert (p, z) (slab_live s g)" "sz \<le> z" "\<forall>a\<in>obj_cells z p. mem s1 a = 0"
      and give: "\<And>s1' :: 'z heap_state_scheme. vmm_core s1' = vmm_core s1 \<Longrightarrow>
        \<exists>s2 g'. heap_give (x86_arch hh) p sz s1' = Inr s2 \<and> kmap_inv (x86_tables hh) hh s2 pm ps g' t
         \<and> kermap s2 = kermap s1' \<and> vm_regions s2 = vm_regions s
         \<and> (\<forall>va. x86_mmu hh (arch_page pm + hh) va (mem s2) = x86_mmu hh (arch_page pm + hh) va (mem s))"
      by auto
    from give [of "?u s1"] obtain s2 g' where
      2: "heap_give (x86_arch hh) p sz (?u s1) = Inr s2" "kmap_inv (x86_tables hh) hh s2 pm ps g' t"
        "kermap s2 = kermap s1" "vm_regions s2 = vm_regions s"
        "\<forall>va. x86_mmu hh (arch_page pm + hh) va (mem s2) = x86_mmu hh (arch_page pm + hh) va (mem s)"
      by auto
    have "kermap s2 = Some pm"
      using 2(3) vmm_rest_kermap [OF 1(2)] inv(2) by simp
    moreover have "\<exists>z g1. sz \<le> z \<and> slab_live (?u s1) g1 = insert (p, z) (slab_live s g) \<and> (\<forall>a\<in>obj_cells z p. mem (?u s1) a = 0)"
      using 1(4-6) by (intro exI [of _ z] exI [of _ g1]) simp
    ultimately show ?thesis
      using alloc [OF 1(1,2)] 1(3) 2(1,2,4,5) unfolding NAlloc_dealloc_def
      by (intro exI [of _ p] exI [of _ "?u s1"] exI [of _ s2] exI [of _ ps] exI [of _ g'] exI [of _ t]) simp
  next
    case False
    with assms(4) have "x86_heap_fits hh (align_up sz PAGE_SIZE) ?s pm ps g t b" "1024 < sz"
      by (simp_all add: x86_heap_fits_def)
    from heap_large [OF inv this(2,1)] obtain s1 where
      1: "heap_take hh (x86_arch hh) sz ?s = Inr (b, s1)" "vmm_rest s1 = vmm_rest ?s"
      and give: "\<And>s1' :: 'z heap_state_scheme. vmm_core s1' = vmm_core s1 \<Longrightarrow> kermap s1' = Some pm \<Longrightarrow>
        \<exists>s2 ps' g' t'. heap_give (x86_arch hh) b sz s1' = Inr s2 \<and> kmap_inv (x86_tables hh) hh s2 pm ps' g' t'
         \<and> kermap s2 = Some pm \<and> regions (vm_regions s2) ps' = regions (vm_regions s) ps
         \<and> (\<forall>va. x86_mmu hh (arch_page pm + hh) va (mem s2) = x86_mmu hh (arch_page pm + hh) va (mem s))"
      by auto
    have "kermap (?u s1) = Some pm"
      using vmm_rest_kermap [OF 1(2)] inv(2) by simp
    from give [OF _ this] obtain s2 ps' g' t' where
      2: "heap_give (x86_arch hh) b sz (?u s1) = Inr s2" "kmap_inv (x86_tables hh) hh s2 pm ps' g' t'"
        "kermap s2 = Some pm" "regions (vm_regions s2) ps' = regions (vm_regions s) ps"
        "\<forall>va. x86_mmu hh (arch_page pm + hh) va (mem s2) = x86_mmu hh (arch_page pm + hh) va (mem s)"
      by auto
    with alloc [OF 1] False show ?thesis
      unfolding NAlloc_dealloc_def
      by (intro exI [of _ b] exI [of _ "?u s1"] exI [of _ s2] exI [of _ ps'] exI [of _ g'] exI [of _ t']) simp
  qed
qed

text \<open>100 bytes from the kernel map right after start-up.\<close>

theorem nalloc_roundtrip_witness:
  "\<exists>(s :: heap_state) p s1 s2. NAlloc_alloc 0xffff800000000000 (x86_arch 0xffff800000000000) 100 s = Inr (p, s1)
     \<and> intr_on s1 \<and> NAlloc_dealloc (x86_arch 0xffff800000000000) p 100 s1 = Inr s2"
proof -
  from example_vmm_boot obtain s0 :: vmm_state and pm ps g t where
    b: "kmap_inv (x86_tables 0xffff800000000000) 0xffff800000000000 s0 pm ps g t" "228 \<le> slab_room g"
    by blast
  define s :: heap_state where "s = vmm_state.extend (s0\<lparr>kermap := Some pm\<rparr>)
    \<lparr>cfg_mem = \<lambda>_. 0, PCI_INF = None, pci_devices = None, alloc_lock = SpinLock_new, intr_on = True\<rparr>"
  have f: "vmm_core s = vmm_core s0" "kermap s = Some pm" "\<not> sl_held (alloc_lock s)" "intr_on s"
    by (simp_all add: s_def vmm_state.defs vmm_core_def SpinLock_new_def)
  have fits: "if (100 :: u64) \<le> 1024 then 0 < slab_room g
      else x86_heap_fits 0xffff800000000000 (align_up 100 PAGE_SIZE) s pm ps g t 0"
    using b(2) by simp
  from nalloc_roundtrip [OF kmap_inv_core [OF f(1) b(1)] f(2,3) fits] f(4) show ?thesis
    by auto
qed

end
