(* ===== verification/Spec2Isabelle.thy ===== *)
theory Spec2Isabelle
  imports Sched Virtq Timers Vfs RvCpu Kheap
begin

text \<open>
  NyauxKC is a small operating system kernel in Rust for x86_64 and riscv64
  (\<^verbatim>\<open>src/kernel/src\<close>). This library models its memory management, processor entry
  code, scheduler, locks, drivers and file system as functions of HOL and proves what
  each part promises the others. Paths below are relative to \<^verbatim>\<open>src/kernel/src\<close>.

  \<^bold>\<open>How the program is modelled.\<close> Machine integers are words of their width, since the
  kernel is built for release, where arithmetic wraps. Every function that may panic
  returns \<open>panic + 'a\<close>; a \<^verbatim>\<open>Result\<close> of the source is a second sum inside. Mutable state is
  a record that is passed and returned. The records extend each other as the parts build
  on each other: \<open>pmm_state\<close>, \<open>slab_state\<close>, \<open>vmm_state\<close>, \<open>pci_state\<close>, \<open>heap_state\<close>;
  and \<open>gpu_state\<close> over \<open>pmm_state\<close>, \<open>hw_state\<close> over \<open>vmm_state\<close>. Memory is a function
  from virtual addresses to 64-bit cells; \<open>hh\<close> is the offset of the direct map the boot
  loader reports. Structures reached through typed pointers that the program never
  inspects as raw memory (regions, list nodes, threads, vnodes, rings) are heaps of
  their own, indexed by address.

  \<^bold>\<open>Parts and theories.\<close>

  \<^item> \<^verbatim>\<open>Prelude\<close>, \<^verbatim>\<open>Bytes\<close>: integer types, results, loops over ranges, rounding
    (\<^verbatim>\<open>main.rs\<close>), little-endian device memory.
  \<^item> \<^verbatim>\<open>Interfaces\<close>: the contracts of a page allocator and of an object allocator, with what
    follows for every client.
  \<^item> \<^verbatim>\<open>Pmm\<close> (\<^verbatim>\<open>memory/pmm/mod.rs\<close>): the free list of frames. It is built from exactly the
    usable frames, and no frame is handed out while it is held, until the list is empty:
    from then on every allocation returns the same page.
  \<^item> \<^verbatim>\<open>Slab\<close> (\<^verbatim>\<open>memory/slab.rs\<close>): seven caches of objects inside pages. In every run of
    allocations, writes and releases the held objects are disjoint and keep their
    contents.
  \<^item> \<^verbatim>\<open>Radix\<close>, \<^verbatim>\<open>PtX86\<close>, \<^verbatim>\<open>PtRiscv\<close> (\<^verbatim>\<open>arch/x86_64/pt\<close>, \<^verbatim>\<open>arch/risc_v/pt\<close>): page tables of
    any depth over any page allocator, and the two targets as instances. Mapping and
    unmapping change the translation of exactly one page, as the hardware walk
    \<open>radix_walk\<close> sees it; \<^verbatim>\<open>pt_init\<close> maps the image and all memory that the boot loader
    does not call reserved or bad (\<open>direct_map_end\<close>), with the bits of \<open>x86_leaf\<close>, and
    nothing else.
  \<^item> \<^verbatim>\<open>Vmm\<close> (\<^verbatim>\<open>memory/vmm/mod.rs\<close>): the region list in slab objects, over the page table
    operations of a target (\<open>arch_ops\<close>, contract \<open>region_arch\<close>). Allocation keeps regions
    ordered and apart and maps fresh frames; release undoes it. \<open>kmap_inv\<close> is the
    invariant of all layers together, established by start-up.
  \<^item> \<^verbatim>\<open>Kheap\<close> (\<^verbatim>\<open>memory/mod.rs\<close>, \<^verbatim>\<open>uacpi/mod.rs\<close>): the global allocator over both, under its
    lock, and the services for the ACPI library.
  \<^item> \<^verbatim>\<open>Pci\<close> (\<^verbatim>\<open>pci/mod.rs\<close>): configuration accesses stay in the page of their function; the
    scan finds exactly the functions reachable through bridges.
  \<^item> \<^verbatim>\<open>Lists\<close> (\<^verbatim>\<open>util/lists/mod.rs\<close>): intrusive lists refine double-ended queues whose
    reported length is off by what \<^verbatim>\<open>clear\<close> dropped, and the reference counts of owned
    items are exact up to what \<^verbatim>\<open>remove\<close> loses.
  \<^item> \<^verbatim>\<open>Locks\<close> (\<^verbatim>\<open>util/mod.rs\<close>): spin lock, reader-writer lock and one-time
    initialisation, under every interleaving of atomic accesses on any number of
    processors.
  \<^item> \<^verbatim>\<open>X86Cpu\<close>, \<^verbatim>\<open>RvCpu\<close> (\<^verbatim>\<open>arch/x86_64/{gdt,tss,idt}\<close>, \<^verbatim>\<open>arch/risc_v\<close>): descriptors as the
    processor decodes them, and the entry code, which restores the interrupted
    program exactly; \<open>hw_frame\<close> is what an x86_64 processor pushes. On riscv64 the code
    is executed instruction by instruction, up to the call of the scheduler.
  \<^item> \<^verbatim>\<open>Sched\<close> (\<^verbatim>\<open>scheduler/mod.rs\<close>, \<^verbatim>\<open>arch/mod.rs\<close>): every thread gets its turn with its own
    registers; start-up returns with three mapped stacks apart from each other, and the
    first tick enters the first thread on its own.
  \<^item> \<^verbatim>\<open>Timers\<close> (\<^verbatim>\<open>arch/x86_64/{lapic,hpet}\<close>): start-up, calibration and arming of the timer.
  \<^item> \<^verbatim>\<open>Virtq\<close> (\<^verbatim>\<open>virtio/mod.rs\<close>): the descriptor pool, the rings as a bounded queue across the
    wrap of their indices, and commands that complete and give everything back.
  \<^item> \<^verbatim>\<open>Errno\<close>, \<^verbatim>\<open>Vfs\<close> (\<^verbatim>\<open>util/mod.rs\<close>, \<^verbatim>\<open>vfs/\<close>): error numbers; vnodes, mounts, path lookup,
    the memory file system and the loader of the initial archive.

  \<^bold>\<open>Interfaces.\<close> \<open>page_allocator\<close> is interpreted on \<open>allocate_page\<close> and \<open>deallocate_page\<close>,
  \<open>object_allocator\<close> on \<open>slab_alloc\<close> and \<open>slab_dealloc\<close>, \<open>radix_table\<close> and \<open>page_mapper\<close> on the
  table walks of both targets, \<open>region_arch\<close> (through \<open>region_mapper\<close>) on their region
  operations, and \<open>deque\<close> on the plain and the reference-counted lists.

  \<^bold>\<open>Bounds.\<close> A loop that follows pointers has fuel. \<open>slab_fuel\<close> and \<open>list_fuel\<close> exceed the
  number of 64-bit addresses, and a chain without repetition cannot be longer; the lemmas
  on well-formed chains show that the fuel is not exhausted. The descriptor walk is bounded by the length
  of the pool, the archive loader by the length of the archive, both proved enough for every
  input. Polling loops take the number of rounds as an argument, with a
  theorem that enough rounds give the result once the device moves on. The scan of the
  buses nests at most 256 calls, which is enough when bridges lead to higher bus
  numbers. Running out of fuel is the value \<open>OutOfFuel\<close>, which stands for a loop that
  does not return.

  \<^bold>\<open>Parameters.\<close> The memory map, addresses and modules of the boot loader, the tables of the ACPI
  library, the firmware behind \<^verbatim>\<open>ecall\<close>, \<^verbatim>\<open>cpuid\<close> and the behaviour of devices
  between two accesses are arguments of the definitions.

  \<^bold>\<open>Not modelled.\<close> \<^verbatim>\<open>arch/x86_64/abi\<close> is a set of generated bindings and a number table
  that the build leaves out. \<^verbatim>\<open>ft.rs\<close> and \<^verbatim>\<open>arch/x86_64/serial\<close> only produce output, and so
  do the names \<^verbatim>\<open>pci/mod.rs\<close> prints. \<^verbatim>\<open>arch/x86_64/intel/iommu\<close> and \<^verbatim>\<open>init_virtiogpu\<close> are register
  protocols with devices. Of \<^verbatim>\<open>uacpi/mod.rs\<close> the port accesses, the boxed handles and the empty
  services are left out. \<^verbatim>\<open>sched_yield\<close> is not modelled for riscv64, whose handler calls
  it without the frame it takes and which has no \<^verbatim>\<open>context_switch\<close> for it; \<^verbatim>\<open>kmain\<close> calls the start-up functions of the other parts in
  order. Translation caches, weak memory ordering and concurrent use of
  structures outside their locks are outside the model.
\<close>

end
